(* ===== verification/Prelude.thy ===== *)
theory Prelude
  imports Main "HOL-Library.Word" "HOL-Library.Monad_Syntax"
begin

text \<open>
  The vocabulary shared by every component.  A C byte is a \<^typ>\<open>char\<close>, a memory area of
  \<open>n\<close> bytes a list of length \<open>n\<close>, an address a natural number, and a C pointer an
  \<^typ>\<open>nat option\<close> whose \<^const>\<open>None\<close> is the null pointer.  A computation that can leave
  the defined behaviour of C (a null or dangling dereference, an access outside its
  block, a division by zero) has type \<open>'a option\<close>: \<^const>\<open>None\<close> is that fault, and the
  \<open>do\<close> notation of \<open>HOL-Library.Monad_Syntax\<close> propagates it.

  The second half models the functions of \<open>string.h\<close> the program calls, on byte lists,
  and proves the characterisations the component proofs use.
\<close>

section \<open>Types and collections\<close>

type_synonym byte = char
type_synonym bytes = "char list"
type_synonym addr = nat
type_synonym ptr = "nat option"
type_synonym u64 = "64 word"

abbreviation NUL :: byte where "NUL \<equiv> CHR 0x00"
abbreviation HT :: byte where "HT \<equiv> CHR 0x09"
abbreviation LF :: byte where "LF \<equiv> CHR 0x0A"
abbreviation CR :: byte where "CR \<equiv> CHR 0x0D"
abbreviation SP :: byte where "SP \<equiv> CHR 0x20"

abbreviation CRLF :: bytes where "CRLF \<equiv> [CR, LF]"

abbreviation SIZE_MOD :: nat where "SIZE_MOD \<equiv> 2 ^ 64"

named_theorems fault_simps \<open>when a computation that may fault succeeds\<close>
named_theorems mem_simps \<open>the memory and string functions on concatenations\<close>

lemmas bind_Some_iff [fault_simps] = Option.bind_eq_Some_conv

text \<open>Dereferencing a pointer into a heap of cells.\<close>

definition deref :: "(addr \<rightharpoonup> 'a) \<Rightarrow> ptr \<Rightarrow> 'a option" where
  "deref h p = Option.bind p h"

lemma deref_simps [simp]:
  "deref h None = None"
  "deref h (Some a) = h a"
  by (simp_all add: deref_def)

text \<open>An access that the block must allow: the value if the condition holds, a fault if not.\<close>

definition guard :: "bool \<Rightarrow> unit option" where
  "guard b = (if b then Some () else None)"

lemma guard_simps [simp]:
  "guard True = Some ()"
  "guard False = None"
  by (simp_all add: guard_def)

lemma guard_eq_Some [fault_simps]: "guard b = Some u \<longleftrightarrow> b"
  by (simp add: guard_def)

lemma map_snd_SomeD: "map_option snd x = Some n \<Longrightarrow> \<exists>r. x = Some (r, n)"
  by (cases x) auto

text \<open>Words of 64 bits and the naturals.\<close>

lemma u64_less: "unat (w :: u64) < SIZE_MOD"
  using unsigned_less [of w] by simp

lemma unat_of_nat_u64: "n < SIZE_MOD \<Longrightarrow> unat (of_nat n :: u64) = n"
  by (simp add: unsigned_of_nat take_bit_nat_eq_self)

lemma unat_Suc_word: "Suc (unat (w :: u64)) < SIZE_MOD \<Longrightarrow> unat (w + 1) = Suc (unat w)"
  by (simp add: unat_word_ariths)

lemma unat_pred_word: "(w :: u64) \<noteq> 0 \<Longrightarrow> unat (w - 1) = unat w - 1"
  by (simp add: unat_minus_one)

text \<open>The conversion of an integer to a C \<open>int\<close>.\<close>

definition c_int :: "int \<Rightarrow> int" where
  "c_int n = (n + 2 ^ 31) mod 2 ^ 32 - 2 ^ 31"

lemma c_int_id [simp]: "- (2 ^ 31) \<le> n \<Longrightarrow> n < 2 ^ 31 \<Longrightarrow> c_int n = n"
  by (simp add: c_int_def)

section \<open>Memory blocks\<close>

text \<open>\<open>memcpy (dest + off) src n\<close> into a block: a fault when it writes past its end.\<close>

definition mem_write :: "'a list \<Rightarrow> nat \<Rightarrow> 'a list \<Rightarrow> 'a list option" where
  "mem_write blk off src =
     (if off + length src \<le> length blk
      then Some (take off blk @ src @ drop (off + length src) blk) else None)"

text \<open>Reading \<open>n\<close> bytes at an offset: a fault when it reads past the end.\<close>

definition mem_read :: "'a list \<Rightarrow> nat \<Rightarrow> nat \<Rightarrow> 'a list option" where
  "mem_read blk off n = (if off + n \<le> length blk then Some (take n (drop off blk)) else None)"

text \<open>\<open>cmem_zmem\<close>: the bytes from the given offset on are zeroed.\<close>

definition cmem_zmem :: "bytes \<Rightarrow> nat \<Rightarrow> nat \<Rightarrow> bytes option" where
  [simp]: "cmem_zmem blk off n = mem_write blk off (replicate n NUL)"

lemma mem_write_Some [fault_simps]:
  "mem_write blk off src = Some b \<longleftrightarrow>
     off + length src \<le> length blk \<and> b = take off blk @ src @ drop (off + length src) blk"
  by (auto simp: mem_write_def)

lemma mem_read_Some [fault_simps]:
  "mem_read blk off n = Some b \<longleftrightarrow> off + n \<le> length blk \<and> b = take n (drop off blk)"
  by (auto simp: mem_read_def)

lemma length_mem_write: "mem_write blk off src = Some b \<Longrightarrow> length b = length blk"
  by (simp add: fault_simps)

lemma take_mem_write:
  "mem_write blk off src = Some b \<Longrightarrow> n \<le> off \<Longrightarrow> take n b = take n blk"
  by (simp add: fault_simps)

lemma mem_write_read_same:
  "mem_write blk off src = Some b \<Longrightarrow> mem_read b off (length src) = Some src"
  by (auto simp: fault_simps)

lemma mem_write_read_before:
  assumes "mem_write blk off src = Some b" and "o2 + n \<le> off"
  shows "mem_read b o2 n = mem_read blk o2 n"
proof -
  from assms(1) have b: "b = take off blk @ src @ drop (off + length src) blk"
    and le: "off + length src \<le> length blk" by (auto simp: fault_simps)
  have "take n (drop o2 b) = take n (drop o2 blk)"
    using assms(2) le by (simp add: b min_def take_drop)
  then show ?thesis using assms length_mem_write [OF assms(1)] by (simp add: mem_read_def)
qed

section \<open>Functions of \<open>string.h\<close>\<close>

abbreviation byte_val :: "byte \<Rightarrow> nat" where "byte_val c \<equiv> of_char c"

text \<open>\<open>memcmp\<close> on two areas of one length; C fixes only the sign of its result.\<close>

fun memcmp :: "bytes \<Rightarrow> bytes \<Rightarrow> int" where
  "memcmp (x # xs) (y # ys) =
     (if x = y then memcmp xs ys else if byte_val x < byte_val y then - 1 else 1)"
| "memcmp _ _ = 0"

text \<open>\<open>memchr\<close> and \<open>memrchr\<close>: the offset of the first and of the last occurrence.\<close>

primrec memchr :: "bytes \<Rightarrow> byte \<Rightarrow> nat option" where
  "memchr [] c = None"
| "memchr (x # xs) c = (if x = c then Some 0 else map_option Suc (memchr xs c))"

primrec memrchr :: "bytes \<Rightarrow> byte \<Rightarrow> nat option" where
  "memrchr [] c = None"
| "memrchr (x # xs) c =
     (case memrchr xs c of Some i \<Rightarrow> Some (Suc i) | None \<Rightarrow> if x = c then Some 0 else None)"

text \<open>\<open>memmem\<close>: the offset of the first occurrence of a needle.\<close>

primrec memmem :: "bytes \<Rightarrow> bytes \<Rightarrow> nat option" where
  "memmem [] n = (if n = [] then Some 0 else None)"
| "memmem (x # xs) n =
     (if take (length n) (x # xs) = n then Some 0 else map_option Suc (memmem xs n))"

text \<open>The C string at the start of an area: what \<open>%s\<close> and \<open>strlen\<close> see.\<close>

definition c_str :: "bytes \<Rightarrow> bytes" where
  "c_str s = takeWhile (\<lambda>c. c \<noteq> NUL) s"

text \<open>\<open>tolower\<close> and \<open>toupper\<close> of the C locale.\<close>

definition c_tolower :: "byte \<Rightarrow> byte" where
  "c_tolower c = (if 65 \<le> byte_val c \<and> byte_val c \<le> 90 then char_of (byte_val c + 32) else c)"

definition c_toupper :: "byte \<Rightarrow> byte" where
  "c_toupper c = (if 97 \<le> byte_val c \<and> byte_val c \<le> 122 then char_of (byte_val c - 32) else c)"

text \<open>\<open>strncasecmp a b n == 0\<close> on two areas of \<open>n\<close> bytes: equal up to case, up to the
  first shared NUL.\<close>

fun strncasecmp_eq :: "bytes \<Rightarrow> bytes \<Rightarrow> bool" where
  "strncasecmp_eq (x # xs) (y # ys) =
     (c_tolower x = c_tolower y \<and> (x = NUL \<or> strncasecmp_eq xs ys))"
| "strncasecmp_eq _ _ = True"

subsection \<open>Characterisations\<close>

lemma byte_val_less [simp]: "byte_val c < 256"
  by (fact nat_of_char_less_256)

lemma byte_val_inject [simp]: "byte_val c = byte_val d \<longleftrightarrow> c = d"
  by (fact of_char_eq_iff)

lemma memcmp_eq_0: "length a = length b \<Longrightarrow> memcmp a b = 0 \<longleftrightarrow> a = b"
  by (induction a b rule: memcmp.induct) auto

lemma memcmp_sign: "memcmp a b \<in> {- 1, 0, 1}"
  by (induction a b rule: memcmp.induct) auto

lemma memcmp_swap: "memcmp b a = - memcmp a b"
  by (induction a b rule: memcmp.induct) (auto simp: order.order_iff_strict dest: leI)

lemma memchr_Some:
  "memchr s c = Some i \<longleftrightarrow> i < length s \<and> s ! i = c \<and> c \<notin> set (take i s)"
proof (induction s arbitrary: i)
  case (Cons x s)
  then show ?case by (cases i) auto
qed simp

lemma memchr_None [simp]: "memchr s c = None \<longleftrightarrow> c \<notin> set s"
  by (induction s) auto

lemma memchr_append_left [mem_simps]:
  "memchr s c = Some i \<Longrightarrow> memchr (s @ t) c = Some i"
  by (simp add: memchr_Some nth_append)

lemma memchr_skip [mem_simps]: "c \<notin> set s \<Longrightarrow> memchr (s @ c # t) c = Some (length s)"
  by (induction s) auto

lemma memchr_less: "memchr s c = Some i \<Longrightarrow> i < length s"
  by (simp add: memchr_Some)

lemma memrchr_None [simp]: "memrchr s c = None \<longleftrightarrow> c \<notin> set s"
  by (induction s) (auto split: option.splits)

lemma memrchr_skip [mem_simps]:
  assumes "c \<notin> set t"
  shows "memrchr (s @ c # t) c = Some (length s)"
proof -
  from assms have "memrchr t c = None" by simp
  then show ?thesis by (induction s) (simp_all del: memrchr_None)
qed

lemma memrchr_SomeD:
  "memrchr s c = Some i \<Longrightarrow> i < length s \<and> s ! i = c \<and> c \<notin> set (drop (Suc i) s)"
  by (induction s arbitrary: i) (auto split: option.splits if_splits)

lemma take_eq_needle: "take (length n) s = n \<Longrightarrow> length n \<le> length s"
  by (metis length_take min.cobounded1)

lemma memmem_Some:
  assumes "n \<noteq> []"
  shows "memmem h n = Some i \<longleftrightarrow>
    take (length n) (drop i h) = n \<and> (\<forall>j<i. take (length n) (drop j h) \<noteq> n)"
proof (induction h arbitrary: i)
  case Nil
  then show ?case using assms by simp
next
  case (Cons x h)
  show ?case
  proof (cases i)
    case 0
    then show ?thesis by auto
  next
    case (Suc k)
    have "(\<forall>j<Suc k. take (length n) (drop j (x # h)) \<noteq> n) \<longleftrightarrow>
        take (length n) (x # h) \<noteq> n \<and> (\<forall>j<k. take (length n) (drop j h) \<noteq> n)"
      by (auto simp: All_less_Suc2)
    with Suc Cons.IH show ?thesis by auto
  qed
qed

lemma memmem_None:
  assumes "n \<noteq> []"
  shows "memmem h n = None \<longleftrightarrow> (\<forall>j. take (length n) (drop j h) \<noteq> n)"
proof
  assume none: "memmem h n = None"
  show "\<forall>j. take (length n) (drop j h) \<noteq> n"
  proof (rule ccontr)
    assume "\<not> ?thesis"
    then obtain j where "take (length n) (drop j h) = n" by blast
    then obtain i where "take (length n) (drop i h) = n" "\<forall>j<i. take (length n) (drop j h) \<noteq> n"
      using exists_least_iff [of "\<lambda>j. take (length n) (drop j h) = n"] by blast
    then have "memmem h n = Some i" by (simp add: memmem_Some assms)
    with none show False by simp
  qed
next
  assume "\<forall>j. take (length n) (drop j h) \<noteq> n"
  then show "memmem h n = None" using assms by (cases "memmem h n") (auto simp: memmem_Some)
qed

lemma memmem_bound: "memmem h n = Some i \<Longrightarrow> i + length n \<le> length h"
proof (induction h arbitrary: i)
  case (Cons x h)
  show ?case
  proof (cases "take (length n) (x # h) = n")
    case True
    with Cons.prems take_eq_needle [OF True] show ?thesis by simp
  next
    case False
    with Cons.prems obtain k where "memmem h n = Some k" "i = Suc k" by auto
    with Cons.IH [of k] show ?thesis by simp
  qed
qed (simp split: if_splits)

text \<open>An occurrence found in a prefix of a buffer is the one found in the whole buffer.\<close>

lemma memmem_append_left [mem_simps]:
  assumes "memmem h n = Some i" and "n \<noteq> []"
  shows "memmem (h @ t) n = Some i"
proof -
  have eq: "take (length n) (drop j (h @ t)) = take (length n) (drop j h)" if "j \<le> i" for j
    using that memmem_bound [OF assms(1)] by simp
  from assms have "take (length n) (drop i h) = n" and "\<forall>j<i. take (length n) (drop j h) \<noteq> n"
    by (simp_all add: memmem_Some)
  then have "take (length n) (drop i (h @ t)) = n"
    and "\<forall>j<i. take (length n) (drop j (h @ t)) \<noteq> n"
    using eq by (metis order_refl, metis less_imp_le)
  with assms(2) show ?thesis by (simp add: memmem_Some del: drop_append take_append)
qed

lemma memmem_skip [mem_simps]:
  assumes "c \<notin> set s"
  shows "memmem (s @ c # t) (c # n) = map_option (\<lambda>i. length s + i) (memmem (c # t) (c # n))"
  using assms by (induction s) (auto simp: option.map_comp comp_def option.map_ident)

lemma memmem_drop:
  assumes "memmem h n = Some i" and "k \<le> i" and "n \<noteq> []"
  shows "memmem (drop k h) n = Some (i - k)"
  using assms by (auto simp: memmem_Some less_diff_conv add.commute)

lemma c_str_no_NUL: "NUL \<notin> set s \<Longrightarrow> c_str s = s"
  by (induction s) (auto simp: c_str_def)

lemma NUL_notin_c_str [simp]: "NUL \<notin> set (c_str s)"
  by (auto simp: c_str_def dest: set_takeWhileD)

lemma c_str_append: "c_str (s @ NUL # t) = c_str s"
  by (induction s) (simp_all add: c_str_def)

lemma c_str_append_NUL: "NUL \<notin> set s \<Longrightarrow> c_str (s @ NUL # t) = s"
  by (induction s) (auto simp: c_str_def)

section \<open>Decimal numbers\<close>

text \<open>What \<open>%i\<close> and \<open>%lld\<close> print.\<close>

fun digits :: "nat \<Rightarrow> bytes" where
  "digits n = (if n < 10 then [char_of (48 + n)] else digits (n div 10) @ [char_of (48 + n mod 10)])"

declare digits.simps [simp del]

definition decimal :: "int \<Rightarrow> bytes" where
  "decimal i = (if i < 0 then CHR ''-'' # digits (nat (- i)) else digits (nat i))"

text \<open>The value of a string of digits.\<close>

definition digits_val :: "bytes \<Rightarrow> nat" where
  "digits_val s = foldl (\<lambda>n c. 10 * n + (byte_val c - 48)) 0 s"

lemma byte_val_digit [simp]: "d < 10 \<Longrightarrow> byte_val (char_of (48 + d)) = 48 + d"
  by (simp add: of_char_of)

lemma digits_val_digits: "digits_val (digits n) = n"
proof (induction n rule: digits.induct)
  case (1 n)
  then show ?case by (subst digits.simps) (auto simp: digits_val_def)
qed

lemma digits_nonempty [simp]: "digits n \<noteq> []"
  by (subst digits.simps) simp

lemma digits_chars: "c \<in> set (digits n) \<Longrightarrow> 48 \<le> byte_val c \<and> byte_val c < 58"
proof (induction n rule: digits.induct)
  case (1 n)
  from "1.prems" show ?case
    by (subst (asm) digits.simps) (auto split: if_splits dest: "1.IH" simp: mod_less_divisor)
qed

lemma decimal_chars: "CR \<notin> set (decimal i)" "LF \<notin> set (decimal i)" "NUL \<notin> set (decimal i)"
  using digits_chars [of CR] digits_chars [of LF] digits_chars [of NUL] by (auto simp: decimal_def)

lemma digits_length: "n < 10 ^ k \<Longrightarrow> 0 < k \<Longrightarrow> length (digits n) \<le> k"
proof (induction n arbitrary: k rule: digits.induct)
  case (1 n)
  show ?case
  proof (cases "n < 10")
    case True
    with "1.prems" show ?thesis by (subst digits.simps) simp
  next
    case False
    with "1.prems" obtain j where k: "k = Suc j" by (cases k) auto
    with False "1.prems" have "0 < j" by (cases j) auto
    moreover have "n div 10 < 10 ^ j" using "1.prems"(1) k by (simp add: less_mult_imp_div_less mult.commute)
    ultimately have "length (digits (n div 10)) \<le> j" using "1.IH" False by blast
    with False k show ?thesis by (subst digits.simps) simp
  qed
qed

end
