(* ===== verification/Sv.thy ===== *)
theory Sv
  imports Prelude
begin

text \<open>
  String views and string comparison: \<open>core/containers/sv.h\<close>, \<open>sv.c\<close> and the comparison
  helpers of \<open>defines.h\<close>.  A view is a pointer and a length; the functions below read the
  bytes it covers, so they take those bytes.  The view itself, as an offset into the buffer
  it points into, is the record \<open>sv_t\<close>, which the request parser fills in.
\<close>

section \<open>Views\<close>

record sv_t =
  sv_ptr :: nat
  sv_len :: nat

definition sv_create :: "nat \<Rightarrow> nat \<Rightarrow> sv_t" where
  "sv_create str n = \<lparr>sv_ptr = str, sv_len = n\<rparr>"

text \<open>The bytes a view covers in the buffer it points into.\<close>

definition sv_bytes :: "bytes \<Rightarrow> sv_t \<Rightarrow> bytes" where
  "sv_bytes raw v = take (sv_len v) (drop (sv_ptr v) raw)"

text \<open>A view lies inside its buffer.\<close>

definition sv_in :: "bytes \<Rightarrow> sv_t \<Rightarrow> bool" where
  "sv_in raw v \<longleftrightarrow> sv_ptr v + sv_len v \<le> length raw"

lemma length_sv_bytes: "sv_in raw v \<Longrightarrow> length (sv_bytes raw v) = sv_len v"
  by (simp add: sv_in_def sv_bytes_def)

lemma sv_bytes_append [mem_simps]: "sv_in raw v \<Longrightarrow> sv_bytes (raw @ t) v = sv_bytes raw v"
  by (simp add: sv_in_def sv_bytes_def)

lemma sv_in_append: "sv_in raw v \<Longrightarrow> sv_in (raw @ t) v"
  by (simp add: sv_in_def)

section \<open>Comparison\<close>

definition c_strcmp :: "bytes \<Rightarrow> bytes \<Rightarrow> int" where
  "c_strcmp str1 str2 =
     (let len1 = length str1; len2 = length str2;
          minlen = (if len1 < len2 then len1 else len2);
          cmp = memcmp (take minlen str1) (take minlen str2)
      in if cmp = 0 then (if len1 > len2 then 1 else if len1 < len2 then - 1 else 0)
         else cmp)"

definition sdscmplitlen :: "bytes \<Rightarrow> bytes \<Rightarrow> int" where
  "sdscmplitlen s lit = c_strcmp s lit"

definition svcmplen :: "bytes \<Rightarrow> bytes \<Rightarrow> int" where
  "svcmplen sv lit = c_strcmp sv lit"

definition sv_cmp :: "bytes \<Rightarrow> bytes \<Rightarrow> int" where
  "sv_cmp a b = c_strcmp a b"

definition sv_eq :: "bytes \<Rightarrow> bytes \<Rightarrow> bool" where
  "sv_eq sv str \<longleftrightarrow> length sv = length str \<and> c_strcmp sv str = 0"

definition sv_eq_ci :: "bytes \<Rightarrow> bytes \<Rightarrow> bool" where
  "sv_eq_ci a b \<longleftrightarrow> length a = length b \<and> strncasecmp_eq a b"

subsection \<open>Equality\<close>

lemma c_strcmp_eq_0 [simp]: "c_strcmp a b = 0 \<longleftrightarrow> a = b"
proof (cases "length a = length b")
  case True
  then show ?thesis by (auto simp: c_strcmp_def Let_def memcmp_eq_0)
next
  case False
  then show ?thesis by (auto simp: c_strcmp_def Let_def)
qed

lemma sv_eq_iff [simp]: "sv_eq a b \<longleftrightarrow> a = b"
  by (auto simp: sv_eq_def)

lemma sv_eq_ci_refl [simp]: "sv_eq_ci a a"
proof -
  have "strncasecmp_eq a a" by (induction a) auto
  then show ?thesis by (simp add: sv_eq_ci_def)
qed

text \<open>On strings without a NUL byte, case-insensitive equality compares every byte.\<close>

lemma sv_eq_ci_iff:
  assumes "NUL \<notin> set a"
  shows "sv_eq_ci a b \<longleftrightarrow> map c_tolower a = map c_tolower b"
proof -
  have "strncasecmp_eq a b \<longleftrightarrow> map c_tolower a = map c_tolower b" if "length a = length b"
    using that assms by (induction a b rule: list_induct2) auto
  then show ?thesis
    by (auto simp: sv_eq_ci_def dest: map_eq_imp_length_eq)
qed

subsection \<open>The order\<close>

text \<open>
  The specification: bytes compare unsigned, the first difference decides, and a proper
  prefix is smaller.
\<close>

fun lex_less :: "bytes \<Rightarrow> bytes \<Rightarrow> bool" where
  "lex_less [] ys = (ys \<noteq> [])"
| "lex_less (x # xs) [] = False"
| "lex_less (x # xs) (y # ys) = (byte_val x < byte_val y \<or> x = y \<and> lex_less xs ys)"

lemma c_strcmp_Cons:
  "c_strcmp (x # xs) (y # ys) =
     (if x = y then c_strcmp xs ys else if byte_val x < byte_val y then - 1 else 1)"
  by (simp add: c_strcmp_def Let_def)

lemma c_strcmp_Nil [simp]:
  "c_strcmp [] ys = (if ys = [] then 0 else - 1)"
  "c_strcmp ys [] = (if ys = [] then 0 else 1)"
  by (simp_all add: c_strcmp_def)

lemma c_strcmp_lex: "c_strcmp a b < 0 \<longleftrightarrow> lex_less a b"
  by (induction a b rule: lex_less.induct) (auto simp: c_strcmp_Cons)

lemma c_strcmp_swap: "c_strcmp b a = - c_strcmp a b"
  by (induction a b rule: lex_less.induct) (auto simp: c_strcmp_Cons)

lemma lex_less_trans: "lex_less a b \<Longrightarrow> lex_less b c \<Longrightarrow> lex_less a c"
proof (induction a b arbitrary: c rule: lex_less.induct)
  case (1 ys)
  then show ?case by (cases c; cases ys) simp_all
next
  case (3 x xs y ys)
  from "3.prems"(2) obtain z zs where c: "c = z # zs" by (cases c) simp_all
  from "3.prems" "3.IH" [of zs] show ?case unfolding c lex_less.simps
    by (metis order.strict_trans)
qed simp

lemma c_strcmp_trans: "c_strcmp a b < 0 \<Longrightarrow> c_strcmp b c < 0 \<Longrightarrow> c_strcmp a c < 0"
  unfolding c_strcmp_lex by (rule lex_less_trans)

text \<open>
  \<open>_strcmp\<close> of \<open>defines.h\<close> is a strict total order on byte strings that agrees with
  equality: it returns 0 exactly on equal strings, a negative value exactly when the first
  string is smaller in the unsigned lexicographic order with prefixes first, and swapping
  its arguments negates the result.
\<close>

theorem c_strcmp_total_order:
  "(c_strcmp a b = 0 \<longleftrightarrow> a = b) \<and> (c_strcmp a b < 0 \<longleftrightarrow> lex_less a b) \<and>
   (c_strcmp b a = - c_strcmp a b)"
  using c_strcmp_swap [of b a] by (simp add: c_strcmp_lex)

end
