(* ===== verification/Http.thy ===== *)
theory Http
  imports Sv
begin

text \<open>
  The data types of \<open>network/network_types.inl\<close> that requests and responses share, and the
  content types of \<open>network/network_util.c\<close>.  A header of a request is a pair of views into
  the received bytes; a header of a response owns its two strings.
\<close>

datatype http_method =
    http_method_get | http_method_head | http_method_options | http_method_trace
  | http_method_put | http_method_delete | http_method_post | http_method_patch
  | http_method_connect | http_method_unknown

datatype http_version = http_version_1p1 | http_version_unknown

text \<open>The two arms of the union \<open>header_t\<close>.\<close>

record header_sv =
  h_name :: sv_t
  h_value :: sv_t

record header_sds =
  hs_name :: bytes
  hs_value :: bytes

text \<open>The value of an enumerator, which indexes the roots of the route trie.\<close>

definition method_index :: "http_method \<Rightarrow> nat" where
  "method_index m =
     (case m of
        http_method_get \<Rightarrow> 0 | http_method_head \<Rightarrow> 1 | http_method_options \<Rightarrow> 2
      | http_method_trace \<Rightarrow> 3 | http_method_put \<Rightarrow> 4 | http_method_delete \<Rightarrow> 5
      | http_method_post \<Rightarrow> 6 | http_method_patch \<Rightarrow> 7 | http_method_connect \<Rightarrow> 8
      | http_method_unknown \<Rightarrow> 9)"

lemma method_index_inject [simp]: "method_index m = method_index m' \<longleftrightarrow> m = m'"
  by (cases m; cases m') (simp_all add: method_index_def)

lemma method_index_known: "method_index m < 9 \<longleftrightarrow> m \<noteq> http_method_unknown"
  by (cases m) (simp_all add: method_index_def)

definition content_type_val_helper :: "bytes \<Rightarrow> bytes" where
  "content_type_val_helper ext =
     (if sv_eq ext ''html'' then ''text/html''
      else if sv_eq ext ''css'' then ''text/css''
      else if sv_eq ext ''js'' then ''text/javascript''
      else if sv_eq ext ''json'' then ''application/json''
      else if sv_eq ext ''jpg'' \<or> sv_eq ext ''jpeg'' then ''image/jpeg''
      else if sv_eq ext ''png'' then ''image/png''
      else if sv_eq ext ''gif'' then ''image/gif''
      else if sv_eq ext ''webp'' then ''image/webp''
      else if sv_eq ext ''svg'' then ''image/svg+xml''
      else if sv_eq ext ''ico'' then ''image/x-icon''
      else ''application/octet-stream'')"

text \<open>Every content type is printable text: it cannot end the header line it is put in.\<close>

lemma content_type_printable: "c \<in> set (content_type_val_helper ext) \<Longrightarrow> c \<notin> {CR, LF, NUL}"
  by (auto simp: content_type_val_helper_def split: if_splits)

end
