(* ===== verification/Lines.thy ===== *)
theory Lines
  imports Prelude
begin

text \<open>
  Texts made of lines that end in CRLF, as HTTP messages are: where the first CRLF and the
  first empty line stand.  Shared by the request parser and the response printer.
\<close>

abbreviation HDR_END :: bytes where "HDR_END \<equiv> [CR, LF, CR, LF]"

text \<open>A line: bytes with no CRLF inside.\<close>

fun no_crlf :: "bytes \<Rightarrow> bool" where
  "no_crlf (x # y # s) = (\<not> (x = CR \<and> y = LF) \<and> no_crlf (y # s))"
| "no_crlf _ = True"

lemma memmem_crlf_line [mem_simps]:
  "no_crlf l \<Longrightarrow> memmem (l @ CR # LF # t) CRLF = Some (length l)"
  by (induction l rule: no_crlf.induct) auto

lemma memmem_crlf_None: "memmem s CRLF = None \<longleftrightarrow> no_crlf s"
  by (induction s rule: no_crlf.induct) auto

lemma memmem_crlf_Some:
  assumes "memmem s CRLF = Some i"
  shows "no_crlf (take i s)" and "s = take i s @ CR # LF # drop (i + 2) s"
proof -
  from assms have here: "take 2 (drop i s) = CRLF" and before: "\<forall>j<i. take 2 (drop j s) \<noteq> CRLF"
    by (simp_all add: memmem_Some numeral_2_eq_2)
  have "take 2 (drop j (take i s)) \<noteq> CRLF" for j
  proof
    assume eq: "take 2 (drop j (take i s)) = CRLF"
    then have "length (take 2 (drop j (take i s))) = 2" by simp
    then have "j + 2 \<le> i" by (auto simp: min_def split: if_splits)
    then have "take 2 (drop j (take i s)) = take 2 (drop j s)" by (simp add: drop_take min_def)
    with eq before \<open>j + 2 \<le> i\<close> show False by simp
  qed
  then show "no_crlf (take i s)" by (simp add: memmem_crlf_None [symmetric] memmem_None numeral_2_eq_2)
  have "drop i s = take 2 (drop i s) @ drop (i + 2) s"
    by (metis add.commute append_take_drop_id drop_drop)
  with here show "s = take i s @ CR # LF # drop (i + 2) s"
    by (metis append_Cons append_Nil append_take_drop_id)
qed

text \<open>A text of complete lines, and the end of the header block behind it.\<close>

definition unlines :: "bytes list \<Rightarrow> bytes" where
  "unlines ls = concat (map (\<lambda>l. l @ CRLF) ls)"

lemma unlines_simps [simp]:
  "unlines [] = []"
  "unlines (l # ls) = l @ CR # LF # unlines ls"
  "unlines (ls @ ls') = unlines ls @ unlines ls'"
  by (simp_all add: unlines_def)

lemma line_not_crlf: "no_crlf l \<Longrightarrow> l \<noteq> [] \<Longrightarrow> take 2 (l @ CR # LF # t) \<noteq> CRLF"
  by (cases l rule: no_crlf.cases) (auto simp: numeral_2_eq_2)

lemma length_HDR_END: "length HDR_END = 4"
  by simp

lemma hdr_end_crlf: "take 4 s = HDR_END \<Longrightarrow> take 2 s = CRLF"
  by (drule arg_cong [of _ _ "take 2"]) simp

lemma no_crlf_tl: "no_crlf (x # l) \<Longrightarrow> no_crlf l"
  by (cases l) auto

lemma no_crlf_without_CR: "CR \<notin> set l \<Longrightarrow> no_crlf l"
  by (induction l rule: no_crlf.induct) auto

lemma memmem_Cons_no: "take (length n) (x # s) \<noteq> n \<Longrightarrow> memmem (x # s) n = map_option Suc (memmem s n)"
  by simp

lemma memmem_hdr_end_line:
  assumes "take 2 t \<noteq> CRLF"
  shows "no_crlf l \<Longrightarrow>
   memmem (l @ CR # LF # t) HDR_END = map_option (\<lambda>i. length l + 2 + i) (memmem t HDR_END)"
proof (induction l)
  case Nil
  have "take (length HDR_END) (CR # LF # t) \<noteq> HDR_END" using assms by (simp add: numeral_2_eq_2)
  moreover have "take (length HDR_END) (LF # t) \<noteq> HDR_END" by simp
  ultimately show ?case
    by (simp only: append_Nil memmem_Cons_no) (simp add: option.map_comp comp_def)
next
  case (Cons x l)
  have "take (length HDR_END) (x # l @ CR # LF # t) \<noteq> HDR_END"
    using hdr_end_crlf [of "x # l @ CR # LF # t"] line_not_crlf [OF Cons.prems, of t]
    by (simp only: length_HDR_END append_Cons not_False_eq_True list.distinct simp_thms) blast
  from memmem_Cons_no [OF this] Cons.IH no_crlf_tl [OF Cons.prems] show ?case
    by (simp del: memmem.simps add: option.map_comp comp_def)
qed

lemma memmem_hdr_end_here:
  "no_crlf l \<Longrightarrow> memmem (l @ CR # LF # CR # LF # t) HDR_END = Some (length l)"
  by (induction l rule: no_crlf.induct) auto

lemma memmem_hdr_end_lines:
  assumes "\<forall>l\<in>set (l0 # ls). no_crlf l" and "\<forall>l\<in>set ls. l \<noteq> []"
  shows "memmem (unlines (l0 # ls) @ CR # LF # t) HDR_END = Some (length (unlines (l0 # ls)) - 2)"
  using assms
proof (induction ls arbitrary: l0)
  case Nil
  then show ?case by (simp add: memmem_hdr_end_here)
next
  case (Cons l ls)
  from Cons.prems have "take 2 (unlines (l # ls) @ CR # LF # t) \<noteq> CRLF"
    using line_not_crlf [of l "unlines ls @ CR # LF # t"] by simp
  from memmem_hdr_end_line [OF this, of l0] Cons.IH [of l] Cons.prems show ?case by simp
qed

text \<open>A text that is empty or ends in CRLF is a text of lines.\<close>

lemma unlines_exist:
  "s = [] \<or> (\<exists>t. s = t @ CRLF) \<Longrightarrow> \<exists>ls. s = unlines ls \<and> (\<forall>l\<in>set ls. no_crlf l)"
proof (induction s rule: length_induct)
  case (1 s)
  show ?case
  proof (cases "s = []")
    case True
    then show ?thesis by (intro exI [of _ "[]"]) simp
  next
    case False
    with "1.prems" obtain t where t: "s = t @ CRLF" by blast
    then have "memmem s CRLF \<noteq> None"
      using memmem_None [of CRLF s] by (auto intro!: exI [of _ "length t"])
    then obtain i where "memmem s CRLF = Some i" by blast
    from memmem_crlf_Some [OF this] obtain l u where l: "no_crlf l" and s: "s = l @ CR # LF # u"
      by metis
    have "u = [] \<or> (\<exists>t. u = t @ CRLF)"
    proof (cases u rule: rev_cases)
      case (snoc u' b)
      with s t show ?thesis by (cases u' rule: rev_cases) auto
    qed simp
    moreover have "length u < length s" by (simp add: s)
    ultimately obtain ls where "u = unlines ls" "\<forall>l\<in>set ls. no_crlf l" using "1.IH" by blast
    with l s show ?thesis by (intro exI [of _ "l # ls"]) simp
  qed
qed

end
