(* ===== verification/Request.thy ===== *)
theory Request
  imports Http Lines
begin

text \<open>
  The request parser of \<open>network/http/request.c\<close>.  Pointers into the received bytes are
  offsets; every scan reads through \<^const>\<open>mem_read\<close> or \<open>byte_at\<close>, so that a read outside the
  buffer is a fault of the model.  The header array is a list (its growth is the subject of
  the theory of \<open>darray.c\<close>).
\<close>

section \<open>Scanning the buffer\<close>

text \<open>The difference of two pointers passed as a \<open>size_t\<close>: a negative one would be huge.\<close>

definition span :: "nat \<Rightarrow> nat \<Rightarrow> nat option" where
  "span p e = (if p \<le> e then Some (e - p) else None)"

definition byte_at :: "bytes \<Rightarrow> nat \<Rightarrow> byte option" where
  "byte_at raw p = (if p < length raw then Some (raw ! p) else None)"

definition scan_chr :: "bytes \<Rightarrow> nat \<Rightarrow> nat \<Rightarrow> byte \<Rightarrow> nat option option" where
  "scan_chr raw p n c = do { s \<leftarrow> mem_read raw p n; Some (map_option ((+) p) (memchr s c)) }"

definition scan_mem :: "bytes \<Rightarrow> nat \<Rightarrow> nat \<Rightarrow> bytes \<Rightarrow> nat option option" where
  "scan_mem raw p n needle =
     do { s \<leftarrow> mem_read raw p n; Some (map_option ((+) p) (memmem s needle)) }"

text \<open>The bytes a view covers, read from the buffer.\<close>

definition view :: "bytes \<Rightarrow> sv_t \<Rightarrow> bytes option" where
  "view raw v = mem_read raw (sv_ptr v) (sv_len v)"

lemma view_Some: "sv_in raw v \<Longrightarrow> view raw v = Some (sv_bytes raw v)"
  by (simp add: view_def sv_in_def sv_bytes_def mem_read_def)

section \<open>The request\<close>

record request_t =
  rq_raw :: bytes
  rq_method :: http_method
  rq_URI :: sv_t
  rq_version :: http_version
  rq_headers :: "header_sv list"
  rq_body :: sv_t

definition parse_http_method :: "bytes \<Rightarrow> http_method" where
  "parse_http_method m =
     (if sv_eq m ''GET'' then http_method_get
      else if sv_eq m ''HEAD'' then http_method_head
      else if sv_eq m ''OPTIONS'' then http_method_options
      else if sv_eq m ''TRACE'' then http_method_trace
      else if sv_eq m ''PUT'' then http_method_put
      else if sv_eq m ''DELETE'' then http_method_delete
      else if sv_eq m ''POST'' then http_method_post
      else if sv_eq m ''PATCH'' then http_method_patch
      else if sv_eq m ''CONNECT'' then http_method_connect
      else http_method_unknown)"

definition parse_http_version :: "bytes \<Rightarrow> http_version" where
  "parse_http_version v = (if sv_eq v ''HTTP/1.1'' then http_version_1p1 else http_version_unknown)"

definition parse_status_line :: "request_t \<Rightarrow> sv_t \<Rightarrow> (request_t \<times> bool) option" where
  "parse_status_line req line = do {
     let raw = rq_raw req;
     let e = sv_ptr line + sv_len line;
     sp1 \<leftarrow> scan_chr raw (sv_ptr line) (sv_len line) SP;
     (case sp1 of
        None \<Rightarrow> Some (req, False)
      | Some sp1 \<Rightarrow> do {
          n \<leftarrow> span (sp1 + 1) e;
          sp2 \<leftarrow> scan_chr raw (sp1 + 1) n SP;
          (case sp2 of
             None \<Rightarrow> Some (req, False)
           | Some sp2 \<Rightarrow> do {
               mlen \<leftarrow> span (sv_ptr line) sp1;
               ulen \<leftarrow> span (sp1 + 1) sp2;
               vlen \<leftarrow> span (sp2 + 1) e;
               let method = \<lparr>sv_ptr = sv_ptr line, sv_len = mlen\<rparr>;
               let uri = \<lparr>sv_ptr = sp1 + 1, sv_len = ulen\<rparr>;
               let version = \<lparr>sv_ptr = sp2 + 1, sv_len = vlen\<rparr>;
               if sv_len method = 0 \<or> sv_len uri = 0 then Some (req, False)
               else do {
                 sp3 \<leftarrow> scan_chr raw (sv_ptr version) (sv_len version) SP;
                 if sp3 \<noteq> None then Some (req, False)
                 else do {
                   m \<leftarrow> view raw method;
                   v \<leftarrow> view raw version;
                   let req = req\<lparr>rq_method := parse_http_method m, rq_URI := uri,
                     rq_version := parse_http_version v\<rparr>;
                   Some (req, rq_method req \<noteq> http_method_unknown \<and>
                     rq_version req \<noteq> http_version_unknown)
                 }
               }
             })
        })
   }"

definition is_ows :: "byte \<Rightarrow> bool" where
  "is_ows c \<longleftrightarrow> c = SP \<or> c = HT"

text \<open>The two loops that strip white space around a header's value.\<close>

function skip_left :: "bytes \<Rightarrow> nat \<Rightarrow> nat \<Rightarrow> nat option" where
  "skip_left raw v ve =
     (if v < ve then do { c \<leftarrow> byte_at raw v; if is_ows c then skip_left raw (v + 1) ve else Some v }
      else Some v)"
  by pat_completeness auto
termination by (relation "measure (\<lambda>(raw, v, ve). ve - v)") auto

function skip_right :: "bytes \<Rightarrow> nat \<Rightarrow> nat \<Rightarrow> nat option" where
  "skip_right raw v ve =
     (if ve > v then do { c \<leftarrow> byte_at raw (ve - 1);
        if is_ows c then skip_right raw v (ve - 1) else Some ve }
      else Some ve)"
  by pat_completeness auto
termination by (relation "measure (\<lambda>(raw, v, ve). ve - v)") auto

declare skip_left.simps [simp del] skip_right.simps [simp del]

text \<open>One turn of the header loop: a rejection, or the header and the start of the next line.\<close>

definition parse_header_line :: "bytes \<Rightarrow> nat \<Rightarrow> nat \<Rightarrow> (header_sv \<times> nat) option option" where
  "parse_header_line raw p e = do {
     n \<leftarrow> span p e;
     eol \<leftarrow> scan_mem raw p n CRLF;
     let eol = (case eol of None \<Rightarrow> e | Some i \<Rightarrow> i);
     n \<leftarrow> span p eol;
     colon \<leftarrow> scan_chr raw p n CHR '':'';
     (case colon of
        None \<Rightarrow> Some None
      | Some colon \<Rightarrow>
          if colon = p then Some None
          else do {
            v \<leftarrow> skip_left raw (colon + 1) eol;
            ve \<leftarrow> skip_right raw v eol;
            nlen \<leftarrow> span p colon;
            vlen \<leftarrow> span v ve;
            Some (Some (\<lparr>h_name = \<lparr>sv_ptr = p, sv_len = nlen\<rparr>, h_value = \<lparr>sv_ptr = v, sv_len = vlen\<rparr>\<rparr>,
              eol + 2))
          })
   }"

lemma parse_header_line_advances:
  "parse_header_line raw p e = Some (Some (h, p')) \<Longrightarrow> p < p'"
  by (auto simp: parse_header_line_def span_def scan_mem_def fault_simps Let_def
      split: option.splits if_splits)

function parse_headers_loop :: "bytes \<Rightarrow> nat \<Rightarrow> nat \<Rightarrow> header_sv list \<Rightarrow> (header_sv list \<times> bool) option"
where
  "parse_headers_loop raw p e hs =
     (if p < e then do {
        line \<leftarrow> parse_header_line raw p e;
        (case line of
           None \<Rightarrow> Some (hs, False)
         | Some (h, p') \<Rightarrow> parse_headers_loop raw p' e (hs @ [h]))
      }
      else Some (hs, True))"
  by pat_completeness auto
termination
  by (relation "measure (\<lambda>(raw, p, e, hs). e - p)") (auto dest: parse_header_line_advances)

declare parse_headers_loop.simps [simp del]

definition parse_headers :: "request_t \<Rightarrow> sv_t \<Rightarrow> (request_t \<times> bool) option" where
  "parse_headers req raw_hdrs = do {
     (hs, ok) \<leftarrow> parse_headers_loop (rq_raw req) (sv_ptr raw_hdrs) (sv_ptr raw_hdrs + sv_len raw_hdrs) [];
     Some (req\<lparr>rq_headers := hs\<rparr>, ok)
   }"

definition MAX_HEADER_BYTES :: nat where "MAX_HEADER_BYTES = 4096"

text \<open>The result is the parsed request and the returned \<open>int\<close>.\<close>

definition request_parse :: "request_t \<Rightarrow> (request_t \<times> int) option" where
  "request_parse req = do {
     let raw = rq_raw req;
     let raw_len = length raw;
     hdr_end \<leftarrow> scan_mem raw 0 raw_len HDR_END;
     (case hdr_end of
        None \<Rightarrow> Some (req, if raw_len \<ge> MAX_HEADER_BYTES then - 1 else 0)
      | Some hdr_end \<Rightarrow> do {
          line_end \<leftarrow> scan_mem raw 0 (hdr_end + 2) CRLF;
          (case line_end of
             None \<Rightarrow> Some (req, - 1)
           | Some line_end \<Rightarrow> do {
               (req, ok) \<leftarrow> parse_status_line req \<lparr>sv_ptr = 0, sv_len = line_end\<rparr>;
               if \<not> ok then Some (req, - 1)
               else do {
                 n \<leftarrow> span (line_end + 2) (hdr_end + 2);
                 (req, ok) \<leftarrow> parse_headers req \<lparr>sv_ptr = line_end + 2, sv_len = n\<rparr>;
                 if \<not> ok then Some (req, - 1)
                 else Some (req\<lparr>rq_body := \<lparr>sv_ptr = hdr_end + 4, sv_len = 0\<rparr>\<rparr>, c_int (int (hdr_end + 4)))
               }
             })
        })
   }"

text \<open>\<^const>\<open>None\<close> stands for the null view.\<close>

primrec get_header_loop :: "bytes \<Rightarrow> header_sv list \<Rightarrow> bytes \<Rightarrow> sv_t option option" where
  "get_header_loop raw [] hdr_name = Some None"
| "get_header_loop raw (h # hs) hdr_name = do {
     name \<leftarrow> view raw (h_name h);
     if sv_eq_ci name hdr_name then Some (Some (h_value h)) else get_header_loop raw hs hdr_name
   }"

definition request_get_header_value :: "request_t \<Rightarrow> bytes \<Rightarrow> sv_t option option" where
  "request_get_header_value req hdr_name =
     get_header_loop (rq_raw req) (rq_headers req) (c_str hdr_name)"

section \<open>The fields of a line\<close>

text \<open>The optional white space around a value, and the name and value between.\<close>

definition line_fields :: "bytes \<Rightarrow> (bytes \<times> bytes \<times> bytes \<times> bytes) option" where
  "line_fields line =
     (case memchr line CHR '':'' of
        None \<Rightarrow> None
      | Some c \<Rightarrow>
          if c = 0 then None
          else (let after = drop (Suc c) line;
                    l = takeWhile is_ows after;
                    rest = dropWhile is_ows after;
                    v = rev (dropWhile is_ows (rev rest));
                    r = rev (takeWhile is_ows (rev rest))
                in Some (take c line, l, v, r)))"

definition print_line :: "bytes \<times> bytes \<times> bytes \<times> bytes \<Rightarrow> bytes" where
  "print_line f = (case f of (n, l, v, r) \<Rightarrow> n @ CHR '':'' # l @ v @ r)"

definition fields_ok :: "bytes \<times> bytes \<times> bytes \<times> bytes \<Rightarrow> bool" where
  "fields_ok f = (case f of (n, l, v, r) \<Rightarrow>
     n \<noteq> [] \<and> CHR '':'' \<notin> set n \<and> (\<forall>c\<in>set l. is_ows c) \<and> (\<forall>c\<in>set r. is_ows c) \<and>
     (if v = [] then r = [] else \<not> is_ows (hd v) \<and> \<not> is_ows (last v)))"

lemma line_fields_print:
  assumes "fields_ok f"
  shows "line_fields (print_line f) = Some f"
proof -
  obtain n l v r where f: "f = (n, l, v, r)" by (cases f)
  have ok: "n \<noteq> []" "CHR '':'' \<notin> set n" "\<forall>c\<in>set l. is_ows c" "\<forall>c\<in>set r. is_ows c"
    "v = [] \<Longrightarrow> r = []" "v \<noteq> [] \<Longrightarrow> \<not> is_ows (hd v)" "v \<noteq> [] \<Longrightarrow> \<not> is_ows (last v)"
    using assms by (auto simp: f fields_ok_def split: if_splits)
  have l: "takeWhile is_ows (l @ v @ r) = l" "dropWhile is_ows (l @ v @ r) = v @ r"
    using ok by (cases v; simp add: takeWhile_append dropWhile_append3)+
  have "takeWhile is_ows (rev r @ rev v) = rev r" "dropWhile is_ows (rev r @ rev v) = rev v"
    using ok by (cases v rule: rev_cases; simp add: takeWhile_append dropWhile_append3)+
  with l ok(1,2) show ?thesis
    by (simp add: f print_line_def line_fields_def memchr_skip)
qed

lemma line_fields_Some:
  assumes "line_fields line = Some f"
  shows "fields_ok f" and "print_line f = line"
proof -
  from assms obtain c where c: "memchr line CHR '':'' = Some c" "c \<noteq> 0"
    by (auto simp: line_fields_def split: option.splits if_splits)
  define after where "after = drop (Suc c) line"
  define rest where "rest = dropWhile is_ows after"
  have f: "f = (take c line, takeWhile is_ows after, rev (dropWhile is_ows (rev rest)),
      rev (takeWhile is_ows (rev rest)))"
    using assms c by (simp add: line_fields_def Let_def after_def rest_def)
  have line: "line = take c line @ CHR '':'' # after" and no: "CHR '':'' \<notin> set (take c line)"
    and "take c line \<noteq> []"
    using c id_take_nth_drop [of c line] by (auto simp: memchr_Some after_def)
  have rest: "rest = rev (dropWhile is_ows (rev rest)) @ rev (takeWhile is_ows (rev rest))"
    by (metis rev_append rev_rev_ident takeWhile_dropWhile_id)
  have "after = takeWhile is_ows after @ rest" by (simp add: rest_def)
  with line rest show "print_line f = line" by (simp add: f print_line_def)
  have hd: "rest = [] \<or> \<not> is_ows (hd rest)" by (metis hd_dropWhile rest_def)
  have "hd (rev (dropWhile is_ows (rev rest))) = hd rest" if "dropWhile is_ows (rev rest) \<noteq> []"
    using that rest by (metis hd_append2 rev_is_Nil_conv)
  moreover have "\<not> is_ows (last (rev (dropWhile is_ows (rev rest))))"
    if "dropWhile is_ows (rev rest) \<noteq> []" using hd_dropWhile [OF that] that by (simp add: last_rev)
  moreover have "rest = []" if "dropWhile is_ows (rev rest) = []"
    using that hd by (metis dropWhile_eq_Nil_conv hd_in_set set_rev)
  ultimately show "fields_ok f"
    using hd no \<open>take c line \<noteq> []\<close>
    by (auto simp: f fields_ok_def dest: set_takeWhileD)
qed

section \<open>What the loops compute\<close>

definition seg :: "bytes \<Rightarrow> nat \<Rightarrow> nat \<Rightarrow> bytes" where
  "seg raw p e = take (e - p) (drop p raw)"

lemma slice_Cons: "p < e \<Longrightarrow> e \<le> length raw \<Longrightarrow> seg raw p e = raw ! p # seg raw (Suc p) e"
  by (simp add: seg_def Cons_nth_drop_Suc [symmetric] take_Cons')

lemma slice_snoc:
  assumes "p < e" and "e \<le> length raw"
  shows "seg raw p e = seg raw p (e - 1) @ [raw ! (e - 1)]"
proof -
  from assms obtain k where k: "e = Suc k" and le: "p \<le> k" "k < length raw" by (cases e) auto
  then have "take (Suc (k - p)) (drop p raw) = take (k - p) (drop p raw) @ [drop p raw ! (k - p)]"
    by (intro take_Suc_conv_app_nth) simp
  with k le show ?thesis by (simp add: seg_def Suc_diff_le)
qed

lemma drop_slice: "drop k (seg raw p e) = seg raw (p + k) e"
  by (simp add: seg_def drop_take add.commute)

lemma length_slice: "p \<le> e \<Longrightarrow> e \<le> length raw \<Longrightarrow> length (seg raw p e) = e - p"
  by (simp add: seg_def)

lemma take_slice: "p + k \<le> e \<Longrightarrow> take k (seg raw p e) = seg raw p (p + k)"
  by (simp add: seg_def min_def)

lemma slice_empty [simp]: "e \<le> p \<Longrightarrow> seg raw p e = []"
  by (simp add: seg_def)

lemma skip_left_slice:
  "v \<le> ve \<Longrightarrow> ve \<le> length raw \<Longrightarrow>
   skip_left raw v ve = Some (v + length (takeWhile is_ows (seg raw v ve)))"
proof (induction raw v ve rule: skip_left.induct)
  case (1 raw v ve)
  then show ?case
    by (subst skip_left.simps) (simp add: byte_at_def slice_Cons)
qed

lemma skip_right_slice:
  "v \<le> ve \<Longrightarrow> ve \<le> length raw \<Longrightarrow>
   skip_right raw v ve = Some (v + length (dropWhile is_ows (rev (seg raw v ve))))"
proof (induction raw v ve rule: skip_right.induct)
  case (1 raw v ve)
  show ?case
  proof (cases "v < ve")
    case True
    with 1 slice_snoc [of v ve raw] length_slice [of v "ve - 1" raw] show ?thesis
      by (subst skip_right.simps) (simp add: byte_at_def)
  next
    case False
    with "1.prems" show ?thesis by (subst skip_right.simps) simp
  qed
qed

definition header_at :: "nat \<Rightarrow> bytes \<times> bytes \<times> bytes \<times> bytes \<Rightarrow> header_sv" where
  "header_at p f = (case f of (n, l, v, r) \<Rightarrow>
     \<lparr>h_name = \<lparr>sv_ptr = p, sv_len = length n\<rparr>,
      h_value = \<lparr>sv_ptr = p + length n + 1 + length l, sv_len = length v\<rparr>\<rparr>)"

lemma parse_header_line_fields:
  assumes sl: "seg raw p e = line @ CR # LF # t" and "no_crlf line" and "p \<le> e" and "e \<le> length raw"
  shows "parse_header_line raw p e =
    Some (map_option (\<lambda>f. (header_at p f, p + length line + 2)) (line_fields line))"
proof -
  have len: "e - p = length line + 2 + length t" using length_slice [of p e raw] assms by simp
  have rd: "mem_read raw p (e - p) = Some (seg raw p e)"
    using assms by (simp add: mem_read_def seg_def)
  have line: "seg raw p (p + length line) = line"
    using take_slice [of p "length line" e raw] sl len by simp
  then have rd2: "mem_read raw p (length line) = Some line"
    using assms len by (simp add: mem_read_def seg_def)
  have mm: "memmem (seg raw p e) CRLF = Some (length line)"
    unfolding sl by (rule memmem_crlf_line [OF assms(2)])
  show ?thesis
  proof (cases "memchr line CHR '':''")
    case None
    with rd rd2 mm assms len show ?thesis
      by (simp add: parse_header_line_def span_def scan_mem_def scan_chr_def line_fields_def
          del: memchr_None)
  next
    case (Some c)
    have c: "c < length line" using Some by (rule memchr_less)
    let ?after = "drop (Suc c) line"
    have after: "seg raw (p + c + 1) (p + length line) = ?after"
      using drop_slice [of "c + 1" raw p "p + length line"] line by simp
    have le: "p + length line \<le> length raw" using assms len by linarith
    have sl1: "skip_left raw (p + c + 1) (p + length line) =
        Some (p + c + 1 + length (takeWhile is_ows ?after))"
      using skip_left_slice [of "p + c + 1" "p + length line" raw] after c le by simp
    have tw: "length (takeWhile is_ows ?after) \<le> length line - Suc c"
      by (metis length_drop length_takeWhile_le)
    have rest: "seg raw (p + c + 1 + length (takeWhile is_ows ?after)) (p + length line) =
        dropWhile is_ows ?after"
      using drop_slice [of "length (takeWhile is_ows ?after)" raw "p + c + 1" "p + length line"] after
      by (simp add: dropWhile_eq_drop add.commute add.left_commute)
    have sr: "skip_right raw (p + c + 1 + length (takeWhile is_ows ?after)) (p + length line) =
        Some (p + c + 1 + length (takeWhile is_ows ?after) +
          length (dropWhile is_ows (rev (dropWhile is_ows ?after))))"
      using skip_right_slice [of "p + c + 1 + length (takeWhile is_ows ?after)" "p + length line" raw]
        rest tw c le by simp
    show ?thesis
    proof (cases "c = 0")
      case True
      with Some rd rd2 mm assms len show ?thesis
        by (simp add: parse_header_line_def span_def scan_mem_def scan_chr_def line_fields_def)
    next
      case False
      with Some c rd rd2 mm assms len sl1 sr show ?thesis
        by (simp add: parse_header_line_def span_def scan_mem_def scan_chr_def line_fields_def
            header_at_def Let_def min_def)
    qed
  qed
qed

fun headers_of :: "nat \<Rightarrow> bytes list \<Rightarrow> header_sv list \<times> bool" where
  "headers_of p [] = ([], True)"
| "headers_of p (l # ls) =
     (case line_fields l of
        None \<Rightarrow> ([], False)
      | Some f \<Rightarrow> let (hs, ok) = headers_of (p + length l + 2) ls in (header_at p f # hs, ok))"

lemma parse_headers_loop_lines:
  "seg raw p e = unlines ls \<Longrightarrow> \<forall>l\<in>set ls. no_crlf l \<Longrightarrow> p \<le> e \<Longrightarrow> e \<le> length raw \<Longrightarrow>
   parse_headers_loop raw p e hs = Some (hs @ fst (headers_of p ls), snd (headers_of p ls))"
proof (induction ls arbitrary: p hs)
  case Nil
  then have "p = e" using length_slice [of p e raw] by simp
  then show ?case by (subst parse_headers_loop.simps) simp
next
  case (Cons l ls)
  have sl: "seg raw p e = l @ CR # LF # unlines ls" and l: "no_crlf l" using Cons.prems by simp_all
  have len: "e - p = length l + 2 + length (unlines ls)"
    using length_slice [of p e raw] Cons.prems sl by simp
  note line = parse_header_line_fields [OF sl l Cons.prems(3,4)]
  have "seg raw (p + length l + 2) e = unlines ls"
    using drop_slice [of "length l + 2" raw p e] sl by (simp add: add.commute add.left_commute)
  with Cons.IH [of "p + length l + 2"] Cons.prems len
  have IH: "parse_headers_loop raw (p + length l + 2) e hs' =
      Some (hs' @ fst (headers_of (p + length l + 2) ls), snd (headers_of (p + length l + 2) ls))" for hs'
    by simp
  show ?case
  proof (cases "line_fields l")
    case None
    with line len show ?thesis by (subst parse_headers_loop.simps) simp
  next
    case (Some f)
    with line len IH show ?thesis
      by (subst parse_headers_loop.simps) (simp add: split_def Let_def)
  qed
qed

text \<open>The three tokens of the first line.\<close>

definition status_fields :: "bytes \<Rightarrow> (bytes \<times> bytes \<times> bytes) option" where
  "status_fields l =
     (case memchr l SP of
        None \<Rightarrow> None
      | Some a \<Rightarrow>
          (case memchr (drop (Suc a) l) SP of
             None \<Rightarrow> None
           | Some b \<Rightarrow>
               let m = take a l; u = take b (drop (Suc a) l); v = drop (Suc b) (drop (Suc a) l)
               in if m = [] \<or> u = [] \<or> SP \<in> set v then None else Some (m, u, v)))"

lemma memchr_split: "memchr s c = Some i \<Longrightarrow> s = take i s @ c # drop (Suc i) s \<and> c \<notin> set (take i s)"
  using id_take_nth_drop [of i s] by (simp add: memchr_Some)

lemma status_fields_iff:
  "status_fields l = Some (m, u, v) \<longleftrightarrow>
     l = m @ SP # u @ SP # v \<and> SP \<notin> set m \<and> SP \<notin> set u \<and> SP \<notin> set v \<and> m \<noteq> [] \<and> u \<noteq> []"
  (is "?lhs \<longleftrightarrow> ?rhs")
proof
  assume ?lhs
  then obtain a b where "memchr l SP = Some a" "memchr (drop (Suc a) l) SP = Some b"
    and "m = take a l" "u = take b (drop (Suc a) l)" "v = drop (Suc b) (drop (Suc a) l)"
    and "m \<noteq> [] \<and> u \<noteq> [] \<and> SP \<notin> set v"
    by (auto simp: status_fields_def Let_def split: option.splits if_splits)
  then show ?rhs using memchr_split [of l SP a] memchr_split [of "drop (Suc a) l" SP b] by simp
next
  assume ?rhs
  then show ?lhs by (simp add: status_fields_def memchr_skip)
qed

definition set_status :: "request_t \<Rightarrow> bytes \<times> bytes \<times> bytes \<Rightarrow> request_t" where
  "set_status req f = (case f of (m, u, v) \<Rightarrow>
     req\<lparr>rq_method := parse_http_method m, rq_URI := \<lparr>sv_ptr = length m + 1, sv_len = length u\<rparr>,
       rq_version := parse_http_version v\<rparr>)"

definition status_known :: "bytes \<times> bytes \<times> bytes \<Rightarrow> bool" where
  "status_known f = (case f of (m, u, v) \<Rightarrow>
     parse_http_method m \<noteq> http_method_unknown \<and> parse_http_version v \<noteq> http_version_unknown)"

lemma mem_read_prefix: "mem_read (l @ t) p n = Some s" if "drop p l = s @ u" "length s = n" "p \<le> length l"
proof -
  from that have "length l = p + (n + length u)" by (metis add_diff_inverse_nat length_append length_drop not_less)
  with that show ?thesis by (simp add: mem_read_def)
qed

lemma parse_status_line_fields:
  assumes "rq_raw req = l @ t"
  shows "parse_status_line req \<lparr>sv_ptr = 0, sv_len = length l\<rparr> =
    Some (case status_fields l of None \<Rightarrow> (req, False) | Some f \<Rightarrow> (set_status req f, status_known f))"
proof (cases "memchr l SP")
  case None
  have "mem_read (l @ t) 0 (length l) = Some l" by (simp add: mem_read_def)
  with None assms show ?thesis
    by (simp add: parse_status_line_def scan_chr_def status_fields_def del: memchr_None)
next
  case (Some a)
  let ?r = "drop (Suc a) l"
  have a: "a < length l" using Some by (rule memchr_less)
  have rd: "mem_read (l @ t) 0 (length l) = Some l"
    "mem_read (l @ t) (Suc a) (length l - Suc a) = Some ?r"
    "mem_read (l @ t) 0 a = Some (take a l)"
    using a by (simp_all add: mem_read_def)
  show ?thesis
  proof (cases "memchr ?r SP")
    case None
    with Some a rd assms show ?thesis
      by (simp add: parse_status_line_def scan_chr_def span_def status_fields_def del: memchr_None)
  next
    case b: (Some b)
    have "b < length ?r" using b by (rule memchr_less)
    then have rd': "mem_read (l @ t) (Suc (Suc (a + b))) (length l - Suc (Suc (a + b))) =
        Some (drop (Suc b) ?r)" and len: "Suc (Suc (a + b)) \<le> length l"
      by (simp_all add: mem_read_def add.commute)
    show ?thesis
    proof (cases "memchr (drop (Suc b) ?r) SP")
      case None
      then have "SP \<notin> set (drop (Suc b) ?r)" by simp
      with None Some a b rd rd' len assms show ?thesis
        by (auto simp: parse_status_line_def scan_chr_def span_def status_fields_def view_def Let_def
            set_status_def status_known_def min_def simp del: memchr_None)
    next
      case (Some c)
      then have "SP \<in> set (drop (Suc b) ?r)" using memchr_None [of "drop (Suc b) ?r" SP] by auto
      with \<open>memchr l SP = Some a\<close> Some a b rd rd' len assms show ?thesis
        by (auto simp: parse_status_line_def scan_chr_def span_def status_fields_def Let_def)
    qed
  qed
qed

section \<open>The parser on lines\<close>

definition parse_result :: "request_t \<Rightarrow> nat \<Rightarrow> bytes \<Rightarrow> bytes list \<Rightarrow> request_t \<times> int" where
  "parse_result req h l0 ls =
     (case status_fields l0 of
        None \<Rightarrow> (req, - 1)
      | Some f \<Rightarrow>
          if \<not> status_known f then (set_status req f, - 1)
          else (let (hs, ok) = headers_of (length l0 + 2) ls;
                    req = (set_status req f)\<lparr>rq_headers := hs\<rparr>
                in if \<not> ok then (req, - 1)
                   else (req\<lparr>rq_body := \<lparr>sv_ptr = h + 4, sv_len = 0\<rparr>\<rparr>, c_int (int (h + 4)))))"

lemma request_parse_incomplete:
  "memmem (rq_raw req) HDR_END = None \<Longrightarrow>
   request_parse req = Some (req, if MAX_HEADER_BYTES \<le> length (rq_raw req) then - 1 else 0)"
  by (simp add: request_parse_def scan_mem_def mem_read_def)

lemma set_status_raw [simp]: "rq_raw (set_status req f) = rq_raw req"
  by (cases f) (simp add: set_status_def)

lemma request_parse_lines:
  assumes h: "memmem (rq_raw req) HDR_END = Some h" and ls: "take (h + 2) (rq_raw req) = unlines (l0 # ls)"
    and ok: "\<forall>l\<in>set (l0 # ls). no_crlf l"
  shows "request_parse req = Some (parse_result req h l0 ls)"
proof -
  let ?raw = "rq_raw req"
  have len: "h + 4 \<le> length ?raw" using memmem_bound [OF h] by simp
  then have rd: "mem_read ?raw 0 (length ?raw) = Some ?raw"
    "mem_read ?raw 0 (Suc (Suc h)) = Some (unlines (l0 # ls))"
    using ls by (simp_all add: mem_read_def)
  have mm: "memmem (unlines (l0 # ls)) CRLF = Some (length l0)"
    using ok by (simp add: memmem_crlf_line)
  have "length (take (h + 2) ?raw) = h + 2" using len by simp
  then have hl: "h + 2 = length l0 + 2 + length (unlines ls)" unfolding ls by simp
  have raw: "?raw = l0 @ CR # LF # unlines ls @ drop (h + 2) ?raw"
    using append_take_drop_id [of "h + 2" ?raw] unfolding ls by (simp add: append_assoc [symmetric])
  note status = parse_status_line_fields [OF raw]
  have "drop (length l0 + 2) ?raw = unlines ls @ drop (h + 2) ?raw" by (subst raw) simp
  then have "seg ?raw (length l0 + 2) (h + 2) = unlines ls" using hl by (simp add: seg_def)
  then have loop: "parse_headers_loop ?raw (length l0 + 2) (h + 2) [] =
      Some (fst (headers_of (length l0 + 2) ls), snd (headers_of (length l0 + 2) ls))"
    using parse_headers_loop_lines [of ?raw "length l0 + 2" "h + 2" ls "[]"] ok hl len by simp
  have sp: "span (Suc (Suc (length l0))) (Suc (Suc h)) = Some (h - length l0)"
    using hl by (simp add: span_def)
  have sum: "Suc (Suc (length l0 + (h - length l0))) = Suc (Suc h)" using hl by simp
  show ?thesis
    using rd h mm status loop sp sum
    by (auto simp: request_parse_def scan_mem_def parse_result_def parse_headers_def Let_def split_def
        split: option.splits)
qed

lemma header_block_lines:
  assumes h: "memmem raw HDR_END = Some h"
  shows "\<exists>l0 ls. take (h + 2) raw = unlines (l0 # ls) \<and> (\<forall>l\<in>set (l0 # ls). no_crlf l)"
proof -
  have "take (length HDR_END) (drop h raw) = HDR_END" using h by (simp add: memmem_Some del: list.size)
  then have "take 4 (drop h raw) = HDR_END" by (simp only: length_HDR_END)
  then have "take 2 (drop h raw) = CRLF" by (rule hdr_end_crlf)
  then have split: "take (h + 2) raw = take h raw @ CRLF" unfolding take_add by simp
  then obtain ls where ls: "take (h + 2) raw = unlines ls" "\<forall>l\<in>set ls. no_crlf l"
    using unlines_exist [of "take (h + 2) raw"] by blast
  with split obtain l0 ls' where "ls = l0 # ls'" by (cases ls) auto
  with ls show ?thesis by blast
qed

section \<open>Printing requests\<close>

definition method_name :: "http_method \<Rightarrow> bytes" where
  "method_name m =
     (case m of
        http_method_get \<Rightarrow> ''GET'' | http_method_head \<Rightarrow> ''HEAD'' | http_method_options \<Rightarrow> ''OPTIONS''
      | http_method_trace \<Rightarrow> ''TRACE'' | http_method_put \<Rightarrow> ''PUT'' | http_method_delete \<Rightarrow> ''DELETE''
      | http_method_post \<Rightarrow> ''POST'' | http_method_patch \<Rightarrow> ''PATCH'' | http_method_connect \<Rightarrow> ''CONNECT''
      | http_method_unknown \<Rightarrow> '''')"

lemma parse_method_name [simp]: "parse_http_method (method_name m) = m"
  by (cases m) (simp_all add: method_name_def parse_http_method_def)

lemma parse_method_known:
  "parse_http_method s \<noteq> http_method_unknown \<Longrightarrow> s = method_name (parse_http_method s)"
  by (auto simp: parse_http_method_def method_name_def split: if_splits)

lemma method_name_chars: "c \<in> set (method_name m) \<Longrightarrow> c \<notin> {SP, CR, LF}"
  by (cases m) (auto simp: method_name_def)

lemma method_name_nonempty [simp]: "method_name m = [] \<longleftrightarrow> m = http_method_unknown"
  by (cases m) (simp_all add: method_name_def)

lemma parse_version_known: "parse_http_version v \<noteq> http_version_unknown \<longleftrightarrow> v = ''HTTP/1.1''"
  by (simp add: parse_http_version_def)

definition request_line :: "http_method \<Rightarrow> bytes \<Rightarrow> bytes" where
  "request_line m u = method_name m @ SP # u @ SP # ''HTTP/1.1''"

text \<open>The bytes of a request, given its method, target and header fields.\<close>

definition print_request :: "http_method \<Rightarrow> bytes \<Rightarrow> (bytes \<times> bytes \<times> bytes \<times> bytes) list \<Rightarrow> bytes"
where
  "print_request m u fs = unlines (request_line m u # map print_line fs) @ CRLF"

definition wf_request :: "http_method \<Rightarrow> bytes \<Rightarrow> (bytes \<times> bytes \<times> bytes \<times> bytes) list \<Rightarrow> bool" where
  "wf_request m u fs \<longleftrightarrow> m \<noteq> http_method_unknown \<and> u \<noteq> [] \<and> SP \<notin> set u \<and>
     no_crlf (request_line m u) \<and> (\<forall>f\<in>set fs. fields_ok f \<and> no_crlf (print_line f))"

text \<open>What a parsed request shows of the bytes it was parsed from.\<close>

definition header_shows :: "bytes \<Rightarrow> header_sv \<Rightarrow> bytes \<times> bytes \<times> bytes \<times> bytes \<Rightarrow> bool" where
  "header_shows raw h f = (case f of (n, l, v, r) \<Rightarrow>
     view raw (h_name h) = Some n \<and> view raw (h_value h) = Some v)"

definition request_shows ::
  "request_t \<Rightarrow> http_method \<Rightarrow> bytes \<Rightarrow> (bytes \<times> bytes \<times> bytes \<times> bytes) list \<Rightarrow> bool" where
  "request_shows req m u fs \<longleftrightarrow>
     rq_method req = m \<and> rq_version req = http_version_1p1 \<and> view (rq_raw req) (rq_URI req) = Some u \<and>
     list_all2 (header_shows (rq_raw req)) (rq_headers req) fs \<and>
     rq_body req = \<lparr>sv_ptr = length (print_request m u fs), sv_len = 0\<rparr>"

lemma view_at:
  "raw = a @ s @ b \<Longrightarrow> view raw \<lparr>sv_ptr = length a, sv_len = length s\<rparr> = Some s"
  by (simp add: view_def mem_read_def)

lemma header_at_shows:
  assumes "raw = pre @ print_line f @ t"
  shows "header_shows raw (header_at (length pre) f) f"
proof -
  obtain n l v r where f: "f = (n, l, v, r)" by (cases f)
  have "raw = pre @ n @ (CHR '':'' # l @ v @ r @ t)" "raw = (pre @ n @ CHR '':'' # l) @ v @ r @ t"
    using assms by (simp_all add: f print_line_def)
  from this(1) [THEN view_at] this(2) [THEN view_at] show ?thesis
    by (simp add: f header_at_def header_shows_def add.assoc)
qed

lemma headers_of_shows:
  "raw = pre @ unlines ls @ t \<Longrightarrow> headers_of (length pre) ls = (hs, True) \<Longrightarrow>
   \<exists>fs. ls = map print_line fs \<and> (\<forall>f\<in>set fs. fields_ok f) \<and> list_all2 (header_shows raw) hs fs"
proof (induction ls arbitrary: pre hs)
  case (Cons l ls)
  from Cons.prems(2) obtain f hs' where f: "line_fields l = Some f"
    and hs: "headers_of (length pre + length l + 2) ls = (hs', True)" "hs = header_at (length pre) f # hs'"
    by (auto split: option.splits prod.splits)
  have l: "l = print_line f" "fields_ok f" using line_fields_Some [OF f] by simp_all
  have "header_shows raw (header_at (length pre) f) f"
    using header_at_shows [of raw pre f] Cons.prems(1) l by simp
  moreover have "raw = (pre @ l @ CRLF) @ unlines ls @ t" using Cons.prems(1) by simp
  from Cons.IH [OF this] hs(1) obtain fs where "ls = map print_line fs" "\<forall>f\<in>set fs. fields_ok f"
    "list_all2 (header_shows raw) hs' fs" by (auto simp: add.assoc)
  ultimately show ?case using l hs(2) by (intro exI [of _ "f # fs"]) simp
qed simp

lemma headers_of_ok: "\<forall>f\<in>set fs. fields_ok f \<Longrightarrow> snd (headers_of p (map print_line fs))"
  by (induction fs arbitrary: p) (auto simp: line_fields_print split_def Let_def)

section \<open>Properties\<close>

lemma request_line_fields:
  "wf_request m u fs \<Longrightarrow> status_fields (request_line m u) = Some (method_name m, u, ''HTTP/1.1'')"
  using method_name_chars [of _ m] by (auto simp: status_fields_iff request_line_def wf_request_def)

lemma length_print_request:
  "length (print_request m u fs) = length (unlines (request_line m u # map print_line fs)) + 2"
  by (simp add: print_request_def)

lemma view_uri:
  "view (request_line m u @ t) \<lparr>sv_ptr = length (method_name m) + 1, sv_len = length u\<rparr> = Some u"
proof -
  have "request_line m u @ t = (method_name m @ [SP]) @ u @ (SP # ''HTTP/1.1'' @ t)"
    by (simp add: request_line_def)
  from view_at [OF this] show ?thesis by simp
qed

text \<open>A parse that succeeds at the end \<open>h\<close> of the header block, and what it then returns.\<close>

lemma parse_result_shows:
  assumes raw: "rq_raw req = print_request m u fs @ t" and wf: "wf_request m u fs"
    and h: "h + 4 = length (print_request m u fs)"
  shows "\<exists>req'. parse_result req h (request_line m u) (map print_line fs) = (req', c_int (int (h + 4))) \<and>
    request_shows req' m u fs \<and> rq_raw req' = rq_raw req"
proof -
  let ?l0 = "request_line m u"
  obtain hs where hs: "headers_of (length ?l0 + 2) (map print_line fs) = (hs, True)"
    using headers_of_ok [of fs "length ?l0 + 2"] wf by (cases "headers_of (length ?l0 + 2) (map print_line fs)")
      (auto simp: wf_request_def)
  have "rq_raw req = (?l0 @ CRLF) @ unlines (map print_line fs) @ CRLF @ t"
    by (simp add: raw print_request_def)
  from headers_of_shows [OF this] hs obtain fs' where fs': "map print_line fs = map print_line fs'"
    "\<forall>f\<in>set fs'. fields_ok f" "list_all2 (header_shows (rq_raw req)) hs fs'" by auto
  from fs'(1) have "map (line_fields \<circ> print_line) fs = map (line_fields \<circ> print_line) fs'"
    by (metis map_map)
  moreover have "\<forall>f\<in>set fs. line_fields (print_line f) = Some f" "\<forall>f\<in>set fs'. line_fields (print_line f) = Some f"
    using wf fs'(2) by (simp_all add: wf_request_def line_fields_print)
  ultimately have "map Some fs = map Some fs'" by (simp add: comp_def cong: map_cong)
  then have "fs' = fs" by (simp add: inj_map_eq_map)
  moreover have "view (rq_raw req) \<lparr>sv_ptr = length (method_name m) + 1, sv_len = length u\<rparr> = Some u"
    using view_uri [of m u] by (simp add: raw print_request_def)
  moreover have "status_known (method_name m, u, ''HTTP/1.1'')"
    using wf by (simp add: status_known_def wf_request_def parse_version_known)
  ultimately show ?thesis
    using request_line_fields [OF wf] hs fs'(3) h wf
    by (simp add: parse_result_def request_shows_def set_status_def parse_http_version_def wf_request_def)
qed

lemma request_parse_whole:
  assumes wf: "wf_request m u fs" and raw: "rq_raw req = print_request m u fs @ rest"
    and small: "length (print_request m u fs) < 2 ^ 31"
  shows "\<exists>req'. request_parse req = Some (req', int (length (print_request m u fs))) \<and>
    request_shows req' m u fs \<and> rq_raw req' = rq_raw req"
proof -
  let ?ls = "request_line m u # map print_line fs"
  define h where "h = length (unlines ?ls) - 2"
  have h4: "h + 4 = length (print_request m u fs)" and h2: "h + 2 = length (unlines ?ls)"
    by (simp_all add: h_def length_print_request)
  have ok: "\<forall>l\<in>set ?ls. no_crlf l" "\<forall>l\<in>set (map print_line fs). l \<noteq> []"
    using wf by (auto simp: wf_request_def print_line_def split: prod.splits)
  have "memmem (rq_raw req) HDR_END = Some h"
    using memmem_hdr_end_lines [OF ok, of rest] by (simp add: raw print_request_def h_def)
  moreover have "take (h + 2) (rq_raw req) = unlines ?ls"
    unfolding h2 by (simp add: raw print_request_def)
  ultimately have "request_parse req = Some (parse_result req h (request_line m u) (map print_line fs))"
    using ok(1) by (rule request_parse_lines)
  moreover have "c_int (int (h + 4)) = int (length (print_request m u fs))"
    using small unfolding h4 by simp
  ultimately show ?thesis using parse_result_shows [OF raw wf h4] by auto
qed

text \<open>
  C4. Completeness, a print/parse round trip: every well-formed request, followed by
  anything, is accepted; the parser consumes exactly its bytes and its views show the method,
  the target, and every header's name and value stripped of the white space around it.
\<close>

theorem request_parse_complete:
  assumes wf: "wf_request m u fs" and raw: "rq_raw req = print_request m u fs @ rest"
    and small: "length (print_request m u fs) < 2 ^ 31"
  shows "\<exists>req'. request_parse req = Some (req', int (length (print_request m u fs))) \<and>
    request_shows req' m u fs \<and> rq_raw req' = rq_raw req"
  using assms by (rule request_parse_whole)

abbreviation req0 :: "bytes \<Rightarrow> request_t" where
  "req0 raw \<equiv> \<lparr>rq_raw = raw, rq_method = http_method_get, rq_URI = \<lparr>sv_ptr = 0, sv_len = 0\<rparr>,
     rq_version = http_version_1p1, rq_headers = [], rq_body = \<lparr>sv_ptr = 0, sv_len = 0\<rparr>\<rparr>"

abbreviation example_fields :: "(bytes \<times> bytes \<times> bytes \<times> bytes) list" where
  "example_fields \<equiv> [(''Host'', '' '', ''x'', ''''), (''Accept'', '''', ''*/*'', [HT])]"

lemma example_wf: "wf_request http_method_put ''/a'' example_fields"
  by (simp add: wf_request_def request_line_def method_name_def fields_ok_def print_line_def is_ows_def)

theorem request_parse_complete_witness:
  "\<exists>req'. request_parse (req0 (print_request http_method_put ''/a'' example_fields @ ''GET'')) =
      Some (req', 41) \<and> request_shows req' http_method_put ''/a'' example_fields"
proof -
  have "length (print_request http_method_put ''/a'' example_fields) = 41"
    by (simp add: print_request_def request_line_def method_name_def print_line_def)
  with request_parse_complete [OF example_wf, of "req0 _" "''GET''"] show ?thesis by auto
qed

text \<open>What an accepting parse has read.\<close>

lemma request_parse_accepts:
  assumes parse: "request_parse req = Some (req', n)" and "0 < n" and small: "length (rq_raw req) < 2 ^ 31"
  shows "\<exists>m u fs. wf_request m u fs \<and> request_shows req' m u fs \<and>
    take (nat n) (rq_raw req) = print_request m u fs \<and> nat n \<le> length (rq_raw req)"
proof -
  let ?raw = "rq_raw req"
  obtain h where h: "memmem ?raw HDR_END = Some h"
    using parse \<open>0 < n\<close> request_parse_incomplete [of req] by (cases "memmem ?raw HDR_END") (auto split: if_splits)
  obtain l0 ls where ls: "take (h + 2) ?raw = unlines (l0 # ls)" "\<forall>l\<in>set (l0 # ls). no_crlf l"
    using header_block_lines [OF h] by blast
  have len: "h + 4 \<le> length ?raw" using memmem_bound [OF h] by simp
  have res: "parse_result req h l0 ls = (req', n)" using request_parse_lines [OF h ls] parse by simp
  obtain m u v where f: "status_fields l0 = Some (m, u, v)" "status_known (m, u, v)"
    using res \<open>0 < n\<close> by (auto simp: parse_result_def split: option.splits if_splits)
  obtain hs where hs: "headers_of (length (l0 @ CRLF)) ls = (hs, True)" and n: "n = c_int (int (h + 4))"
    using res \<open>0 < n\<close> f by (auto simp: parse_result_def Let_def split: prod.splits if_splits)
  have "?raw = (l0 @ CRLF) @ unlines ls @ drop (h + 2) ?raw"
    using append_take_drop_id [of "h + 2" ?raw] unfolding ls(1) by simp
  from headers_of_shows [OF this hs] obtain fs where fs: "ls = map print_line fs" "\<forall>f\<in>set fs. fields_ok f"
    by blast
  let ?m = "parse_http_method m"
  have l0: "l0 = request_line ?m u" and wf: "wf_request ?m u fs"
    using f fs ls(2) parse_method_known [of m] parse_version_known [of v]
    by (auto simp: status_fields_iff status_known_def request_line_def wf_request_def)
  have "take (length HDR_END) (drop h ?raw) = HDR_END" using h by (simp add: memmem_Some del: list.size)
  then have "take (h + 2 + 2) ?raw = take (h + 2) ?raw @ CRLF"
    unfolding length_HDR_END take_add [of "h + 2" 2] by (auto dest: arg_cong [of _ _ "drop 2"] simp: drop_take)
  moreover have "h + 2 + 2 = h + 4" by simp
  ultimately have "take (h + 4) ?raw = take (h + 2) ?raw @ CRLF" by (simp only:)
  then have pr: "take (h + 4) ?raw = print_request ?m u fs"
    unfolding ls(1) by (simp add: print_request_def l0 fs(1))
  then have "?raw = print_request ?m u fs @ drop (h + 4) ?raw" by (metis append_take_drop_id)
  moreover have "h + 4 = length (print_request ?m u fs)" using pr len by (metis length_take min.absorb2)
  ultimately obtain req'' where "parse_result req h l0 ls = (req'', n)" "request_shows req'' ?m u fs"
    using parse_result_shows [OF _ wf] n l0 fs(1) by metis
  then have "request_shows req' ?m u fs" using res by simp
  moreover have "nat n = h + 4" using n len small by simp
  ultimately show ?thesis using wf pr len by auto
qed

text \<open>
  C5. Soundness: when the parser accepts, the bytes it consumed are the print of a
  well-formed request, and the parsed fields are views of exactly its parts.
\<close>

theorem request_parse_sound:
  assumes parse: "request_parse req = Some (req', n)" and "0 < n" and small: "length (rq_raw req) < 2 ^ 31"
  shows "\<exists>m u fs. wf_request m u fs \<and> request_shows req' m u fs \<and>
    take (nat n) (rq_raw req) = print_request m u fs \<and> nat n \<le> length (rq_raw req)"
  using assms by (rule request_parse_accepts)

theorem request_parse_sound_witness:
  "\<exists>m u fs. wf_request m u fs \<and>
     take 41 (print_request http_method_put ''/a'' example_fields @ ''GET'') = print_request m u fs"
proof -
  let ?raw = "print_request http_method_put ''/a'' example_fields @ ''GET''"
  have len: "length (print_request http_method_put ''/a'' example_fields) = 41"
    by (simp add: print_request_def request_line_def method_name_def print_line_def)
  have "map_option snd (request_parse (req0 ?raw)) = Some 41" by code_simp
  from map_snd_SomeD [OF this] obtain req' where "request_parse (req0 ?raw) = Some (req', 41)" ..
  from request_parse_sound [OF this] len show ?thesis by auto
qed

text \<open>The number a parse returns, for every content of the buffer.\<close>

lemma request_parse_returns:
  assumes small: "length (rq_raw req) < 2 ^ 31"
  shows "\<exists>req'. request_parse req = Some (req',
    (case memmem (rq_raw req) HDR_END of
       None \<Rightarrow> if length (rq_raw req) < MAX_HEADER_BYTES then 0 else - 1
     | Some h \<Rightarrow> if \<exists>m u fs. wf_request m u fs \<and> take (h + 4) (rq_raw req) = print_request m u fs
         then int (h + 4) else - 1))"
proof (cases "memmem (rq_raw req) HDR_END")
  case None
  then show ?thesis using request_parse_incomplete [of req] by simp
next
  case (Some h)
  let ?raw = "rq_raw req"
  have len: "h + 4 \<le> length ?raw" using memmem_bound [OF Some] by simp
  obtain l0 ls where "take (h + 2) ?raw = unlines (l0 # ls)" "\<forall>l\<in>set (l0 # ls). no_crlf l"
    using header_block_lines [OF Some] by blast
  from request_parse_lines [OF Some this] have parse: "request_parse req = Some (parse_result req h l0 ls)" .
  have n: "snd (parse_result req h l0 ls) \<in> {- 1, int (h + 4)}"
    using len small by (auto simp: parse_result_def split_def Let_def split: option.splits)
  show ?thesis
  proof (cases "\<exists>m u fs. wf_request m u fs \<and> take (h + 4) ?raw = print_request m u fs")
    case True
    then obtain m u fs where wf: "wf_request m u fs" and pr: "take (h + 4) ?raw = print_request m u fs" by blast
    have "?raw = print_request m u fs @ drop (h + 4) ?raw" unfolding pr [symmetric] by simp
    moreover have l: "length (print_request m u fs) = h + 4" using len unfolding pr [symmetric] by simp
    ultimately show ?thesis using request_parse_whole [OF wf, of req] len small Some True by auto
  next
    case False
    have "snd (parse_result req h l0 ls) \<noteq> int (h + 4)"
    proof
      assume eq: "snd (parse_result req h l0 ls) = int (h + 4)"
      then have "request_parse req = Some (fst (parse_result req h l0 ls), int (h + 4))"
        using parse by (metis prod.collapse)
      from request_parse_accepts [OF this _ small] obtain m u fs where
        "wf_request m u fs" "take (nat (int (h + 4))) ?raw = print_request m u fs" by auto
      with False show False by (auto simp only: nat_int)
    qed
    with n have "snd (parse_result req h l0 ls) = - 1" by auto
    with parse Some False show ?thesis by (cases "parse_result req h l0 ls") simp
  qed
qed

text \<open>
  C29. For every received byte string, whatever it holds, the parser returns, never reading
  outside the buffer, and its result is exact: while the empty line that ends the header block
  is missing it is 0 (wait for more) below \<open>MAX_HEADER_BYTES\<close> bytes and -1 from there on; once
  it has arrived the result is the number of bytes up to and including it if those bytes are
  the print of a well-formed request, and -1 if they are not.
\<close>

theorem request_parse_total:
  assumes "length (rq_raw req) < 2 ^ 31"
  shows "\<exists>req'. request_parse req = Some (req',
    (case memmem (rq_raw req) HDR_END of
       None \<Rightarrow> if length (rq_raw req) < MAX_HEADER_BYTES then 0 else - 1
     | Some h \<Rightarrow> if \<exists>m u fs. wf_request m u fs \<and> take (h + 4) (rq_raw req) = print_request m u fs
         then int (h + 4) else - 1))"
  using assms by (rule request_parse_returns)

theorem request_parse_total_witness:
  "(\<exists>req'. request_parse (req0 [CR, LF, CR]) = Some (req', 0)) \<and>
   (\<exists>req'. request_parse (req0 (print_request http_method_put ''/a'' example_fields @ ''GET'')) = Some (req', 41))"
proof -
  let ?p = "print_request http_method_put ''/a'' example_fields"
  have m: "memmem [CR, LF, CR] HDR_END = None" by code_simp
  have "memmem (?p @ ''GET'') HDR_END = Some 37" "length ?p = 41" by code_simp+
  then have r: "memmem (?p @ ''GET'') HDR_END = Some 37" "take (37 + 4) (?p @ ''GET'') = ?p" "length (?p @ ''GET'') < 2 ^ 31"
    by simp_all
  have "\<exists>m u fs. wf_request m u fs \<and> ?p = print_request m u fs" using example_wf by blast
  with request_parse_total [of "req0 [CR, LF, CR]"] request_parse_total [of "req0 (?p @ ''GET'')"] r m
  show ?thesis by (simp add: MAX_HEADER_BYTES_def del: append.simps)
qed

text \<open>
  C28. The parse does not depend on how the bytes arrive: once a request has been accepted,
  more bytes behind it change neither the number of bytes consumed nor any parsed field, so
  pipelined data cannot alter the request before it.
\<close>

theorem request_parse_prefix_stable:
  assumes "request_parse req = Some (req', n)" and "0 < n"
  shows "request_parse (req\<lparr>rq_raw := rq_raw req @ extra\<rparr>) =
    Some (req'\<lparr>rq_raw := rq_raw req @ extra\<rparr>, n)"
proof -
  let ?raw = "rq_raw req" and ?req = "req\<lparr>rq_raw := rq_raw req @ extra\<rparr>"
  obtain h where h: "memmem ?raw HDR_END = Some h"
    using assms request_parse_incomplete [of req]
    by (cases "memmem ?raw HDR_END") (auto split: if_splits)
  obtain l0 ls where ls: "take (h + 2) ?raw = unlines (l0 # ls)" "\<forall>l\<in>set (l0 # ls). no_crlf l"
    using header_block_lines [OF h] by blast
  have "memmem (rq_raw ?req) HDR_END = Some h" using memmem_append_left [OF h, of extra] by simp
  moreover have "take (h + 2) (rq_raw ?req) = unlines (l0 # ls)"
    using ls(1) memmem_bound [OF h] by simp
  ultimately have "request_parse ?req = Some (parse_result ?req h l0 ls)" using ls(2) by (rule request_parse_lines)
  moreover have "request_parse req = Some (parse_result req h l0 ls)" by (rule request_parse_lines [OF h ls])
  moreover have "parse_result ?req h l0 ls =
      map_prod (\<lambda>r. r\<lparr>rq_raw := rq_raw req @ extra\<rparr>) id (parse_result req h l0 ls)"
    by (auto simp: parse_result_def set_status_def split_def Let_def split: option.split)
  ultimately show ?thesis using assms(1) by (cases "parse_result req h l0 ls") simp
qed

theorem request_parse_prefix_stable_witness:
  "\<exists>req'. request_parse (req0 (''GET / HTTP/1.1'' @ HDR_END @ ''GET /b'')) = Some (req', 18)"
proof -
  let ?raw = "''GET / HTTP/1.1'' @ HDR_END"
  have "map_option snd (request_parse (req0 ?raw)) = Some 18" by code_simp
  from map_snd_SomeD [OF this] obtain req' where "request_parse (req0 ?raw) = Some (req', 18)" ..
  from request_parse_prefix_stable [OF this, of "''GET /b''"] show ?thesis by auto
qed

text \<open>Looking up a header's value among the fields of a parsed request.\<close>

definition lookup_field :: "(bytes \<times> bytes \<times> bytes \<times> bytes) list \<Rightarrow> bytes \<Rightarrow> bytes option" where
  "lookup_field fs name =
     map_option (\<lambda>(n, l, v, r). v) (find (\<lambda>(n, l, v, r). map c_tolower n = map c_tolower name) fs)"

text \<open>
  \<open>request_get_header_value\<close> on a parsed request returns a view of the value of the first
  header whose name equals the asked one up to ASCII case, and the null view exactly when no
  header has that name; it never reads outside the buffer.
\<close>

theorem request_get_header_value_spec:
  assumes "request_shows req m u fs" and "NUL \<notin> set name" and "\<forall>(n, l, v, r)\<in>set fs. NUL \<notin> set n"
  shows "\<exists>res. request_get_header_value req name = Some res \<and>
    (case lookup_field fs name of None \<Rightarrow> res = None
     | Some v \<Rightarrow> \<exists>w. res = Some w \<and> view (rq_raw req) w = Some v)"
proof -
  have "list_all2 (header_shows (rq_raw req)) (rq_headers req) fs" using assms(1) by (simp add: request_shows_def)
  then have "\<exists>res. get_header_loop (rq_raw req) (rq_headers req) name = Some res \<and>
    (case lookup_field fs name of None \<Rightarrow> res = None
     | Some v \<Rightarrow> \<exists>w. res = Some w \<and> view (rq_raw req) w = Some v)"
    using assms(3)
  proof (induction rule: list_all2_induct)
    case Nil
    then show ?case by (simp add: lookup_field_def)
  next
    case (Cons h hs f fs)
    obtain n l v r where f: "f = (n, l, v, r)" by (cases f)
    with Cons show ?case
      by (auto simp: lookup_field_def header_shows_def sv_eq_ci_iff split: option.splits)
  qed
  with assms(2) show ?thesis by (simp add: request_get_header_value_def c_str_no_NUL)
qed

theorem request_get_header_value_spec_witness:
  "\<exists>req' w. request_parse (req0 (print_request http_method_put ''/a'' example_fields)) = Some (req', 41) \<and>
     request_get_header_value req' ''ACCEPT'' = Some (Some w) \<and> view (rq_raw req') w = Some ''*/*''"
proof -
  let ?raw = "print_request http_method_put ''/a'' example_fields"
  have len: "length ?raw = 41"
    by (simp add: print_request_def request_line_def method_name_def print_line_def)
  then have p: "take 41 (?raw @ []) = ?raw" by simp
  have raw: "?raw = ?raw @ []" by simp
  have "memmem ?raw HDR_END = Some 37" by code_simp
  moreover have "take (37 + 2) ?raw = unlines (request_line http_method_put ''/a'' # map print_line example_fields)"
    by code_simp
  moreover have "\<forall>l\<in>set (request_line http_method_put ''/a'' # map print_line example_fields). no_crlf l"
    using example_wf by (auto simp: wf_request_def)
  ultimately have parse: "request_parse (req0 ?raw) =
      Some (parse_result (req0 ?raw) 37 (request_line http_method_put ''/a'') (map print_line example_fields))"
    using request_parse_lines [of "req0 ?raw"] by simp
  obtain req' where "parse_result (req0 ?raw) 37 (request_line http_method_put ''/a'')
      (map print_line example_fields) = (req', 41)" and r: "request_shows req' http_method_put ''/a'' example_fields"
    using parse_result_shows [OF _ example_wf, of "req0 ?raw" "[]" 37] len by auto
  moreover have "lookup_field example_fields ''ACCEPT'' = Some ''*/*''" by code_simp
  with request_get_header_value_spec [OF r, of "''ACCEPT''"]
  have "\<exists>w. request_get_header_value req' ''ACCEPT'' = Some (Some w) \<and> view (rq_raw req') w = Some ''*/*''"
    by auto
  ultimately show ?thesis using parse by auto
qed

end
