(* ===== verification/Response.thy ===== *)
theory Response
  imports Http Lines
begin

text \<open>
  Responses and their serialisation, \<open>network/http/response.c\<close>.  The strings are sds
  strings, so \<open>%s\<close> prints them up to their first NUL byte, while \<open>sdscatsds\<close> appends the body
  with its length.
\<close>

section \<open>Data and operations\<close>

record response_t =
  rs_version :: http_version
  rs_status_code :: int
  rs_reason_phrase :: "bytes option"
  rs_headers :: "header_sds list"
  rs_body :: "bytes option"

definition response_create :: response_t where
  "response_create = \<lparr>rs_version = http_version_1p1, rs_status_code = 0, rs_reason_phrase = None,
     rs_headers = [], rs_body = None\<rparr>"

definition response_add_header :: "response_t \<Rightarrow> header_sds \<Rightarrow> response_t" where
  "response_add_header res h = res\<lparr>rs_headers := rs_headers res @ [h]\<rparr>"

text \<open>The strings that \<open>response_destroy\<close> frees.\<close>

definition response_destroy :: "response_t \<Rightarrow> bytes list" where
  "response_destroy res =
     concat (map (\<lambda>h. [hs_name h, hs_value h]) (rs_headers res)) @
     (case rs_body res of None \<Rightarrow> [] | Some b \<Rightarrow> [b])"

definition serialize_http_version :: "http_version \<Rightarrow> bytes option" where
  "serialize_http_version version =
     (case version of http_version_1p1 \<Rightarrow> Some ''HTTP/1.1'' | http_version_unknown \<Rightarrow> None)"

definition serialize_header :: "header_sds \<Rightarrow> bytes" where
  "serialize_header h = c_str (hs_name h) @ '': '' @ c_str (hs_value h) @ CRLF"

text \<open>The serialised bytes; printing a null reason phrase is undefined, hence a fault.\<close>

definition response_serialize :: "response_t \<Rightarrow> bytes option" where
  "response_serialize res =
     (case serialize_http_version (rs_version res) of
        None \<Rightarrow> Some []
      | Some version \<Rightarrow> do {
          reason \<leftarrow> rs_reason_phrase res;
          let raw_res = version @ '' '' @ decimal (rs_status_code res) @ '' '' @ c_str reason @ CRLF;
          let raw_res = raw_res @ concat (map serialize_header (rs_headers res));
          let raw_res = raw_res @ CRLF;
          Some (case rs_body res of None \<Rightarrow> raw_res | Some body \<Rightarrow> raw_res @ body)
        })"

section \<open>Properties\<close>

text \<open>A string that stays on its line: no CR, LF or NUL.\<close>

definition line_safe :: "bytes \<Rightarrow> bool" where
  "line_safe s \<longleftrightarrow> CR \<notin> set s \<and> LF \<notin> set s \<and> NUL \<notin> set s"

definition response_safe :: "response_t \<Rightarrow> bool" where
  "response_safe res \<longleftrightarrow> rs_version res = http_version_1p1 \<and>
     (\<exists>r. rs_reason_phrase res = Some r \<and> line_safe r) \<and>
     (\<forall>h\<in>set (rs_headers res). line_safe (hs_name h) \<and> line_safe (hs_value h))"

definition status_line :: "response_t \<Rightarrow> bytes" where
  "status_line res = ''HTTP/1.1 '' @ decimal (rs_status_code res) @ '' '' @ the (rs_reason_phrase res)"

definition header_line :: "header_sds \<Rightarrow> bytes" where
  "header_line h = hs_name h @ '': '' @ hs_value h"

lemma no_crlf_safe: "CR \<notin> set s \<Longrightarrow> no_crlf s"
  by (induction s rule: no_crlf.induct) auto

lemma line_safe_c_str [simp]: "line_safe s \<Longrightarrow> c_str s = s"
  by (simp add: line_safe_def c_str_no_NUL)

lemma serialize_lines:
  assumes "response_safe res"
  shows "response_serialize res =
    Some (unlines (status_line res # map header_line (rs_headers res)) @ CRLF @
      (case rs_body res of None \<Rightarrow> [] | Some b \<Rightarrow> b))"
proof -
  obtain r where r: "rs_reason_phrase res = Some r" "line_safe r" using assms by (auto simp: response_safe_def)
  have "map serialize_header (rs_headers res) = map (\<lambda>h. header_line h @ CRLF) (rs_headers res)"
    using assms by (auto simp: response_safe_def serialize_header_def header_line_def)
  then have "concat (map serialize_header (rs_headers res)) = unlines (map header_line (rs_headers res))"
    by (simp add: unlines_def comp_def cong: map_cong)
  with r assms show ?thesis
    by (simp add: response_serialize_def serialize_http_version_def response_safe_def status_line_def
        split: option.split)
qed

lemma response_lines_ok:
  assumes "response_safe res"
  shows "\<forall>l\<in>set (status_line res # map header_line (rs_headers res)). no_crlf l"
    and "\<forall>l\<in>set (map header_line (rs_headers res)). l \<noteq> []"
  using assms decimal_chars
  by (auto simp: response_safe_def line_safe_def status_line_def header_line_def intro!: no_crlf_safe)

text \<open>
  A response whose reason phrase and headers hold no CR, LF or NUL is framed correctly: its
  serialisation splits at the first empty line into exactly the status line and the header
  lines, in order, and behind it the body byte for byte, whatever the body holds.
\<close>

theorem response_framing:
  assumes "response_safe res" and "response_serialize res = Some out"
  shows "\<exists>h. memmem out HDR_END = Some h \<and>
    take (h + 2) out = unlines (status_line res # map header_line (rs_headers res)) \<and>
    drop (h + 4) out = (case rs_body res of None \<Rightarrow> [] | Some b \<Rightarrow> b)"
proof -
  let ?ls = "status_line res # map header_line (rs_headers res)"
  let ?body = "case rs_body res of None \<Rightarrow> [] | Some b \<Rightarrow> b"
  have out: "out = unlines ?ls @ CR # LF # ?body" using serialize_lines [OF assms(1)] assms(2) by simp
  define h where "h = length (unlines ?ls) - 2"
  have h2: "h + 2 = length (unlines ?ls)" "h + 4 = length (unlines ?ls @ CRLF)" by (simp_all add: h_def)
  have "memmem out HDR_END = Some h"
    using memmem_hdr_end_lines [OF response_lines_ok [OF assms(1)], of ?body] by (simp add: out h_def)
  moreover have "take (h + 2) out = unlines ?ls" unfolding h2 by (simp add: out)
  moreover have "out = (unlines ?ls @ CRLF) @ ?body" by (simp add: out)
  then have "drop (h + 4) out = ?body" unfolding h2 by (metis append_eq_conv_conj)
  ultimately show ?thesis by blast
qed

abbreviation example_response :: response_t where
  "example_response \<equiv> \<lparr>rs_version = http_version_1p1, rs_status_code = 404, rs_reason_phrase = Some ''Not Found'',
     rs_headers = [\<lparr>hs_name = ''Content-Length'', hs_value = ''3''\<rparr>], rs_body = Some [CR, NUL, LF]\<rparr>"

theorem response_framing_witness:
  "\<exists>out h. response_serialize example_response = Some out \<and> memmem out HDR_END = Some h \<and>
     drop (h + 4) out = [CR, NUL, LF]"
proof -
  have safe: "response_safe example_response" by (simp add: response_safe_def line_safe_def)
  from response_framing [OF safe] serialize_lines [OF safe] show ?thesis by auto
qed

end
