(* ===== verification/SdsText.thy ===== *)
theory SdsText
  imports Sv
begin

text \<open>
  Comparing, splitting and joining sds strings (\<open>core/vendor/sds.c\<close>), on the bytes the strings
  hold; how those bytes are stored is the subject of the theory \<open>Sds\<close>.  Allocation succeeds
  here, as the rest of the server takes for granted.
\<close>

section \<open>Operations\<close>

definition sdscmp :: "bytes \<Rightarrow> bytes \<Rightarrow> int" where
  "sdscmp s1 s2 =
     (let l1 = length s1; l2 = length s2; minlen = (if l1 < l2 then l1 else l2);
          cmp = memcmp (take minlen s1) (take minlen s2)
      in if cmp = 0 then (if l1 > l2 then 1 else if l1 < l2 then - 1 else 0) else cmp)"

text \<open>
  The loop of \<open>sdssplitlen\<close>: \<open>slots\<close> is the capacity of the token array, and storing a token
  outside it is a fault.  \<open>j < len - (seplen - 1)\<close> is \<open>j + seplen \<le> len\<close>.
\<close>

function split_loop :: "bytes \<Rightarrow> bytes \<Rightarrow> nat \<Rightarrow> nat \<Rightarrow> nat \<Rightarrow> bytes list \<Rightarrow> bytes list option" where
  "split_loop s sep slots start j tokens =
     (if sep \<noteq> [] \<and> j + length sep \<le> length s then
        (let slots = (if slots < length tokens + 2 then slots * 2 else slots)
         in if take (length sep) (drop j s) = sep then do {
              guard (length tokens < slots);
              split_loop s sep slots (j + length sep) (j + length sep)
                (tokens @ [take (j - start) (drop start s)])
            }
            else split_loop s sep slots start (j + 1) tokens)
      else do {
        guard (length tokens < slots);
        Some (tokens @ [drop start s])
      })"
  by pat_completeness auto
termination
proof (relation "measure (\<lambda>(s, sep, slots, start, j, tokens). length s - j)")
qed (auto intro!: diff_less_mono2 simp: Suc_le_eq [symmetric] intro: le_trans
    simp flip: length_greater_0_conv)

declare split_loop.simps [simp del]

text \<open>The tokens; their number is the \<open>count\<close> the caller gets, 0 with the null result.\<close>

definition sdssplitlen :: "bytes \<Rightarrow> bytes \<Rightarrow> bytes list option" where
  "sdssplitlen s sep = (if sep = [] \<or> s = [] then Some [] else split_loop s sep 5 0 0 [])"

fun join_loop :: "bytes \<Rightarrow> bytes \<Rightarrow> bytes list \<Rightarrow> bytes" where
  "join_loop acc sep [] = acc"
| "join_loop acc sep (t # ts) = join_loop (if ts \<noteq> [] then (acc @ t) @ sep else acc @ t) sep ts"

definition sdsjoinsds :: "bytes list \<Rightarrow> bytes \<Rightarrow> bytes" where
  "sdsjoinsds argv sep = join_loop [] sep argv"

text \<open>\<open>sdsjoin\<close> appends C strings: each ends at its first NUL.\<close>

definition sdsjoin :: "bytes list \<Rightarrow> bytes \<Rightarrow> bytes" where
  "sdsjoin argv sep = join_loop [] (c_str sep) (map c_str argv)"

section \<open>Comparison\<close>

lemma sdscmp_strcmp: "sdscmp a b = c_strcmp a b"
  by (simp add: sdscmp_def c_strcmp_def Let_def)

lemma sdscmp_eq_0 [simp]: "sdscmp a b = 0 \<longleftrightarrow> a = b"
  by (simp add: sdscmp_strcmp)

section \<open>Joining\<close>

fun join_with :: "bytes \<Rightarrow> bytes list \<Rightarrow> bytes" where
  "join_with sep [] = []"
| "join_with sep [t] = t"
| "join_with sep (t # ts) = t @ sep @ join_with sep ts"

lemma join_with_Cons: "ts \<noteq> [] \<Longrightarrow> join_with sep (t # ts) = t @ sep @ join_with sep ts"
  by (cases ts) simp_all

lemma join_loop_with: "join_loop acc sep ts = acc @ join_with sep ts"
  by (induction acc sep ts rule: join_loop.induct) (simp_all add: join_with_Cons)

lemma sdsjoinsds_with: "sdsjoinsds ts sep = join_with sep ts"
  by (simp add: sdsjoinsds_def join_loop_with)

section \<open>Splitting\<close>

text \<open>The specification: cut at every first occurrence of the separator.\<close>

function split_at :: "bytes \<Rightarrow> bytes \<Rightarrow> bytes list" where
  "split_at sep s =
     (if sep = [] then [s]
      else case memmem s sep of
        None \<Rightarrow> [s]
      | Some i \<Rightarrow> take i s # split_at sep (drop (i + length sep) s))"
  by pat_completeness auto
termination
proof (relation "measure (\<lambda>(sep, s). length s)")
  fix sep s :: bytes and i
  assume "sep \<noteq> []" and "memmem s sep = Some i"
  with memmem_bound [of s sep i] show "((sep, drop (i + length sep) s), sep, s) \<in> measure (\<lambda>(sep, s). length s)"
    by (cases sep) auto
qed simp

declare split_at.simps [simp del]

lemma split_loop_spec:
  assumes "sep \<noteq> []" and "start \<le> j" and "j \<le> length s" and "length tokens < slots" and "1 < slots"
    and "\<forall>k. start \<le> k \<longrightarrow> k < j \<longrightarrow> take (length sep) (drop k s) \<noteq> sep"
  shows "split_loop s sep slots start j tokens = Some (tokens @ split_at sep (drop start s))"
  using assms
proof (induction s sep slots start j tokens rule: split_loop.induct)
  case (1 s sep slots start j tokens)
  let ?slots = "if slots < length tokens + 2 then slots * 2 else slots"
  have room: "length tokens + 2 \<le> ?slots" using "1.prems"(4,5) by auto
  show ?case
  proof (cases "j + length sep \<le> length s")
    case False
    have "take (length sep) (drop k (drop start s)) \<noteq> sep" for k
    proof
      assume eq: "take (length sep) (drop k (drop start s)) = sep"
      then have "length sep \<le> length (drop k (drop start s))" by (rule take_eq_needle)
      moreover have "0 < length sep" using "1.prems"(1) by simp
      ultimately have "start + k < j" using False unfolding length_drop by linarith
      with "1.prems"(6) eq show False by (simp add: add.commute)
    qed
    then have "memmem (drop start s) sep = None" using "1.prems"(1) by (simp add: memmem_None)
    then have "split_at sep (drop start s) = [drop start s]" by (subst split_at.simps) simp
    with False "1.prems" show ?thesis by (subst split_loop.simps) simp
  next
    case True
    show ?thesis
    proof (cases "take (length sep) (drop j s) = sep")
      case here: True
      have "memmem (drop start s) sep = Some (j - start)"
        using "1.prems"(1,2,6) here by (auto simp: memmem_Some less_diff_conv)
      then have cut: "split_at sep (drop start s) =
          take (j - start) (drop start s) # split_at sep (drop (j + length sep) s)"
        using "1.prems"(1,2) by (subst split_at.simps) simp
      have "split_loop s sep ?slots (j + length sep) (j + length sep)
          (tokens @ [take (j - start) (drop start s)]) =
          Some ((tokens @ [take (j - start) (drop start s)]) @ split_at sep (drop (j + length sep) s))"
        using "1.IH"(1) [OF _ refl here, of "()"] True room "1.prems"(1,5) by simp
      with True here room "1.prems"(1) show ?thesis unfolding cut by (subst split_loop.simps) (simp add: Let_def)
    next
      case no: False
      have "j + 1 \<le> length s" using True "1.prems"(1) by (cases sep) auto
      then have "split_loop s sep ?slots start (j + 1) tokens = Some (tokens @ split_at sep (drop start s))"
        using "1.IH"(2) [OF _ refl no] True room "1.prems" no by (auto simp: less_Suc_eq)
      with True no "1.prems"(1) show ?thesis by (subst split_loop.simps) (simp add: Let_def)
    qed
  qed
qed

lemma sdssplitlen_split_at:
  "s \<noteq> [] \<Longrightarrow> sep \<noteq> [] \<Longrightarrow> sdssplitlen s sep = Some (split_at sep s)"
  using split_loop_spec [of sep 0 0 s "[]" 5] by (simp add: sdssplitlen_def)

lemma split_at_nonempty [simp]: "split_at sep s \<noteq> []"
  by (subst split_at.simps) (simp split: option.split)

lemma join_split: "sep \<noteq> [] \<Longrightarrow> join_with sep (split_at sep s) = s"
proof (induction sep s rule: split_at.induct)
  case (1 sep s)
  show ?case
  proof (cases "memmem s sep")
    case None
    then show ?thesis by (subst split_at.simps) simp
  next
    case (Some i)
    then have "take (length sep) (drop i s) = sep" using "1.prems" by (simp add: memmem_Some)
    then have "take i s @ sep @ drop (i + length sep) s = s"
      by (metis append_take_drop_id add.commute drop_drop)
    with Some 1 show ?thesis by (subst split_at.simps) (simp add: join_with_Cons)
  qed
qed

text \<open>With a separator of one byte, splitting undoes joining.\<close>

lemma split_at_char:
  "split_at [c] s = (case memchr s c of None \<Rightarrow> [s] | Some i \<Rightarrow> take i s # split_at [c] (drop (Suc i) s))"
proof -
  have "memmem s [c] = memchr s c" by (induction s) (auto simp: take_Cons')
  then show ?thesis by (subst split_at.simps) (simp del: memchr_None split: option.split)
qed

lemma split_at_char_none: "c \<notin> set s \<Longrightarrow> split_at [c] s = [s]"
  by (subst split_at_char) (simp flip: memchr_None)

lemma split_at_char_cons: "c \<notin> set t \<Longrightarrow> split_at [c] (t @ c # s) = t # split_at [c] s"
  by (subst split_at_char) (simp add: memchr_skip)

lemma split_join: "ts \<noteq> [] \<Longrightarrow> \<forall>t\<in>set ts. c \<notin> set t \<Longrightarrow> split_at [c] (join_with [c] ts) = ts"
  by (induction "[c]" ts rule: join_with.induct) (simp_all add: split_at_char_none split_at_char_cons)

lemma split_at_free: "t \<in> set (split_at [c] s) \<Longrightarrow> c \<notin> set t"
proof (induction s rule: length_induct)
  case (1 s)
  show ?case
  proof (cases "memchr s c")
    case None
    then have "c \<notin> set s" by simp
    with "1.prems" show ?thesis by (simp add: split_at_char_none)
  next
    case (Some i)
    then have "split_at [c] s = take i s # split_at [c] (drop (Suc i) s)" by (simp add: split_at_char)
    with "1.prems" have "t = take i s \<or> t \<in> set (split_at [c] (drop (Suc i) s))" by simp
    moreover have "length (drop (Suc i) s) < length s" using memchr_less [OF Some] by simp
    moreover have "c \<notin> set (take i s)" using Some by (simp add: memchr_Some)
    ultimately show ?thesis using "1.IH" by blast
  qed
qed

text \<open>
  \<open>sdssplitlen\<close> never writes outside its token array, and on a non-empty string and
  separator \<open>sdsjoinsds\<close> puts its tokens back together to exactly the string that was split.
\<close>

theorem sds_split_join:
  assumes "s \<noteq> []" and "sep \<noteq> []"
  shows "\<exists>tokens. sdssplitlen s sep = Some tokens \<and> sdsjoinsds tokens sep = s"
  using assms by (simp add: sdssplitlen_split_at sdsjoinsds_with join_split)

theorem sds_split_join_witness:
  "\<exists>tokens. sdssplitlen ''a--b---'' ''--'' = Some tokens \<and> sdsjoinsds tokens ''--'' = ''a--b---''"
  by (rule sds_split_join) simp_all

text \<open>
  With a separator of one byte, as the router uses it, splitting a join gives back every
  token, empty ones included.
\<close>

theorem sds_join_split:
  assumes "ts \<noteq> []" and "\<forall>t\<in>set ts. c \<notin> set t" and "sdsjoinsds ts [c] \<noteq> []"
  shows "sdssplitlen (sdsjoinsds ts [c]) [c] = Some ts"
  using assms by (simp add: sdssplitlen_split_at sdsjoinsds_with split_join)

theorem sds_join_split_witness:
  "sdssplitlen (sdsjoinsds ['''', ''a'', '''', ''bc''] ''/'') ''/'' = Some ['''', ''a'', '''', ''bc'']"
  by (rule sds_join_split) (simp_all add: sdsjoinsds_with)

end
