(* ===== verification/RouteTrie.thy ===== *)
theory RouteTrie
  imports Http SdsText
begin

text \<open>
  Routes and the route trie: \<open>network/routing/route.c\<close> and \<open>route_trie.c\<close>.  A callback is a
  value of type \<open>'cb\<close>; the null pointer is \<^const>\<open>None\<close>.  The children of a node are a
  list in insertion order; the pointer \<open>current\<close> that \<open>trie_add_route\<close> moves down the trie is
  the position of the recursion.
\<close>

section \<open>Routes\<close>

record route_segment_t =
  path_segment :: bytes
  is_dynamic :: bool

record 'cb route_t =
  rt_segments :: "route_segment_t list"
  rt_method :: http_method
  rt_callback :: "'cb option"

text \<open>\<open>strs[i][0] == ':'\<close>; the first byte of an empty sds string is its terminating NUL.\<close>

definition segment_of :: "bytes \<Rightarrow> route_segment_t" where
  "segment_of str = \<lparr>path_segment = str, is_dynamic = (case str of [] \<Rightarrow> False | c # _ \<Rightarrow> c = CHR '':'')\<rparr>"

definition route_create :: "http_method \<Rightarrow> bytes \<Rightarrow> 'cb option \<Rightarrow> 'cb route_t option" where
  "route_create method URI callback = do {
     strs \<leftarrow> sdssplitlen URI ''/'';
     Some \<lparr>rt_segments = map segment_of strs, rt_method = method, rt_callback = callback\<rparr>
   }"

text \<open>The strings that \<open>route_destroy\<close> frees.\<close>

definition route_destroy :: "'cb route_t \<Rightarrow> bytes list" where
  "route_destroy rt = map path_segment (rt_segments rt)"

section \<open>The trie\<close>

datatype 'cb trie_node_t =
  Trie_node (children: "'cb trie_node_t list") (segment: "bytes option") (dynamic: bool)
    (callback: "'cb option")

record 'cb trie_t =
  roots :: "'cb trie_node_t list"

definition trie_node_create :: "'cb trie_node_t" where
  "trie_node_create = Trie_node [] None False None"

definition trie_create :: "'cb trie_t" where
  "trie_create = \<lparr>roots = replicate (method_index http_method_unknown) trie_node_create\<rparr>"

text \<open>
  The strings freed with a node, its children's first.  A root is a block of its own, but a
  child lies inside its parent's array of children: handing it to \<open>free\<close>, as the last line
  of \<open>trie_node_destroy\<close> does, is a fault.
\<close>

fun trie_node_destroy :: "bool \<Rightarrow> 'cb trie_node_t \<Rightarrow> bytes list option"
and destroy_children :: "'cb trie_node_t list \<Rightarrow> bytes list option"
where
  "trie_node_destroy own_block (Trie_node cs seg dyn cb) = do {
     freed \<leftarrow> destroy_children cs;
     guard own_block;
     Some (freed @ (case seg of None \<Rightarrow> [] | Some s \<Rightarrow> [s]))
   }"
| "destroy_children [] = Some []"
| "destroy_children (c # cs) = do {
     freed \<leftarrow> trie_node_destroy False c;
     more \<leftarrow> destroy_children cs;
     Some (freed @ more)
   }"

fun destroy_roots :: "'cb trie_node_t list \<Rightarrow> bytes list option" where
  "destroy_roots [] = Some []"
| "destroy_roots (r # rs) = do {
     freed \<leftarrow> trie_node_destroy True r;
     more \<leftarrow> destroy_roots rs;
     Some (freed @ more)
   }"

definition trie_destroy :: "'cb trie_t \<Rightarrow> bytes list option" where
  "trie_destroy t = destroy_roots (roots t)"

lemma trie_node_destroy_embedded [simp]: "trie_node_destroy False n = None"
  by (cases n) (auto simp: guard_def)

lemma destroy_children_iff: "destroy_children cs = (if cs = [] then Some [] else None)"
  by (cases cs) simp_all

lemma destroy_roots_None: "r \<in> set rs \<Longrightarrow> children r \<noteq> [] \<Longrightarrow> destroy_roots rs = None"
proof (induction rs)
  case (Cons a rs)
  then show ?case
    by (cases a; cases "trie_node_destroy True a") (auto simp: destroy_children_iff)
qed simp

text \<open>
  Inserting: the first child whose segment equals the route's is followed, otherwise a new
  child is appended.  Comparing with a node that has no segment (a root) would be a fault;
  roots are never children.
\<close>

definition child_is :: "'cb trie_node_t \<Rightarrow> bytes \<Rightarrow> bool" where
  "child_is c s = (case segment c of None \<Rightarrow> False | Some t \<Rightarrow> sdscmp s t = 0)"

definition new_child :: "route_segment_t \<Rightarrow> 'cb trie_node_t" where
  "new_child seg = Trie_node [] (Some (path_segment seg)) (is_dynamic seg) None"

fun trie_insert :: "'cb trie_node_t \<Rightarrow> route_segment_t list \<Rightarrow> 'cb option \<Rightarrow> 'cb trie_node_t"
and insert_child ::
  "'cb trie_node_t list \<Rightarrow> route_segment_t \<Rightarrow> route_segment_t list \<Rightarrow> 'cb option \<Rightarrow> 'cb trie_node_t list"
where
  "trie_insert (Trie_node cs s d cb) [] rcb = Trie_node cs s d rcb"
| "trie_insert (Trie_node cs s d cb) (seg # segs) rcb = Trie_node (insert_child cs seg segs rcb) s d cb"
| "insert_child [] seg segs rcb = [trie_insert (new_child seg) segs rcb]"
| "insert_child (c # cs) seg segs rcb =
     (if child_is c (path_segment seg) then trie_insert c segs rcb # cs
      else c # insert_child cs seg segs rcb)"

definition trie_add_route :: "'cb trie_t \<Rightarrow> 'cb route_t \<Rightarrow> 'cb trie_t option" where
  "trie_add_route t rt = do {
     let m = method_index (rt_method rt);
     guard (m < length (roots t));
     Some (t\<lparr>roots := (roots t)[m := trie_insert (roots t ! m) (rt_segments rt) (rt_callback rt)]\<rparr>)
   }"

text \<open>
  Lookup: the scan over a node's children for one segment.  With no children the scan does
  nothing and the node stays; the null handler is returned from inside the scan only at the
  last child.
\<close>

fun scan_children :: "'cb trie_node_t \<Rightarrow> 'cb trie_node_t list \<Rightarrow> bytes \<Rightarrow> 'cb trie_node_t option" where
  "scan_children root [] s = Some root"
| "scan_children root (c # cs) s =
     (if child_is c s then Some c
      else if dynamic c then Some c
      else if cs = [] then None
      else scan_children root cs s)"

fun find_node :: "'cb trie_node_t \<Rightarrow> bytes list \<Rightarrow> 'cb trie_node_t option" where
  "find_node root [] = Some root"
| "find_node root (s # segs) =
     (case scan_children root (children root) s of
        None \<Rightarrow> None
      | Some c \<Rightarrow> find_node c segs)"

definition trie_find_handler :: "'cb trie_t \<Rightarrow> http_method \<Rightarrow> bytes \<Rightarrow> 'cb option option" where
  "trie_find_handler t method URI = do {
     segs \<leftarrow> sdssplitlen URI ''/'';
     let m = method_index method;
     guard (m < length (roots t));
     Some (case find_node (roots t ! m) segs of None \<Rightarrow> None | Some n \<Rightarrow> callback n)
   }"

section \<open>Exact lookup\<close>

text \<open>The callback stored for exactly one list of segments.\<close>

fun exact :: "'cb trie_node_t \<Rightarrow> bytes list \<Rightarrow> 'cb option" where
  "exact n [] = callback n"
| "exact n (s # ss) =
     (case find (\<lambda>c. child_is c s) (children n) of None \<Rightarrow> None | Some c \<Rightarrow> exact c ss)"

lemma segment_insert [simp]: "segment (trie_insert n segs rcb) = segment n"
  "dynamic (trie_insert n segs rcb) = dynamic n"
  by (cases n; cases segs; simp)+

lemma child_is_insert [simp]: "child_is (trie_insert n segs rcb) s = child_is n s"
  by (simp add: child_is_def)

lemma child_is_new [simp]: "child_is (new_child seg) s \<longleftrightarrow> s = path_segment seg"
  by (simp add: child_is_def new_child_def)

lemma child_is_unique: "child_is c s \<Longrightarrow> child_is c s' \<longleftrightarrow> s = s'"
  by (auto simp: child_is_def split: option.splits)

lemma find_insert_child:
  "find (\<lambda>c. child_is c s) (insert_child cs seg segs rcb) =
     (if s = path_segment seg
      then Some (trie_insert (case find (\<lambda>c. child_is c s) cs of None \<Rightarrow> new_child seg | Some c \<Rightarrow> c) segs rcb)
      else find (\<lambda>c. child_is c s) cs)"
  by (induction cs) (auto simp: child_is_unique)

lemma trie_insert_Cons:
  "trie_insert n (seg # segs) rcb =
     Trie_node (insert_child (children n) seg segs rcb) (segment n) (dynamic n) (callback n)"
  by (cases n) simp

lemma trie_insert_Nil: "trie_insert n [] rcb = Trie_node (children n) (segment n) (dynamic n) rcb"
  by (cases n) simp

lemma exact_new_child [simp]: "exact (new_child seg) q = None"
  by (cases q) (simp_all add: new_child_def)

lemma exact_insert:
  "exact (trie_insert n segs rcb) q = (if q = map path_segment segs then rcb else exact n q)"
proof (induction segs arbitrary: n q)
  case Nil
  then show ?case by (cases q) (simp_all add: trie_insert_Nil)
next
  case (Cons seg segs)
  show ?case
  proof (cases q)
    case Nil
    then show ?thesis by (simp add: trie_insert_Cons)
  next
    case (Cons s ss)
    with Cons.IH show ?thesis
      by (auto simp: trie_insert_Cons find_insert_child split: option.splits)
  qed
qed

text \<open>
  An association: what \<open>lookup\<close> returns after any number of insertions.  The exact part of the
  trie is one.
\<close>

locale association =
  fixes lookup :: "'t \<Rightarrow> 'k \<Rightarrow> 'v option" and insert_key :: "'t \<Rightarrow> 'k \<Rightarrow> 'v option \<Rightarrow> 't"
  assumes lookup_insert: "lookup (insert_key t k v) q = (if q = k then v else lookup t q)"
begin

lemma lookup_fold:
  "lookup (fold (\<lambda>(k, v) t. insert_key t k v) kvs t) q =
     (case map_of (rev kvs) q of None \<Rightarrow> lookup t q | Some v \<Rightarrow> v)"
  by (induction kvs arbitrary: t) (auto simp: lookup_insert map_add_def split: option.splits)

end

definition insert_path :: "'cb trie_node_t \<Rightarrow> bytes list \<Rightarrow> 'cb option \<Rightarrow> 'cb trie_node_t" where
  "insert_path n p cb = trie_insert n (map segment_of p) cb"

lemma path_segment_of [simp]: "path_segment (segment_of s) = s" "path_segment \<circ> segment_of = id"
  by (simp_all add: segment_of_def fun_eq_iff)

interpretation trie: association exact insert_path
  by unfold_locales (simp add: insert_path_def exact_insert)

section \<open>Static tries\<close>

text \<open>In a trie without dynamic segments, the lookup of an inserted path is exact.\<close>

fun static_node :: "'cb trie_node_t \<Rightarrow> bool" where
  "static_node (Trie_node cs s d cb) = (\<forall>c\<in>set cs. \<not> dynamic c \<and> static_node c)"

lemma static_node_sel: "static_node n \<longleftrightarrow> (\<forall>c\<in>set (children n). \<not> dynamic c \<and> static_node c)"
  by (cases n) simp

lemma set_insert_child: "x \<in> set (insert_child cs seg segs rcb) \<Longrightarrow>
   x \<in> set cs \<or> (\<exists>c\<in>set cs. child_is c (path_segment seg) \<and> x = trie_insert c segs rcb) \<or>
   x = trie_insert (new_child seg) segs rcb"
proof (induction cs)
  case Nil
  then show ?case by (simp only: insert_child.simps list.set) blast
next
  case (Cons c cs)
  show ?case
  proof (cases "child_is c (path_segment seg)")
    case True
    with Cons.prems have "x = trie_insert c segs rcb \<or> x \<in> set cs"
      by (simp only: insert_child.simps list.set if_True insert_iff)
    with True show ?thesis by (simp only: list.set) blast
  next
    case False
    with Cons.prems have "x = c \<or> x \<in> set (insert_child cs seg segs rcb)"
      by (simp only: insert_child.simps list.set if_False insert_iff)
    with Cons.IH show ?thesis by (simp only: list.set) blast
  qed
qed

lemma static_insert:
  "static_node n \<Longrightarrow> \<forall>s\<in>set segs. \<not> is_dynamic s \<Longrightarrow> static_node (trie_insert n segs rcb)"
proof (induction segs arbitrary: n)
  case Nil
  then show ?case by (cases n) simp
next
  case (Cons seg segs)
  have "\<not> dynamic (new_child seg :: 'a trie_node_t)" "static_node (new_child seg :: 'a trie_node_t)"
    using Cons.prems(2) by (simp_all add: new_child_def)
  then have new: "\<not> dynamic (trie_insert (new_child seg) segs rcb)"
      "static_node (trie_insert (new_child seg) segs rcb)"
    using Cons.IH Cons.prems(2) by simp_all
  have old: "\<not> dynamic c" "static_node c" "static_node (trie_insert c segs rcb)"
    if "c \<in> set (children n)" for c
    using that Cons.IH Cons.prems static_node_sel [of n] by simp_all
  show ?case unfolding trie_insert_Cons static_node.simps
  proof
    fix x
    assume "x \<in> set (insert_child (children n) seg segs rcb)"
    from set_insert_child [OF this] show "\<not> dynamic x \<and> static_node x"
      using new old by (metis segment_insert(2))
  qed
qed

lemma scan_children_find:
  "cs \<noteq> [] \<Longrightarrow> scan_children root cs s = find (\<lambda>c. child_is c s \<or> dynamic c) cs"
  by (induction root cs s rule: scan_children.induct) auto

lemma find_static:
  "\<forall>c\<in>set cs. \<not> dynamic c \<Longrightarrow> find (\<lambda>c. child_is c s \<or> dynamic c) cs = find (\<lambda>c. child_is c s) cs"
  by (induction cs) auto

lemma find_node_exact:
  "static_node n \<Longrightarrow> exact n p = Some f \<Longrightarrow> \<exists>m. find_node n p = Some m \<and> callback m = Some f"
proof (induction p arbitrary: n)
  case (Cons s p)
  from Cons.prems(2) obtain c where c: "find (\<lambda>c. child_is c s) (children n) = Some c" "exact c p = Some f"
    by (auto split: option.splits)
  then have "c \<in> set (children n)" and ne: "children n \<noteq> []" by (auto simp: find_Some_iff)
  with Cons.prems(1) have "static_node c" using static_node_sel [of n] by simp
  moreover have "scan_children n (children n) s = Some c"
    using c(1) ne Cons.prems(1) static_node_sel [of n] by (simp add: scan_children_find find_static)
  ultimately show ?case using Cons.IH c(2) by simp
qed simp

section \<open>Registered routes\<close>

definition uri_segs :: "bytes \<Rightarrow> bytes list" where
  "uri_segs uri = (if uri = [] then [] else split_at ''/'' uri)"

lemma sdssplitlen_uri [simp]: "sdssplitlen uri ''/'' = Some (uri_segs uri)"
  by (cases "uri = []") (simp_all add: uri_segs_def sdssplitlen_split_at, simp add: sdssplitlen_def)

lemma join_uri_segs: "join_with ''/'' (uri_segs u) = u"
  by (simp add: uri_segs_def join_split)

lemma uri_segs_inject: "uri_segs u = uri_segs v \<longleftrightarrow> u = v"
  by (metis join_uri_segs)

text \<open>Registering routes as \<open>main\<close> does: create each route, then add it.\<close>

fun register_all ::
  "'cb trie_t \<Rightarrow> (http_method \<times> bytes \<times> 'cb option) list \<Rightarrow> 'cb trie_t option" where
  "register_all t [] = Some t"
| "register_all t ((m, uri, cb) # specs) = do {
     rt \<leftarrow> route_create m uri cb;
     t \<leftarrow> trie_add_route t rt;
     register_all t specs
   }"

definition routes_of ::
  "http_method \<Rightarrow> (http_method \<times> bytes \<times> 'cb option) list \<Rightarrow> (bytes list \<times> 'cb option) list" where
  "routes_of m specs = map (\<lambda>(m', u, cb). (uri_segs u, cb)) (filter (\<lambda>r. fst r = m) specs)"

abbreviation insert_all :: "(bytes list \<times> 'cb option) list \<Rightarrow> 'cb trie_node_t \<Rightarrow> 'cb trie_node_t" where
  "insert_all rs n \<equiv> fold (\<lambda>(p, cb) n. insert_path n p cb) rs n"

lemma register_all_roots:
  "register_all t specs = Some t' \<Longrightarrow> length (roots t) = 9 \<Longrightarrow>
   length (roots t') = 9 \<and> (\<forall>m. m \<noteq> http_method_unknown \<longrightarrow>
     roots t' ! method_index m = insert_all (routes_of m specs) (roots t ! method_index m))"
proof (induction specs arbitrary: t)
  case Nil
  then show ?case by (simp add: routes_of_def)
next
  case (Cons r specs)
  obtain m uri cb where r: "r = (m, uri, cb)" by (cases r)
  let ?t = "t\<lparr>roots := (roots t)[method_index m := insert_path (roots t ! method_index m) (uri_segs uri) cb]\<rparr>"
  from Cons.prems have "method_index m < 9" and reg: "register_all ?t specs = Some t'"
    by (auto simp: r route_create_def trie_add_route_def insert_path_def fault_simps Let_def)
  moreover have "length (roots ?t) = 9" using Cons.prems(2) by simp
  ultimately show ?case
    using Cons.IH [OF reg] Cons.prems(2)
    by (auto simp: r routes_of_def nth_list_update method_index_known)
qed

lemma trie_create_roots:
  "length (roots trie_create) = 9"
  "m \<noteq> http_method_unknown \<Longrightarrow> roots trie_create ! method_index m = trie_node_create"
  by (simp_all add: trie_create_def method_index_def split: http_method.split)

lemma registered_root:
  assumes "register_all trie_create specs = Some t" and "m \<noteq> http_method_unknown"
  shows "length (roots t) = 9" and "roots t ! method_index m = insert_all (routes_of m specs) trie_node_create"
  using register_all_roots [OF assms(1) trie_create_roots(1)] assms(2)
  by (simp_all add: trie_create_roots(2))

lemma find_handler_root:
  assumes "register_all trie_create specs = Some t" and "m \<noteq> http_method_unknown"
  shows "trie_find_handler t m URI =
    Some (Option.bind (find_node (insert_all (routes_of m specs) trie_node_create) (uri_segs URI)) callback)"
  using registered_root [OF assms] assms(2)
  by (simp add: trie_find_handler_def method_index_known split: option.split)

text \<open>A route without dynamic segments.\<close>

definition static_uri :: "bytes \<Rightarrow> bool" where
  "static_uri uri \<longleftrightarrow> (\<forall>s\<in>set (uri_segs uri). \<not> is_dynamic (segment_of s))"

lemma routes_of_mem: "(p, cb) \<in> set (routes_of m specs) \<Longrightarrow> \<exists>u. (m, u, cb) \<in> set specs \<and> p = uri_segs u"
  by (auto simp: routes_of_def)

lemma static_routes_of:
  assumes "\<forall>(m', u, cb)\<in>set specs. static_uri u"
  shows "\<forall>(p, cb)\<in>set (routes_of m specs). \<forall>s\<in>set p. \<not> is_dynamic (segment_of s)"
proof clarify
  fix p cb s
  assume "(p, cb) \<in> set (routes_of m specs)" and s: "s \<in> set p" "is_dynamic (segment_of s)"
  then obtain u where "(m, u, cb) \<in> set specs" "p = uri_segs u" using routes_of_mem by blast
  with assms s show False unfolding static_uri_def by blast
qed

lemma static_insert_all:
  "static_node n \<Longrightarrow> \<forall>(p, cb)\<in>set rs. \<forall>s\<in>set p. \<not> is_dynamic (segment_of s) \<Longrightarrow>
   static_node (insert_all rs n)"
proof (induction rs arbitrary: n)
  case (Cons r rs)
  then show ?case using static_insert [of n "map segment_of (fst r)" "snd r"]
    by (auto simp: insert_path_def split_def)
qed simp

text \<open>
  C37. Completeness of static routing: when no registered route has a dynamic segment, the
  handler registered last for a method and a path is the one found for that method and path,
  whatever else is registered.
\<close>

theorem trie_static_complete:
  assumes reg: "register_all trie_create (before @ (m, uri, Some f) # after) = Some t"
    and static: "\<forall>(m', u, cb)\<in>set (before @ (m, uri, Some f) # after). static_uri u"
    and last: "\<forall>(m', u, cb)\<in>set after. \<not> (m' = m \<and> u = uri)" and "m \<noteq> http_method_unknown"
  shows "trie_find_handler t m uri = Some (Some f)"
proof -
  let ?specs = "before @ (m, uri, Some f) # after"
  let ?n = "insert_all (routes_of m ?specs) trie_node_create"
  have "uri_segs uri \<notin> fst ` set (routes_of m after)"
    using last by (auto simp: routes_of_def uri_segs_inject)
  then have "map_of (rev (routes_of m after)) (uri_segs uri) = None" by (simp add: map_of_eq_None_iff)
  then have "map_of (rev (routes_of m ?specs)) (uri_segs uri) = Some (Some f)"
    by (simp add: routes_of_def map_add_def)
  then have exact: "exact ?n (uri_segs uri) = Some f" by (simp add: trie.lookup_fold)
  have "static_node ?n"
  proof (rule static_insert_all)
    show "static_node (trie_node_create :: 'a trie_node_t)" by (simp add: trie_node_create_def)
  qed (rule static_routes_of [OF static])
  from find_node_exact [OF this exact] obtain n where
    "find_node ?n (uri_segs uri) = Some n" "callback n = Some f" by (elim exE conjE)
  then show ?thesis unfolding find_handler_root [OF reg assms(4)] by simp
qed

text \<open>The handler of \<open>main.c\<close>, and the route it is registered for.\<close>

datatype handler = Route_callback_test

abbreviation main_routes :: "(http_method \<times> bytes \<times> handler option) list" where
  "main_routes \<equiv> [(http_method_get, ''/test'', Some Route_callback_test)]"

lemma uri_segs_code: "uri_segs uri = the (sdssplitlen uri ''/'')"
  by simp

lemma uri_segs_test: "uri_segs ''/test'' = ['''', ''test'']"
proof -
  have "uri_segs (join_with ''/'' ['''', ''test'']) = ['''', ''test'']"
    unfolding uri_segs_def by (subst split_join) simp_all
  then show ?thesis by simp
qed

theorem trie_static_complete_witness:
  "\<exists>t. register_all trie_create main_routes = Some t \<and> trie_find_handler t http_method_get ''/test'' = Some (Some Route_callback_test)"
proof -
  have "\<exists>t. register_all trie_create main_routes = Some t"
    by (simp add: route_create_def trie_add_route_def trie_create_def method_index_def)
  then obtain t where t: "register_all trie_create ([] @ (http_method_get, ''/test'', Some Route_callback_test) # []) = Some t"
    by auto
  have "static_uri ''/test''" by (simp add: static_uri_def uri_segs_test segment_of_def)
  then have "trie_find_handler t http_method_get ''/test'' = Some (Some Route_callback_test)"
    by (intro trie_static_complete [OF t]) simp_all
  with t show ?thesis by auto
qed

section \<open>Only registered routes match\<close>

fun has_entry :: "'cb trie_node_t \<Rightarrow> bytes list \<Rightarrow> 'cb \<Rightarrow> bool" where
  "has_entry n [] f \<longleftrightarrow> callback n = Some f"
| "has_entry n (s # ss) f \<longleftrightarrow> (\<exists>c\<in>set (children n). segment c = Some s \<and> has_entry c ss f)"

text \<open>Every node below a root carries a segment, and its flag agrees with the segment.\<close>

fun labelled :: "'cb trie_node_t \<Rightarrow> bool" where
  "labelled (Trie_node cs s d cb) \<longleftrightarrow>
     (\<forall>c\<in>set cs. (\<exists>t. segment c = Some t \<and> dynamic c = is_dynamic (segment_of t)) \<and> labelled c)"

definition child_ok :: "'cb trie_node_t \<Rightarrow> bool" where
  "child_ok c \<longleftrightarrow> (\<exists>t. segment c = Some t \<and> dynamic c = is_dynamic (segment_of t)) \<and> labelled c"

lemma labelled_sel: "labelled n \<longleftrightarrow> (\<forall>c\<in>set (children n). child_ok c)"
  by (cases n) (simp add: child_ok_def)

lemma child_ok_new: "child_ok (new_child (segment_of s))"
  by (simp add: child_ok_def new_child_def)

lemma labelled_insert: "labelled n \<Longrightarrow> labelled (trie_insert n (map segment_of p) cb)"
proof (induction p arbitrary: n)
  case Nil
  then show ?case by (cases n) simp
next
  case (Cons s p)
  have ins: "child_ok (trie_insert c (map segment_of p) cb)" if "child_ok c" for c
    using that Cons.IH by (simp add: child_ok_def)
  have old: "child_ok c" if "c \<in> set (children n)" for c using that Cons.prems labelled_sel by blast
  have "child_ok x" if "x \<in> set (insert_child (children n) (segment_of s) (map segment_of p) cb)" for x
    using set_insert_child [OF that] ins old child_ok_new [of s] by metis
  then show ?case by (simp add: trie_insert_Cons labelled_sel)
qed

lemma has_entry_insert:
  "has_entry (trie_insert n (map segment_of p) cb) q f \<Longrightarrow> has_entry n q f \<or> q = p \<and> cb = Some f"
proof (induction p arbitrary: n q)
  case Nil
  then show ?case by (cases q) (simp_all add: trie_insert_Nil)
next
  case (Cons s p)
  show ?case
  proof (cases q)
    case Nil
    with Cons.prems show ?thesis by (simp add: trie_insert_Cons)
  next
    case q: (Cons t q')
    let ?ins = "\<lambda>c. trie_insert c (map segment_of p) cb"
    from Cons.prems q obtain x where
      x: "x \<in> set (insert_child (children n) (segment_of s) (map segment_of p) cb)"
      and xt: "segment x = Some t" "has_entry x q' f"
      by (auto simp: trie_insert_Cons)
    from set_insert_child [OF x] consider "x \<in> set (children n)"
      | c where "c \<in> set (children n)" "child_is c s" "x = ?ins c" | "x = ?ins (new_child (segment_of s))"
      by auto
    then show ?thesis
    proof cases
      case 1
      with xt q show ?thesis by auto
    next
      case 2
      with xt have "s = t" by (simp add: child_is_def)
      with 2 xt q Cons.IH [of c q'] show ?thesis by auto
    next
      case 3
      with xt have "s = t" by (simp add: new_child_def)
      moreover have "\<not> has_entry (new_child (segment_of s)) q' f" by (cases q') (simp_all add: new_child_def)
      ultimately show ?thesis using 3 xt q Cons.IH [of "new_child (segment_of s)" q'] by auto
    qed
  qed
qed

lemma insert_all_labelled: "labelled n \<Longrightarrow> labelled (insert_all rs n)"
  by (induction rs arbitrary: n) (auto simp: insert_path_def labelled_insert)

lemma insert_all_entry:
  "has_entry (insert_all rs n) q f \<Longrightarrow> has_entry n q f \<or> (q, Some f) \<in> set rs"
proof (induction rs arbitrary: n)
  case (Cons r rs)
  obtain p cb where r: "r = (p, cb)" by (cases r)
  from Cons.prems have "has_entry (insert_all rs (insert_path n p cb)) q f" by (simp add: r)
  from Cons.IH [OF this] has_entry_insert [of n p cb q f] show ?case by (auto simp: r insert_path_def)
qed simp

lemma root_no_entry [simp]: "\<not> has_entry trie_node_create p f"
  by (cases p) (simp_all add: trie_node_create_def)

text \<open>A segment of a route matches a segment of a request.\<close>

definition seg_matches :: "bytes \<Rightarrow> bytes \<Rightarrow> bool" where
  "seg_matches pat s \<longleftrightarrow> is_dynamic (segment_of pat) \<or> pat = s"

lemma find_node_leaf: "children n = [] \<Longrightarrow> find_node n ss = Some n"
  by (induction ss) simp_all

lemma find_node_entry:
  "labelled n \<Longrightarrow> find_node n ss = Some m \<Longrightarrow> callback m = Some f \<Longrightarrow>
   \<exists>p q rest. ss = q @ rest \<and> list_all2 seg_matches p q \<and> has_entry n p f \<and> (rest \<noteq> [] \<longrightarrow> children m = [])"
proof (induction ss arbitrary: n)
  case Nil
  then show ?case by (intro exI [of _ "[]"]) simp
next
  case (Cons s ss)
  show ?case
  proof (cases "children n = []")
    case True
    with Cons.prems find_node_leaf [OF True] have "m = n" by simp
    with True Cons.prems show ?thesis by (intro exI [of _ "[]"] exI [of _ "s # ss"]) simp
  next
    case False
    with Cons.prems obtain c where c: "find (\<lambda>c. child_is c s \<or> dynamic c) (children n) = Some c"
      "find_node c ss = Some m" by (auto simp: scan_children_find split: option.splits)
    then have mem: "c \<in> set (children n)" and hit: "child_is c s \<or> dynamic c" by (auto simp: find_Some_iff)
    from Cons.prems(1) mem have "child_ok c" by (simp add: labelled_sel)
    then obtain t where t: "segment c = Some t" "dynamic c = is_dynamic (segment_of t)" "labelled c"
      by (auto simp: child_ok_def)
    from Cons.IH [OF t(3) c(2) Cons.prems(3)] obtain p q rest where
      "ss = q @ rest" "list_all2 seg_matches p q" "has_entry c p f" "rest \<noteq> [] \<longrightarrow> children m = []"
      by blast
    moreover have "seg_matches t s" using hit t by (auto simp: seg_matches_def child_is_def)
    ultimately show ?thesis using mem t(1)
      by (intro exI [of _ "t # p"] exI [of _ "s # q"] exI [of _ rest]) auto
  qed
qed

text \<open>
  C38. Soundness of routing, dynamic segments included: the handler found for a request was
  registered for the request's method, and the segments of its route match a prefix of the
  segments of the request's path; the lookup itself always returns.
\<close>

theorem trie_find_sound:
  assumes reg: "register_all trie_create specs = Some t" and "m \<noteq> http_method_unknown"
  shows "\<exists>res. trie_find_handler t m URI = Some res \<and>
    (\<forall>f. res = Some f \<longrightarrow> (\<exists>u q rest. (m, u, Some f) \<in> set specs \<and> uri_segs URI = q @ rest \<and>
      list_all2 seg_matches (uri_segs u) q))"
proof -
  let ?n = "insert_all (routes_of m specs) trie_node_create"
  have lab: "labelled ?n" by (rule insert_all_labelled) (simp add: trie_node_create_def)
  have "\<exists>u q rest. (m, u, Some f) \<in> set specs \<and> uri_segs URI = q @ rest \<and> list_all2 seg_matches (uri_segs u) q"
    if "find_node ?n (uri_segs URI) = Some n" "callback n = Some f" for n f
  proof -
    from find_node_entry [OF lab that] obtain p q rest where
      *: "uri_segs URI = q @ rest" "list_all2 seg_matches p q" "has_entry ?n p f" by blast
    from insert_all_entry [OF *(3)] have "(p, Some f) \<in> set (routes_of m specs)" by simp
    from routes_of_mem [OF this] * show ?thesis by blast
  qed
  then show ?thesis
    unfolding find_handler_root [OF assms]
    by (cases "find_node ?n (uri_segs URI)") auto
qed

lemma main_table: "\<exists>t. register_all trie_create main_routes = Some t"
  by (simp add: route_create_def trie_add_route_def trie_create_def method_index_def)

theorem trie_find_sound_witness:
  "\<exists>t res. register_all trie_create main_routes = Some t \<and> trie_find_handler t http_method_get ''/x'' = Some res \<and>
     (\<forall>f. res = Some f \<longrightarrow> f = Route_callback_test)"
proof -
  obtain t where t: "register_all trie_create main_routes = Some t" using main_table by blast
  from trie_find_sound [OF t, of http_method_get "''/x''"] t show ?thesis by auto
qed

lemma main_handler:
  assumes "register_all trie_create main_routes = Some t" and "m \<noteq> http_method_unknown"
  shows "trie_find_handler t m URI =
    Some (if m = http_method_get \<and> (\<exists>rest. uri_segs URI = '''' # ''test'' # rest) then Some Route_callback_test else None)"
proof (cases "m = http_method_get")
  case True
  have n: "insert_all (routes_of http_method_get main_routes) trie_node_create =
      Trie_node [Trie_node [Trie_node [] (Some ''test'') False (Some Route_callback_test)] (Some '''') False None] None False None"
    by (simp add: routes_of_def uri_segs_test insert_path_def trie_node_create_def segment_of_def new_child_def)
  have leaf: "find_node (Trie_node [] (Some ''test'') False (Some Route_callback_test)) ss =
      Some (Trie_node [] (Some ''test'') False (Some Route_callback_test))" for ss
    by (rule find_node_leaf) simp
  show ?thesis
    unfolding find_handler_root [OF assms] unfolding True n
    by (cases "uri_segs URI"; cases "tl (uri_segs URI)") (auto simp: child_is_def leaf)
next
  case False
  then have n: "insert_all (routes_of m main_routes) trie_node_create = Trie_node [] None False None"
    by (auto simp: routes_of_def trie_node_create_def)
  have "find_node (Trie_node [] None False (None :: handler option)) ss = Some (Trie_node [] None False None)" for ss
    by (rule find_node_leaf) simp
  with False show ?thesis unfolding find_handler_root [OF assms] unfolding n by simp
qed

text \<open>
  In the server as \<open>main\<close> sets it up, the route \<open>/test\<close> answers every path below it: its
  handler runs exactly for the paths whose first two segments are empty and \<open>test\<close>, so
  \<open>/test/anything/at/all\<close> is served like \<open>/test\<close>.
\<close>

theorem trie_main_overmatch:
  assumes "register_all trie_create main_routes = Some t"
  shows "trie_find_handler t http_method_get URI = Some (Some Route_callback_test) \<longleftrightarrow>
    (\<exists>rest. uri_segs URI = '''' # ''test'' # rest)"
  unfolding main_handler [OF assms http_method.distinct(17)] by simp

theorem trie_main_overmatch_witness:
  "\<exists>t. register_all trie_create main_routes = Some t \<and>
     trie_find_handler t http_method_get ''/test/../secret'' = Some (Some Route_callback_test)"
proof -
  obtain t where t: "register_all trie_create main_routes = Some t" using main_table by blast
  have "uri_segs (join_with ''/'' ['''', ''test'', ''..'', ''secret'']) = ['''', ''test'', ''..'', ''secret'']"
    unfolding uri_segs_def by (subst split_join) simp_all
  then have "uri_segs ''/test/../secret'' = ['''', ''test'', ''..'', ''secret'']" by simp
  with trie_main_overmatch [OF t] t show ?thesis by blast
qed

lemma insert_child_nonempty [simp]: "insert_child cs seg segs rcb \<noteq> []"
  by (cases cs) simp_all

text \<open>
  Once a route has been added, the trie cannot be destroyed: \<open>trie_destroy\<close> passes a
  node that lies inside its parent's array of children to \<open>free\<close>.
\<close>

theorem trie_destroy_faults:
  assumes "trie_add_route t rt = Some t'" and "rt_segments rt \<noteq> []"
  shows "trie_destroy t' = None"
proof -
  let ?m = "method_index (rt_method rt)"
  let ?n = "trie_insert (roots t ! ?m) (rt_segments rt) (rt_callback rt)"
  from assms(1) have t': "?m < length (roots t)" "roots t' = (roots t)[?m := ?n]"
    by (auto simp: trie_add_route_def Let_def fault_simps)
  have "children ?n \<noteq> []" using assms(2) by (cases "rt_segments rt") (simp_all add: trie_insert_Cons)
  moreover have "?n \<in> set (roots t')" using t' by (simp add: set_update_memI)
  ultimately show ?thesis by (simp add: trie_destroy_def destroy_roots_None)
qed

theorem trie_destroy_faults_witness:
  "\<exists>t. trie_add_route trie_create
      \<lparr>rt_segments = [segment_of ''a''], rt_method = http_method_get, rt_callback = Some ()\<rparr> = Some t \<and>
    trie_destroy t = None"
proof -
  obtain t where "trie_add_route trie_create
      \<lparr>rt_segments = [segment_of ''a''], rt_method = http_method_get, rt_callback = Some ()\<rparr> = Some t"
    by (simp add: trie_add_route_def trie_create_def method_index_def)
  from this trie_destroy_faults [OF this] show ?thesis by auto
qed

end
