(* ===== verification/Doubles.thy ===== *)
theory Doubles
  imports Complex_Main Prelude
begin

text \<open>
  The few operations on \<open>double\<close> the sources use: the conversion of a \<open>size_t\<close>, one division,
  and the truncation back to \<open>size_t\<close>, in IEEE 754 binary64 with rounding to nearest, ties to
  even.  A double is the rational number it stands for.
\<close>

section \<open>Rounding\<close>

definition round_even :: "rat \<Rightarrow> int" where
  "round_even x =
     (let f = \<lfloor>x\<rfloor>; d = x - of_int f
      in if d < 1 / 2 \<or> (d = 1 / 2 \<and> even f) then f else f + 1)"

text \<open>The exponent of a value from 1 up to \<open>2 ^ 65\<close>: the last power of two not above it.\<close>

definition binade :: "rat \<Rightarrow> nat" where
  "binade x = length (takeWhile (\<lambda>k. 2 ^ k \<le> x) [1..<65])"

text \<open>
  The double nearest to \<open>x\<close>: 53 significant bits.  Values below 1 are left as they are: the
  conversions below truncate them to 0, and the quotient of two doubles, when it is below 1,
  is at most \<open>1 - 2 powr -53\<close>, which is a double, so that rounding does not reach 1.
\<close>

definition round_double :: "rat \<Rightarrow> rat" where
  "round_double x =
     (if x < 1 then x
      else let u = 2 ^ binade x / 2 ^ 52 in of_int (round_even (x / u)) * u)"

text \<open>The conversion of a double to \<open>size_t\<close>: undefined when the integral part does not fit.\<close>

definition size_of_double :: "rat \<Rightarrow> nat option" where
  "size_of_double x = do { guard (-1 < x \<and> x < 2 ^ 64); Some (nat \<lfloor>x\<rfloor>) }"

text \<open>\<open>size / load\<close> for a \<open>size_t\<close> and a \<open>double\<close>, converted to \<open>size_t\<close>.\<close>

definition size_quotient :: "u64 \<Rightarrow> rat \<Rightarrow> nat option" where
  "size_quotient sz load = do {
     guard (load \<noteq> 0);
     size_of_double (round_double (round_double (of_nat (unat sz)) / load))
   }"

text \<open>The double the literal \<open>.67\<close> denotes.\<close>

definition double_67 :: rat where
  "double_67 = 6034823500676465 / 9007199254740992"

section \<open>How far a rounded value is off\<close>

lemma round_even_near: "\<bar>of_int (round_even x) - x\<bar> \<le> 1 / 2"
proof -
  have "of_int \<lfloor>x\<rfloor> \<le> x" "x < of_int \<lfloor>x\<rfloor> + 1" by linarith+
  then show ?thesis by (simp add: round_even_def Let_def abs_le_iff)
qed

lemma round_even_int [simp]: "round_even (of_int k) = k"
  by (simp add: round_even_def)

lemma binade_le: "1 \<le> x \<Longrightarrow> 2 ^ binade x \<le> x"
proof (cases "binade x")
  case (Suc n)
  let ?P = "\<lambda>k. 2 ^ k \<le> x"
  have "takeWhile ?P [1..<65] ! n \<in> set (takeWhile ?P [1..<65])"
    using Suc by (intro nth_mem) (simp add: binade_def)
  then have "2 ^ (takeWhile ?P [1..<65] ! n) \<le> x" by (rule set_takeWhileD [THEN conjunct2])
  moreover have n: "n < length (takeWhile ?P [1..<65])" using Suc by (simp add: binade_def)
  then have "takeWhile ?P [1..<65] ! n = [1..<65] ! n" by (rule takeWhile_nth)
  moreover from n have "n < 64" using length_takeWhile_le [of ?P "[1..<65]"] by simp
  ultimately show ?thesis using Suc by simp
qed simp

lemma round_double_near:
  assumes "1 \<le> x"
  shows "x * (1 - 1 / 2 ^ 53) \<le> round_double x" and "round_double x \<le> x * (1 + 1 / 2 ^ 53)"
proof -
  define u :: rat where "u = 2 ^ binade x / 2 ^ 52"
  have u: "0 < u" "u \<le> x / 2 ^ 52" using binade_le [OF assms] by (simp_all add: u_def divide_right_mono)
  have r: "round_double x = of_int (round_even (x / u)) * u" using assms by (simp add: round_double_def u_def)
  have "\<bar>of_int (round_even (x / u)) - x / u\<bar> * u \<le> 1 / 2 * u"
    using round_even_near [of "x / u"] u(1) by (intro mult_right_mono) simp_all
  moreover have "\<bar>of_int (round_even (x / u)) - x / u\<bar> * u = \<bar>round_double x - x\<bar>"
  proof -
    have "round_double x - x = (of_int (round_even (x / u)) - x / u) * u"
      using u(1) by (simp add: r left_diff_distrib)
    then show ?thesis using u(1) by (simp add: abs_mult)
  qed
  ultimately have "\<bar>round_double x - x\<bar> \<le> x / 2 ^ 53" using u(2) by simp
  then have "x - x / 2 ^ 53 \<le> round_double x" "round_double x \<le> x + x / 2 ^ 53"
    by (simp_all only: abs_le_iff) linarith+
  then show "x * (1 - 1 / 2 ^ 53) \<le> round_double x" "round_double x \<le> x * (1 + 1 / 2 ^ 53)"
    by (simp_all only: distrib_left right_diff_distrib mult_1_right times_divide_eq_right)
qed

text \<open>A table asked for with load 0.67 has at least as many slots as asked, at most twice.\<close>

lemma quotient_67_bounds:
  fixes n :: nat
  assumes "0 < n"
  defines "r \<equiv> round_double (round_double (of_nat n) / double_67)"
  shows "of_nat n \<le> r" and "r \<le> 2 * of_nat n"
proof -
  define x :: rat where "x = of_nat n"
  define q where "q = round_double x / double_67"
  have x: "1 \<le> x" using assms by (simp add: x_def Suc_le_eq)
  note xr = round_double_near [OF x]
  have q: "x * (1 - 1 / 2 ^ 53) / double_67 \<le> q" "q \<le> x * (1 + 1 / 2 ^ 53) / double_67"
    unfolding q_def using xr by (simp_all add: double_67_def divide_right_mono)
  have q1: "x * (14 / 10) \<le> q" "q \<le> x * (15 / 10)"
    using q x by (simp_all add: double_67_def)
  then have "1 \<le> q" using x by simp
  from round_double_near [OF this] q1 x have "x \<le> round_double q" "round_double q \<le> 2 * x" by simp_all
  then show "of_nat n \<le> r" "r \<le> 2 * of_nat n" by (simp_all add: r_def q_def x_def)
qed

lemma size_quotient_67_ge:
  assumes "size_quotient sz double_67 = Some s"
  shows "unat sz \<le> s"
proof (cases "unat sz = 0")
  case False
  obtain n where n: "n = unat sz" by simp
  define r where "r = round_double (round_double (of_nat n) / double_67)"
  have "s = nat \<lfloor>r\<rfloor>"
    using assms unfolding size_quotient_def n [symmetric] r_def by (auto simp: size_of_double_def fault_simps)
  moreover have "int n \<le> \<lfloor>r\<rfloor>"
    using quotient_67_bounds(1) [of n] False n by (simp add: r_def le_floor_iff)
  ultimately show ?thesis unfolding n [symmetric] by linarith
qed simp

lemma size_quotient_67:
  assumes "unat sz < 2 ^ 60"
  shows "\<exists>s. size_quotient sz double_67 = Some s \<and> unat sz \<le> s \<and> s \<le> 2 * unat sz"
proof (cases "unat sz = 0")
  case True
  then show ?thesis by (simp add: size_quotient_def size_of_double_def round_double_def double_67_def unat_eq_0)
next
  case False
  obtain n where n: "n = unat sz" by simp
  define r where "r = round_double (round_double (of_nat n) / double_67)"
  have "(of_nat n :: rat) < of_nat (2 ^ 60)" using assms n by (simp only: of_nat_less_iff)
  moreover have b: "of_nat n \<le> r" "r \<le> 2 * of_nat n"
    using quotient_67_bounds [of n] False n by (simp_all add: r_def)
  moreover have "(0 :: rat) \<le> of_nat n" by simp
  ultimately have "-1 < r" "r < 2 ^ 64" by simp_all
  then have q: "size_quotient sz double_67 = Some (nat \<lfloor>r\<rfloor>)"
    unfolding size_quotient_def n [symmetric] by (simp add: size_of_double_def r_def double_67_def)
  have "\<lfloor>r\<rfloor> \<le> \<lfloor>of_nat (2 * n) :: rat\<rfloor>" using b(2) by (intro floor_mono) simp
  then have "\<lfloor>r\<rfloor> \<le> int (2 * n)" by (simp only: floor_of_nat)
  with q size_quotient_67_ge [OF q] show ?thesis unfolding n [symmetric]
    by (intro exI [of _ "nat \<lfloor>r\<rfloor>"]) auto
qed

text \<open>At load 1 the size survives, as long as it is exact as a double.\<close>

lemma round_double_nat:
  assumes "n < 2 ^ 53"
  shows "round_double (of_nat n) = of_nat n"
proof (cases "n = 0")
  case False
  define k where "k = binade (of_nat n)"
  have "(1 :: rat) \<le> of_nat n" using False by (simp add: Suc_le_eq)
  from binade_le [OF this] have "(of_nat (2 ^ k) :: rat) \<le> of_nat n" by (simp add: k_def)
  then have "2 ^ k \<le> n" by (simp only: of_nat_le_iff)
  with assms have "(2 :: nat) ^ k < 2 ^ 53" by simp
  then have "k < 53" by (rule power_less_imp_less_exp [rotated]) simp
  then have "k \<le> 52" by simp
  then have e: "(2 :: rat) ^ 52 = 2 ^ k * 2 ^ (52 - k)" by (simp flip: power_add)
  have "(of_nat n :: rat) / (2 ^ k / 2 ^ 52) = of_int (int n * 2 ^ (52 - k))" unfolding e by simp
  then have "round_double (of_nat n) = of_int (int n * 2 ^ (52 - k)) * (2 ^ k / 2 ^ 52)"
    using leD [OF \<open>1 \<le> of_nat n\<close>] by (simp only: round_double_def k_def [symmetric] Let_def round_even_int if_False)
  then show ?thesis unfolding e by simp
qed (simp add: round_double_def)

lemma size_quotient_1:
  assumes "unat sz < 2 ^ 53"
  shows "size_quotient sz 1 = Some (unat sz)"
proof -
  obtain n where n: "n = unat sz" by simp
  have "(of_nat n :: rat) < of_nat (2 ^ 64)" unfolding of_nat_less_iff n by (rule u64_less)
  moreover have "(-1 :: rat) < of_nat n" by (rule less_le_trans [of _ 0]) simp_all
  ultimately show ?thesis using assms unfolding size_quotient_def n [symmetric]
    by (simp add: round_double_nat size_of_double_def)
qed

lemma size_quotient_tests:
  "size_quotient 2 double_67 = Some 2" "size_quotient 16 double_67 = Some 23"
  "size_quotient 335 double_67 = Some 499" "size_quotient 0 double_67 = Some 0"
  by code_simp+

end
