(* ===== verification/Hashmap.thy ===== *)
theory Hashmap
  imports Doubles Sv
begin

unbundle bit_operations_syntax

text \<open>
  The open-addressing hash table of \<open>core/containers/hashmap.c\<close>: linear probing, deletion
  by tombstones, keys copied into the table.  The stored bytes of one element are a value of
  type \<open>'v\<close>; the slots are a list of \<open>size\<close> entries.  A lookup returns the slot it found,
  which stands for the pointer \<open>curr_entry->data\<close>.  The remainder by a zero \<open>size\<close>, a read
  through a null key and an access to a slot beyond the bytes allocated are faults.
\<close>

section \<open>Data\<close>

record 'v hashmap_entry =
  e_exists :: bool
  e_key :: "bytes option"
  e_tombstone :: bool
  e_data :: "'v option"

record 'v hashmap =
  hm_size :: nat
  hm_stride :: u64
  hm_entry_size :: u64
  hm_hash :: "bytes \<Rightarrow> u64"
  hm_entries :: "'v hashmap_entry list"

definition ALIGN_UP :: "u64 \<Rightarrow> u64 \<Rightarrow> u64" where
  "ALIGN_UP n a = (n + a - 1) AND NOT (a - 1)"

definition hash_fnv1a :: "bytes \<Rightarrow> u64" where
  "hash_fnv1a key =
     foldl (\<lambda>h c. (h XOR of_char c) * 1099511628211) 14695981039346656037 key"

text \<open>\<open>memset\<close> to zero of one entry.\<close>

definition zero_entry :: "'v hashmap_entry" where
  "zero_entry = \<lparr>e_exists = False, e_key = None, e_tombstone = False, e_data = None\<rparr>"

text \<open>\<open>sizeof (hashmap_entry)\<close> and \<open>alignof (max_align_t)\<close> on the 64-bit Linux target.\<close>

abbreviation SIZEOF_ENTRY :: u64 where "SIZEOF_ENTRY \<equiv> 32"
abbreviation MAX_ALIGN :: u64 where "MAX_ALIGN \<equiv> 16"

section \<open>Operations\<close>

text \<open>
  The slot count is a division of doubles.  The bytes of the table, \<open>entry_size * size\<close>, are
  counted modulo \<open>2 ^ 64\<close>; the entries are those that lie in the bytes allocated, so there are
  fewer than \<open>size\<close> when the product wraps.
\<close>

definition hashmap_create ::
  "u64 \<Rightarrow> rat \<Rightarrow> u64 \<Rightarrow> (bytes \<Rightarrow> u64) option \<Rightarrow> 'v hashmap option" where
  "hashmap_create sz load stride hash = do {
     slots \<leftarrow> size_quotient sz load;
     let entry_size = ALIGN_UP (SIZEOF_ENTRY + stride) MAX_ALIGN;
     let temp_size = entry_size * of_nat slots;
     Some \<lparr>hm_size = slots, hm_stride = stride,
       hm_entry_size = entry_size,
       hm_hash = (case hash of Some h \<Rightarrow> h | None \<Rightarrow> hash_fnv1a),
       hm_entries = replicate (unat temp_size div unat entry_size) zero_entry\<rparr>
   }"

text \<open>\<open>(start + i) % size\<close> for \<open>i = 0, 1, \<dots>\<close>, the sum modulo \<open>2 ^ 64\<close>; \<open>hash % 0\<close> is a fault.\<close>

definition probe_slots :: "'v hashmap \<Rightarrow> bytes \<Rightarrow> nat list" where
  "probe_slots hm key =
     (let start = unat (hm_hash hm key) mod hm_size hm
      in map (\<lambda>i. ((start + i) mod SIZE_MOD) mod hm_size hm) [0..<hm_size hm])"

definition probe :: "'v hashmap \<Rightarrow> bytes \<Rightarrow> nat list option" where
  "probe hm key = (if hm_size hm = 0 then None else Some (probe_slots hm key))"

text \<open>The test \<open>exists && _strcmp (curr_entry->key, \<dots>) == 0\<close>.\<close>

definition key_hit :: "'v hashmap_entry \<Rightarrow> bytes \<Rightarrow> bool option" where
  "key_hit e key =
     (if e_exists e then do { k \<leftarrow> e_key e; Some (c_strcmp k key = 0) } else Some False)"

fun hashmap_set_loop ::
  "'v hashmap_entry list \<Rightarrow> bytes \<Rightarrow> 'v \<Rightarrow> nat list \<Rightarrow> ('v hashmap_entry list \<times> bool) option"
where
  "hashmap_set_loop es key v [] = Some (es, False)"
| "hashmap_set_loop es key v (s # ss) =
     (let e = es ! s; e' = e\<lparr>e_data := Some v, e_key := Some key, e_exists := True\<rparr>
      in if \<not> s < length es then None
         else if e_exists e \<or> e_tombstone e
         then do {
           hit \<leftarrow> key_hit e key;
           if hit then Some (es[s := e'], True) else hashmap_set_loop es key v ss
         }
         else Some (es[s := e'], True))"

definition hashmap_set :: "'v hashmap \<Rightarrow> bytes \<Rightarrow> 'v \<Rightarrow> ('v hashmap \<times> bool) option" where
  "hashmap_set hm key v = do {
     ss \<leftarrow> probe hm key;
     (es, ok) \<leftarrow> hashmap_set_loop (hm_entries hm) key v ss;
     Some (hm\<lparr>hm_entries := es\<rparr>, ok)
   }"

fun hashmap_get_loop ::
  "'v hashmap_entry list \<Rightarrow> bytes \<Rightarrow> nat list \<Rightarrow> nat option option" where
  "hashmap_get_loop es key [] = Some None"
| "hashmap_get_loop es key (s # ss) =
     (let e = es ! s
      in if \<not> s < length es then None
         else if e_exists e \<or> e_tombstone e
         then do {
           hit \<leftarrow> key_hit e key;
           if hit then Some (Some s) else hashmap_get_loop es key ss
         }
         else Some None)"

definition hashmap_get :: "'v hashmap \<Rightarrow> bytes \<Rightarrow> nat option option" where
  "hashmap_get hm key = do {
     ss \<leftarrow> probe hm key;
     hashmap_get_loop (hm_entries hm) key ss
   }"

text \<open>The element a lookup's result points to.\<close>

definition hashmap_find :: "'v hashmap \<Rightarrow> bytes \<Rightarrow> 'v option option" where
  "hashmap_find hm key = do {
     r \<leftarrow> hashmap_get hm key;
     Some (Option.bind r (\<lambda>s. e_data (hm_entries hm ! s)))
   }"

fun hashmap_delete_loop ::
  "'v hashmap_entry list \<Rightarrow> bytes \<Rightarrow> nat list \<Rightarrow> ('v hashmap_entry list \<times> bool) option"
where
  "hashmap_delete_loop es key [] = Some (es, False)"
| "hashmap_delete_loop es key (s # ss) =
     (let e = es ! s
      in if \<not> s < length es then None
         else if e_exists e \<or> e_tombstone e
         then do {
           hit \<leftarrow> key_hit e key;
           if hit then Some (es[s := zero_entry\<lparr>e_tombstone := True\<rparr>], True)
           else hashmap_delete_loop es key ss
         }
         else Some (es, False))"

definition hashmap_delete :: "'v hashmap \<Rightarrow> bytes \<Rightarrow> ('v hashmap \<times> bool) option" where
  "hashmap_delete hm key = do {
     ss \<leftarrow> probe hm key;
     (es, ok) \<leftarrow> hashmap_delete_loop (hm_entries hm) key ss;
     Some (hm\<lparr>hm_entries := es\<rparr>, ok)
   }"

text \<open>
  The keys \<open>hashmap_destroy\<close> releases with \<open>sdsfree\<close>, in slot order.  Its loop, and the one of
  \<open>hashmap_rehash\<close>, visit all \<open>size\<close> slots.
\<close>

definition all_slots :: "'v hashmap \<Rightarrow> 'v hashmap_entry list option" where
  "all_slots hm = do {
     guard (hm_size hm \<le> length (hm_entries hm));
     Some (take (hm_size hm) (hm_entries hm))
   }"

definition hashmap_destroy :: "'v hashmap \<Rightarrow> bytes option list option" where
  "hashmap_destroy hm = do {
     es \<leftarrow> all_slots hm;
     Some (map e_key (filter e_exists es))
   }"

fun hashmap_rehash_loop :: "'v hashmap \<Rightarrow> 'v hashmap_entry list \<Rightarrow> 'v hashmap option" where
  "hashmap_rehash_loop new [] = Some new"
| "hashmap_rehash_loop new (e # es) =
     (if e_exists e
      then do {
        k \<leftarrow> e_key e;
        v \<leftarrow> e_data e;
        (new', ok) \<leftarrow> hashmap_set new k v;
        hashmap_rehash_loop new' es
      }
      else hashmap_rehash_loop new es)"

definition hashmap_rehash :: "'v hashmap \<Rightarrow> 'v hashmap option" where
  "hashmap_rehash hm = do {
     new \<leftarrow> hashmap_create (of_nat (hm_size hm)) 1 (hm_stride hm) (Some (hm_hash hm));
     es \<leftarrow> all_slots hm;
     new \<leftarrow> hashmap_rehash_loop new es;
     freed \<leftarrow> hashmap_destroy hm;
     Some new
   }"

section \<open>The interface its clients rely on\<close>

text \<open>
  A fixed table of key-value pairs: an invariant, the map it holds, the number of slots never
  used so far, and the three operations.  The laws say that a lookup reads the map, that
  storing under a present key replaces its value, that storing under a new key takes one
  never-used slot or is refused when none is left, and that deletion gives no slot back.
\<close>

datatype 'v table_op = Put bytes 'v | Remove bytes

fun run_table ::
  "('t \<Rightarrow> bytes \<Rightarrow> 'v \<Rightarrow> ('t \<times> bool) option) \<Rightarrow> ('t \<Rightarrow> bytes \<Rightarrow> ('t \<times> bool) option) \<Rightarrow>
   't \<Rightarrow> 'v table_op list \<Rightarrow> 't option" where
  "run_table store remove t [] = Some t"
| "run_table store remove t (Put k v # ops) =
     do { (t', ok) \<leftarrow> store t k v; run_table store remove t' ops }"
| "run_table store remove t (Remove k # ops) =
     do { (t', ok) \<leftarrow> remove t k; run_table store remove t' ops }"

fun map_op :: "(bytes \<Rightarrow> 'v option) \<Rightarrow> 'v table_op \<Rightarrow> (bytes \<Rightarrow> 'v option)" where
  "map_op m (Put k v) = m(k \<mapsto> v)"
| "map_op m (Remove k) = m(k := None)"

fun puts :: "'v table_op list \<Rightarrow> nat" where
  "puts [] = 0"
| "puts (Put k v # ops) = Suc (puts ops)"
| "puts (Remove k # ops) = puts ops"

locale slot_table =
  fixes inv :: "'t \<Rightarrow> bool"
    and abs :: "'t \<Rightarrow> bytes \<Rightarrow> 'v option"
    and room :: "'t \<Rightarrow> nat"
    and get :: "'t \<Rightarrow> bytes \<Rightarrow> 'v option option"
    and set :: "'t \<Rightarrow> bytes \<Rightarrow> 'v \<Rightarrow> ('t \<times> bool) option"
    and del :: "'t \<Rightarrow> bytes \<Rightarrow> ('t \<times> bool) option"
  assumes get_law: "inv t \<Longrightarrow> get t k = Some (abs t k)"
    and set_hit: "inv t \<Longrightarrow> abs t k \<noteq> None \<Longrightarrow>
      \<exists>t'. set t k v = Some (t', True) \<and> inv t' \<and> abs t' = (abs t)(k \<mapsto> v) \<and> room t' = room t"
    and set_new: "inv t \<Longrightarrow> abs t k = None \<Longrightarrow> 0 < room t \<Longrightarrow>
      \<exists>t'. set t k v = Some (t', True) \<and> inv t' \<and> abs t' = (abs t)(k \<mapsto> v) \<and>
        room t' = room t - 1"
    and set_full: "inv t \<Longrightarrow> abs t k = None \<Longrightarrow> room t = 0 \<Longrightarrow> set t k v = Some (t, False)"
    and del_law: "inv t \<Longrightarrow>
      \<exists>t'. del t k = Some (t', abs t k \<noteq> None) \<and> inv t' \<and> abs t' = (abs t)(k := None) \<and>
        room t' = room t"
begin

text \<open>
  A run of stores and deletions: as long as no more stores are made than slots were never
  used, every operation succeeds and the table holds the map the run describes.
\<close>

lemma run_law:
  assumes "inv t" and "puts ops \<le> room t"
  shows "\<exists>t'. run_table set del t ops = Some t' \<and> inv t' \<and> abs t' = foldl map_op (abs t) ops \<and>
    room t - puts ops \<le> room t'"
  using assms
proof (induction ops arbitrary: t)
  case (Cons opn ops)
  show ?case
  proof (cases opn)
    case (Put k v)
    from Cons.prems Put obtain t1 where t1: "set t k v = Some (t1, True)" "inv t1"
        "abs t1 = (abs t)(k \<mapsto> v)" "room t - 1 \<le> room t1"
      using set_hit [of t k v] set_new [of t k v] by (cases "abs t k") auto
    with Cons.prems Put have "puts ops \<le> room t1" by simp
    from Cons.IH [OF t1(2) this] obtain t' where "run_table set del t1 ops = Some t'" "inv t'"
        "abs t' = foldl map_op (abs t1) ops" "room t1 - puts ops \<le> room t'" by blast
    with t1 Put show ?thesis by simp
  next
    case (Remove k)
    from Cons.prems obtain t1 where "del t k = Some (t1, abs t k \<noteq> None)" "inv t1"
        "abs t1 = (abs t)(k := None)" "room t1 = room t" using del_law by blast
    note t1 = this
    with Cons.prems Remove have "puts ops \<le> room t1" by simp
    from Cons.IH [OF t1(2) this] obtain t' where "run_table set del t1 ops = Some t'" "inv t'"
        "abs t' = foldl map_op (abs t1) ops" "room t1 - puts ops \<le> room t'" by blast
    with t1 Remove show ?thesis by simp
  qed
qed simp

text \<open>A run never faults and keeps the invariant, full table or not.\<close>

lemma run_inv:
  assumes "inv t"
  shows "\<exists>t'. run_table set del t ops = Some t' \<and> inv t'"
  using assms
proof (induction ops arbitrary: t)
  case (Cons opn ops)
  show ?case
  proof (cases opn)
    case (Put k v)
    obtain t1 ok where "set t k v = Some (t1, ok)" "inv t1"
      using Cons.prems set_hit [of t k v] set_new [of t k v] set_full [of t k v] by blast
    with Cons.IH [of t1] Put show ?thesis by simp
  next
    case (Remove k)
    obtain t1 ok where "del t k = Some (t1, ok)" "inv t1"
      using Cons.prems del_law [of t k] by blast
    with Cons.IH [of t1] Remove show ?thesis by simp
  qed
qed simp

text \<open>
  Deletion gives no slot back: storing and deleting fresh keys, one after the other, uses the
  table up, after which it is empty and refuses every key.
\<close>

lemma churn_law:
  assumes "inv t" and "abs t = Map.empty" and "room t = length kvs"
  shows "\<exists>t'. run_table set del t (concat (map (\<lambda>(k, v). [Put k v, Remove k]) kvs)) = Some t' \<and>
    inv t' \<and> abs t' = Map.empty \<and> room t' = 0"
  using assms
proof (induction kvs arbitrary: t)
  case (Cons kv kvs)
  obtain k v where kv: "kv = (k, v)" by (cases kv)
  from Cons.prems obtain t1 where t1: "set t k v = Some (t1, True)" "inv t1"
      "abs t1 = Map.empty(k \<mapsto> v)" "room t1 = length kvs"
    using set_new [of t k v] by auto
  then obtain t2 where t2: "del t1 k = Some (t2, True)" "inv t2" "abs t2 = Map.empty"
      "room t2 = length kvs"
    using del_law [of t1 k] by auto
  from Cons.IH [OF t2(2-4)] t1(1) t2(1) show ?case by (auto simp: kv)
qed auto

lemma full_refuses: "inv t \<Longrightarrow> abs t = Map.empty \<Longrightarrow> room t = 0 \<Longrightarrow> set t k v = Some (t, False)"
  by (rule set_full) simp_all

end

section \<open>The invariant and the map a table holds\<close>

definition used :: "'v hashmap_entry \<Rightarrow> bool" where
  "used e \<longleftrightarrow> e_exists e \<or> e_tombstone e"

definition holds :: "'v hashmap_entry \<Rightarrow> bytes \<Rightarrow> bool" where
  "holds e key \<longleftrightarrow> e_exists e \<and> e_key e = Some key"

definition entry_ok :: "'v hashmap_entry \<Rightarrow> bool" where
  "entry_ok e \<longleftrightarrow>
     (if e_exists e then e_key e \<noteq> None \<and> e_data e \<noteq> None \<and> \<not> e_tombstone e
      else e_key e = None)"

text \<open>
  Every stored key is stored once, and every slot on its probe path before it has been used,
  so that the search for it does not stop early.
\<close>

definition hm_inv :: "'v hashmap \<Rightarrow> bool" where
  "hm_inv hm \<longleftrightarrow>
     0 < hm_size hm \<and> 2 * hm_size hm \<le> SIZE_MOD \<and> length (hm_entries hm) = hm_size hm \<and>
     (\<forall>i<hm_size hm. entry_ok (hm_entries hm ! i)) \<and>
     (\<forall>i<hm_size hm. \<forall>j<hm_size hm. \<forall>k.
        holds (hm_entries hm ! i) k \<longrightarrow> holds (hm_entries hm ! j) k \<longrightarrow> i = j) \<and>
     (\<forall>i<hm_size hm. \<forall>k. holds (hm_entries hm ! i) k \<longrightarrow>
        (\<exists>as bs. probe_slots hm k = as @ i # bs \<and> (\<forall>s\<in>set as. used (hm_entries hm ! s))))"

definition hm_map :: "'v hashmap \<Rightarrow> bytes \<Rightarrow> 'v option" where
  "hm_map hm k = Option.bind (find (\<lambda>e. holds e k) (hm_entries hm)) e_data"

text \<open>The slots never used since the table was made: neither occupied nor tombstones.\<close>

definition hm_unused :: "'v hashmap \<Rightarrow> nat" where
  "hm_unused hm = length (filter (\<lambda>e. \<not> used e) (hm_entries hm))"

subsection \<open>Probe paths\<close>

text \<open>A table of at most \<open>2 ^ 63\<close> slots is probed without a wrap.\<close>

lemma probe_slots_nowrap:
  assumes "0 < hm_size hm" and "2 * hm_size hm \<le> SIZE_MOD"
  shows "probe_slots hm k =
    map (\<lambda>i. (unat (hm_hash hm k) mod hm_size hm + i) mod hm_size hm) [0..<hm_size hm]"
proof -
  have "unat (hm_hash hm k) mod hm_size hm < hm_size hm" using assms(1) by simp
  with assms(2) show ?thesis by (auto simp: probe_slots_def Let_def)
qed

lemma probe_slots_distinct:
  assumes "0 < hm_size hm" and "2 * hm_size hm \<le> SIZE_MOD"
  shows "distinct (probe_slots hm k)"
proof -
  have "inj_on (\<lambda>i. (a + i) mod n) {0..<n}" for a n :: nat
  proof (rule linorder_inj_onI')
    fix i j assume "i \<in> {0..<n}" "j \<in> {0..<n}" and "i < j"
    then have "\<not> n dvd j - i" by (auto dest: dvd_imp_le)
    then show "(a + i) mod n \<noteq> (a + j) mod n"
      using \<open>i < j\<close> mod_eq_dvd_iff_nat [of "a + i" "a + j" n] by (metis add_diff_cancel_left
        add_le_cancel_left less_imp_le)
  qed
  then show ?thesis by (simp add: probe_slots_nowrap [OF assms] distinct_map)
qed

lemma probe_slots_set:
  assumes "0 < hm_size hm" and "2 * hm_size hm \<le> SIZE_MOD"
  shows "set (probe_slots hm k) = {..<hm_size hm}"
proof (rule card_subset_eq)
  show "card (set (probe_slots hm k)) = card {..<hm_size hm}"
    using distinct_card [OF probe_slots_distinct [OF assms, of k]] by (simp add: probe_slots_nowrap [OF assms])
qed (use assms in \<open>auto simp: probe_slots_nowrap [OF assms]\<close>)

lemma probe_slots_cong:
  "hm_size hm' = hm_size hm \<Longrightarrow> hm_hash hm' = hm_hash hm \<Longrightarrow>
   probe_slots hm' k = probe_slots hm k"
  by (simp add: probe_slots_def)

subsection \<open>The three loops\<close>

lemma key_hit_ok [simp]: "entry_ok e \<Longrightarrow> key_hit e key = Some (holds e key)"
  by (auto simp: key_hit_def entry_ok_def holds_def split: if_splits)

text \<open>A loop passes over the slots that are used by other keys or are tombstones.\<close>

definition passed :: "'v hashmap_entry list \<Rightarrow> bytes \<Rightarrow> nat list \<Rightarrow> bool" where
  "passed es key ss \<longleftrightarrow> (\<forall>s\<in>set ss. s < length es \<and> entry_ok (es ! s) \<and> used (es ! s) \<and> \<not> holds (es ! s) key)"

lemma passed_Cons [simp]:
  "passed es key [] \<longleftrightarrow> True"
  "passed es key (s # ss) \<longleftrightarrow>
     s < length es \<and> entry_ok (es ! s) \<and> used (es ! s) \<and> \<not> holds (es ! s) key \<and> passed es key ss"
  by (auto simp: passed_def)

lemma loops_skip:
  assumes "passed es key as"
  shows "hashmap_get_loop es key (as @ ss) = hashmap_get_loop es key ss"
    and "hashmap_set_loop es key v (as @ ss) = hashmap_set_loop es key v ss"
    and "hashmap_delete_loop es key (as @ ss) = hashmap_delete_loop es key ss"
  using assms by (induction as) (auto simp: used_def Let_def)

lemma loops_hit:
  assumes "s < length es" and "entry_ok (es ! s)" and "holds (es ! s) key"
  shows "hashmap_get_loop es key (s # ss) = Some (Some s)"
    and "hashmap_set_loop es key v (s # ss) =
      Some (es[s := (es ! s)\<lparr>e_data := Some v, e_key := Some key, e_exists := True\<rparr>], True)"
    and "hashmap_delete_loop es key (s # ss) = Some (es[s := zero_entry\<lparr>e_tombstone := True\<rparr>], True)"
  using assms by (auto simp: Let_def holds_def)

lemma loops_gap:
  assumes "s < length es" and "\<not> used (es ! s)"
  shows "hashmap_get_loop es key (s # ss) = Some None"
    and "hashmap_set_loop es key v (s # ss) =
      Some (es[s := (es ! s)\<lparr>e_data := Some v, e_key := Some key, e_exists := True\<rparr>], True)"
    and "hashmap_delete_loop es key (s # ss) = Some (es, False)"
  using assms by (auto simp: Let_def used_def)

declare hashmap_get_loop.simps(2) [simp del] hashmap_set_loop.simps(2) [simp del]
  hashmap_delete_loop.simps(2) [simp del]

lemma loop_cases:
  assumes "\<forall>s\<in>set ss. s < length es \<and> entry_ok (es ! s)"
  obtains (hit) as s bs where "ss = as @ s # bs" "passed es key as" "holds (es ! s) key"
  | (gap) as s bs where "ss = as @ s # bs" "passed es key as" "\<not> used (es ! s)"
  | (full) "passed es key ss"
proof (cases "\<exists>s\<in>set ss. holds (es ! s) key \<or> \<not> used (es ! s)")
  case True
  then obtain as s bs where "ss = as @ s # bs" "holds (es ! s) key \<or> \<not> used (es ! s)"
    "\<forall>a\<in>set as. \<not> (holds (es ! a) key \<or> \<not> used (es ! a))"
    using split_list_first_prop [OF True] by blast
  moreover from this have "passed es key as" using assms by (auto simp: passed_def)
  ultimately show ?thesis using hit gap by blast
next
  case False
  with assms have "passed es key ss" by (auto simp: passed_def)
  then show ?thesis by (rule full)
qed

subsection \<open>Reading the map off the slots\<close>

lemma holds_unique: "holds e k \<Longrightarrow> holds e k' \<Longrightarrow> k = k'"
  by (simp add: holds_def)

lemma holds_used: "holds e k \<Longrightarrow> used e"
  by (simp add: holds_def used_def)

lemma hm_map_None:
  assumes "hm_inv hm"
  shows "hm_map hm k = None \<longleftrightarrow> (\<forall>i<hm_size hm. \<not> holds (hm_entries hm ! i) k)"
proof -
  have "find (\<lambda>e. holds e k) (hm_entries hm) = None \<longleftrightarrow>
      (\<forall>i<hm_size hm. \<not> holds (hm_entries hm ! i) k)"
    using assms by (auto simp: find_None_iff in_set_conv_nth hm_inv_def)
  moreover have "e_data e \<noteq> None" if "find (\<lambda>e. holds e k) (hm_entries hm) = Some e" for e
    using that assms by (auto simp: find_Some_iff hm_inv_def entry_ok_def holds_def
        split: if_splits)
  ultimately show ?thesis
    by (cases "find (\<lambda>e. holds e k) (hm_entries hm)") (auto simp: hm_map_def)
qed

lemma hm_map_holds:
  assumes "hm_inv hm" and "i < hm_size hm" and "holds (hm_entries hm ! i) k"
  shows "hm_map hm k = e_data (hm_entries hm ! i)"
proof -
  have "find (\<lambda>e. holds e k) (hm_entries hm) = Some (hm_entries hm ! i)"
    unfolding find_Some_iff using assms
    by (intro exI [of _ i]) (auto simp: hm_inv_def, metis less_trans less_irrefl)
  then show ?thesis by (simp add: hm_map_def)
qed

lemma hm_map_eqI:
  assumes "hm_inv hm"
    and "\<And>i k. i < hm_size hm \<Longrightarrow> holds (hm_entries hm ! i) k \<Longrightarrow> m k = e_data (hm_entries hm ! i)"
    and "\<And>k. (\<And>i. i < hm_size hm \<Longrightarrow> \<not> holds (hm_entries hm ! i) k) \<Longrightarrow> m k = None"
  shows "hm_map hm = m"
proof
  fix k
  show "hm_map hm k = m k"
  proof (cases "\<exists>i<hm_size hm. holds (hm_entries hm ! i) k")
    case True
    then obtain i where "i < hm_size hm" "holds (hm_entries hm ! i) k" by blast
    with assms(2) hm_map_holds [OF assms(1)] show ?thesis by simp
  next
    case False
    then have "m k = None" using assms(3) by blast
    moreover from False have "hm_map hm k = None" by (simp add: hm_map_None [OF assms(1)])
    ultimately show ?thesis by simp
  qed
qed

text \<open>Where the search for a key ends.\<close>

lemma search_cases:
  assumes inv: "hm_inv hm"
  obtains (hit) as s bs where "probe_slots hm key = as @ s # bs" "passed (hm_entries hm) key as"
      "holds (hm_entries hm ! s) key" "s < hm_size hm"
  | (gap) as s bs where "probe_slots hm key = as @ s # bs" "passed (hm_entries hm) key as"
      "\<not> used (hm_entries hm ! s)" "s < hm_size hm" "hm_map hm key = None"
  | (full) "passed (hm_entries hm) key (probe_slots hm key)" "hm_map hm key = None"
      "hm_unused hm = 0"
proof -
  let ?es = "hm_entries hm"
  have slots: "set (probe_slots hm key) = {..<hm_size hm}"
    using inv by (simp add: probe_slots_set hm_inv_def)
  have "\<forall>s\<in>set (probe_slots hm key). s < length ?es \<and> entry_ok (?es ! s)"
    using inv slots by (simp add: hm_inv_def)
  then show thesis
  proof (cases rule: loop_cases [where key = key])
    case (hit as s bs)
    moreover from hit(1) slots have "s < hm_size hm" by (metis in_set_conv_decomp lessThan_iff)
    ultimately show thesis using that(1) by blast
  next
    case (gap as s bs)
    have s: "s < hm_size hm" using gap(1) slots by (metis in_set_conv_decomp lessThan_iff)
    have "\<not> holds (?es ! i) key" if i: "i < hm_size hm" for i
    proof
      assume h: "holds (?es ! i) key"
      with i inv obtain as' bs' where "probe_slots hm key = as' @ i # bs'"
        "\<forall>a\<in>set as'. used (?es ! a)" unfolding hm_inv_def by blast
      with gap h show False
        by (auto simp: append_eq_append_conv2 passed_def append_eq_Cons_conv Cons_eq_append_conv
            holds_used)
    qed
    with s gap show thesis using that(2) by (simp add: hm_map_None [OF inv])
  next
    case full
    with slots have p: "\<forall>i<hm_size hm. used (?es ! i) \<and> \<not> holds (?es ! i) key"
      by (auto simp: passed_def)
    then have "hm_map hm key = None" by (simp add: hm_map_None [OF inv])
    moreover from p inv have "\<forall>e\<in>set ?es. used e" by (auto simp: hm_inv_def in_set_conv_nth)
    then have "hm_unused hm = 0" by (simp add: hm_unused_def)
    ultimately show thesis using full that(3) by blast
  qed
qed

subsection \<open>Lookup\<close>

lemma hm_inv_probe: "hm_inv hm \<Longrightarrow> probe hm k = Some (probe_slots hm k)"
  by (simp add: probe_def hm_inv_def)

lemma hm_invD:
  assumes "hm_inv hm"
  shows "0 < hm_size hm" and "length (hm_entries hm) = hm_size hm"
    and "i < hm_size hm \<Longrightarrow> entry_ok (hm_entries hm ! i)"
  using assms by (simp_all add: hm_inv_def)

lemma hashmap_get_spec:
  assumes inv: "hm_inv hm"
  shows "\<exists>r. hashmap_get hm k = Some r \<and>
    (case r of None \<Rightarrow> hm_map hm k = None
     | Some s \<Rightarrow> s < hm_size hm \<and> holds (hm_entries hm ! s) k)"
  using inv
proof (cases rule: search_cases [where key = k])
  case (hit as s bs)
  moreover from hit inv have "entry_ok (hm_entries hm ! s)" by (simp add: hm_inv_def)
  ultimately show ?thesis
    by (simp add: hashmap_get_def hm_inv_probe [OF inv] loops_skip loops_hit hm_invD [OF inv])
next
  case (gap as s bs)
  then show ?thesis by (simp add: hashmap_get_def hm_inv_probe [OF inv] loops_skip loops_gap hm_invD [OF inv])
next
  case full
  then show ?thesis
    using loops_skip(1) [OF full(1), of "[]"] by (simp add: hashmap_get_def hm_inv_probe [OF inv])
qed

lemma hashmap_get_None:
  assumes "hm_inv hm" and "hm_map hm k = None"
  shows "hashmap_get hm k = Some None"
  using hashmap_get_spec [OF assms(1), of k] assms by (auto simp: hm_map_None split: option.splits)

lemma hashmap_get_Some:
  assumes "hm_inv hm" and "hm_map hm k = Some v"
  shows "\<exists>s. hashmap_get hm k = Some (Some s) \<and> e_data (hm_entries hm ! s) = Some v"
  using hashmap_get_spec [OF assms(1), of k] assms hm_map_holds [OF assms(1), of _ k]
  by (fastforce split: option.splits)

lemma hashmap_find_map: "hm_inv hm \<Longrightarrow> hashmap_find hm k = Some (hm_map hm k)"
  using hashmap_get_spec [of hm k] by (fastforce simp: hashmap_find_def hm_map_holds
    split: option.splits)

subsection \<open>Changing one slot\<close>

text \<open>
  Overwriting the entry of one slot: what the operations do to the table.  The new entry may
  hold a key only if no other slot does and the slot is reached on the key's probe path; it
  must not make a used slot look unused.
\<close>

lemma update_slot:
  assumes inv: "hm_inv hm" and s: "s < hm_size hm"
    and e': "entry_ok e'" "used (hm_entries hm ! s) \<Longrightarrow> used e'"
    and new: "\<And>k. holds e' k \<Longrightarrow>
      (\<forall>i<hm_size hm. i \<noteq> s \<longrightarrow> \<not> holds (hm_entries hm ! i) k) \<and>
      (\<exists>as bs. probe_slots hm k = as @ s # bs \<and> (\<forall>a\<in>set as. used (hm_entries hm ! a)))"
  defines "hm' \<equiv> hm\<lparr>hm_entries := (hm_entries hm)[s := e']\<rparr>"
  shows "hm_inv hm'"
    and "hm_map hm' = (\<lambda>k. if holds e' k then e_data e'
      else if holds (hm_entries hm ! s) k then None else hm_map hm k)"
proof -
  have len: "length (hm_entries hm) = hm_size hm" using inv by (simp add: hm_inv_def)
  have nth: "hm_entries hm' ! i = (if i = s then e' else hm_entries hm ! i)" if "i < hm_size hm" for i
    using that len s by (simp add: hm'_def)
  have used: "used (hm_entries hm ! i) \<Longrightarrow> used (hm_entries hm' ! i)" if "i < hm_size hm" for i
    using that e' by (auto simp: nth)
  have lt: "set (probe_slots hm k) = {..<hm_size hm}" for k
    using inv by (simp add: probe_slots_set hm_inv_def)
  have same: "hm_size hm' = hm_size hm" "probe_slots hm' k = probe_slots hm k" for k
    by (simp_all add: hm'_def cong: probe_slots_cong)
  have probes: "\<exists>as bs. probe_slots hm k = as @ i # bs \<and> (\<forall>a\<in>set as. used (hm_entries hm' ! a))"
    if i: "i < hm_size hm" and h: "holds (hm_entries hm' ! i) k" for i k
  proof -
    obtain as bs where *: "probe_slots hm k = as @ i # bs" "\<forall>a\<in>set as. used (hm_entries hm ! a)"
      using i h inv new nth [OF i] unfolding hm_inv_def by (metis (no_types))
    moreover from *(1) lt [of k] have "set as \<subseteq> {..<hm_size hm}" by auto
    ultimately show ?thesis using used by (meson lessThan_iff subsetD)
  qed
  show inv': "hm_inv hm'"
    unfolding hm_inv_def same
  proof (intro conjI allI impI)
    show "0 < hm_size hm" "2 * hm_size hm \<le> SIZE_MOD" using inv by (simp_all add: hm_inv_def)
    show "length (hm_entries hm') = hm_size hm" by (simp add: hm'_def len)
    show "entry_ok (hm_entries hm' ! i)" if "i < hm_size hm" for i
      using that inv e' by (simp add: nth hm_inv_def)
    show "i = j" if "i < hm_size hm" "j < hm_size hm"
      "holds (hm_entries hm' ! i) k" "holds (hm_entries hm' ! j) k" for i j k
      using that inv new nth unfolding hm_inv_def by metis
  qed (fact probes)
  show "hm_map hm' = (\<lambda>k. if holds e' k then e_data e'
      else if holds (hm_entries hm ! s) k then None else hm_map hm k)"
  proof (rule hm_map_eqI [OF inv'], unfold same)
    fix i k assume i: "i < hm_size hm" "holds (hm_entries hm' ! i) k"
    have "\<not> holds (hm_entries hm ! s) k" if "i \<noteq> s"
      using that i s inv nth unfolding hm_inv_def by metis
    with i new [of k] show "(if holds e' k then e_data e'
        else if holds (hm_entries hm ! s) k then None else hm_map hm k)
      = e_data (hm_entries hm' ! i)"
      by (auto simp: nth hm_map_holds [OF inv] split: if_splits)
  next
    fix k assume n: "\<And>i. i < hm_size hm \<Longrightarrow> \<not> holds (hm_entries hm' ! i) k"
    then have "\<not> holds e' k" using s nth by metis
    moreover have "hm_map hm k = None" if "\<not> holds (hm_entries hm ! s) k"
      unfolding hm_map_None [OF inv] using that n nth by metis
    ultimately show "(if holds e' k then e_data e'
        else if holds (hm_entries hm ! s) k then None else hm_map hm k) = None" by simp
  qed
qed

lemma hm_unused_update:
  assumes "s < length (hm_entries hm)"
  shows "hm_unused (hm\<lparr>hm_entries := (hm_entries hm)[s := e']\<rparr>) + (if used e' then 1 else 0) =
    hm_unused hm + (if used (hm_entries hm ! s) then 1 else 0)"
proof -
  let ?P = "\<lambda>e. \<not> used e" and ?es = "hm_entries hm"
  have split: "?es = take s ?es @ ?es ! s # drop (Suc s) ?es"
    using assms by (rule id_take_nth_drop)
  have "?es[s := e'] = take s ?es @ e' # drop (Suc s) ?es"
    using assms by (simp add: upd_conv_take_nth_drop)
  moreover have "length (filter ?P ?es) =
      length (filter ?P (take s ?es @ ?es ! s # drop (Suc s) ?es))"
    using split by simp
  ultimately show ?thesis by (simp add: hm_unused_def)
qed

subsection \<open>Insertion and deletion\<close>

lemma passed_used: "passed es key as \<Longrightarrow> \<forall>a\<in>set as. used (es ! a)"
  by (simp add: passed_def)

text \<open>The entry \<open>hashmap_set\<close> writes, in a slot that holds the key or nothing.\<close>

lemma store_slot:
  fixes v :: 'v
  assumes inv: "hm_inv hm" and s: "s < hm_size hm"
    and path: "probe_slots hm key = as @ s # bs" "passed (hm_entries hm) key as"
    and uniq: "\<forall>i<hm_size hm. i \<noteq> s \<longrightarrow> \<not> holds (hm_entries hm ! i) key"
    and old: "holds (hm_entries hm ! s) key \<or> \<not> used (hm_entries hm ! s)"
  defines "e' \<equiv> (hm_entries hm ! s)\<lparr>e_data := Some v, e_key := Some key, e_exists := True\<rparr>"
  defines "hm' \<equiv> hm\<lparr>hm_entries := (hm_entries hm)[s := e']\<rparr>"
  shows "hm_inv hm'" and "hm_map hm' = (hm_map hm)(key \<mapsto> v)"
    and "hm_unused hm' = (if holds (hm_entries hm ! s) key then hm_unused hm else hm_unused hm - 1)"
proof -
  have e': "entry_ok e'" "used e'" "e_data e' = Some v" "holds e' k \<longleftrightarrow> k = key" for k
    using hm_invD(3) [OF inv s] old by (auto simp: e'_def entry_ok_def used_def holds_def)
  have new: "(\<forall>i<hm_size hm. i \<noteq> s \<longrightarrow> \<not> holds (hm_entries hm ! i) k) \<and>
      (\<exists>as bs. probe_slots hm k = as @ s # bs \<and> (\<forall>a\<in>set as. used (hm_entries hm ! a)))"
    if "holds e' k" for k
    using that uniq path(1) passed_used [OF path(2)] unfolding e'(4) by blast
  show "hm_inv hm'"
    unfolding hm'_def by (rule update_slot(1) [OF inv s e'(1,2) new])
  have "hm_map hm' = (\<lambda>k. if holds e' k then e_data e'
      else if holds (hm_entries hm ! s) k then None else hm_map hm k)"
    unfolding hm'_def by (rule update_slot(2) [OF inv s e'(1,2) new])
  then show "hm_map hm' = (hm_map hm)(key \<mapsto> v)"
    using old by (auto simp: e' fun_eq_iff dest: holds_unique holds_used)
  show "hm_unused hm' = (if holds (hm_entries hm ! s) key then hm_unused hm else hm_unused hm - 1)"
    using hm_unused_update [of s hm e'] s hm_invD(2) [OF inv] old e'(2)
    by (auto simp: hm'_def dest: holds_used)
qed

text \<open>The tombstone \<open>hashmap_delete\<close> writes.\<close>

lemma bury_slot:
  assumes inv: "hm_inv hm" and s: "s < hm_size hm" and h: "holds (hm_entries hm ! s) key"
  defines "hm' \<equiv> hm\<lparr>hm_entries := (hm_entries hm)[s := zero_entry\<lparr>e_tombstone := True\<rparr>]\<rparr>"
  shows "hm_inv hm'" and "hm_map hm' = (hm_map hm)(key := None)" and "hm_unused hm' = hm_unused hm"
proof -
  let ?e = "zero_entry\<lparr>e_tombstone := True\<rparr> :: 'a hashmap_entry"
  have e: "entry_ok ?e" "used ?e" "\<not> holds ?e k" for k
    by (simp_all add: entry_ok_def used_def holds_def zero_entry_def)
  show "hm_inv hm'"
    unfolding hm'_def by (rule update_slot(1) [OF inv s e(1,2)]) (simp add: e(3))
  have "hm_map hm' = (\<lambda>k. if holds ?e k then e_data ?e
      else if holds (hm_entries hm ! s) k then None else hm_map hm k)"
    unfolding hm'_def by (rule update_slot(2) [OF inv s e(1,2)]) (simp add: e(3))
  then show "hm_map hm' = (hm_map hm)(key := None)"
    using h e(3) by (auto simp: fun_eq_iff dest: holds_unique)
  show "hm_unused hm' = hm_unused hm"
    using hm_unused_update [of s hm ?e] s hm_invD(2) [OF inv] holds_used [OF h] e(2)
    by (simp add: hm'_def del: hm_unused_update)
qed

lemma hashmap_set_room:
  assumes inv: "hm_inv hm" and room: "hm_map hm key \<noteq> None \<or> 0 < hm_unused hm"
  shows "\<exists>hm'. hashmap_set hm key v = Some (hm', True) \<and> hm_inv hm' \<and>
    hm_map hm' = (hm_map hm)(key \<mapsto> v) \<and>
    hm_unused hm' = (if hm_map hm key = None then hm_unused hm - 1 else hm_unused hm)"
  using inv
proof (cases rule: search_cases [where key = key])
  case (hit as s bs)
  have uniq: "\<forall>i<hm_size hm. i \<noteq> s \<longrightarrow> \<not> holds (hm_entries hm ! i) key"
    using inv hit unfolding hm_inv_def by metis
  have "hm_map hm key \<noteq> None" using hit inv by (auto simp: hm_map_None)
  with store_slot [OF inv hit(4,1,2) uniq, of v] hit show ?thesis
    by (auto simp: hashmap_set_def hm_inv_probe [OF inv] loops_skip loops_hit hm_invD [OF inv])
next
  case (gap as s bs)
  have uniq: "\<forall>i<hm_size hm. i \<noteq> s \<longrightarrow> \<not> holds (hm_entries hm ! i) key"
    using gap(5) by (simp add: hm_map_None [OF inv])
  with store_slot [OF inv gap(4,1,2) uniq, of v] gap show ?thesis
    by (auto simp: hashmap_set_def hm_inv_probe [OF inv] loops_skip loops_gap hm_invD [OF inv] dest: holds_used)
next
  case full
  with room show ?thesis by simp
qed

lemma hashmap_set_no_room:
  assumes inv: "hm_inv hm" and none: "hm_map hm key = None" and full: "hm_unused hm = 0"
  shows "hashmap_set hm key v = Some (hm, False)"
  using inv
proof (cases rule: search_cases [where key = key])
  case (hit as s bs)
  with none inv show ?thesis by (auto simp: hm_map_None)
next
  case (gap as s bs)
  with full inv have False by (auto simp: hm_unused_def hm_inv_def filter_empty_conv)
  then show ?thesis ..
next
  case full
  then show ?thesis
    using loops_skip(2) [OF full(1), of v "[]"] by (simp add: hashmap_set_def hm_inv_probe [OF inv])
qed

lemma hashmap_delete_spec:
  assumes inv: "hm_inv hm"
  shows "\<exists>hm'. hashmap_delete hm key = Some (hm', hm_map hm key \<noteq> None) \<and> hm_inv hm' \<and>
    hm_map hm' = (hm_map hm)(key := None) \<and> hm_unused hm' = hm_unused hm"
  using inv
proof (cases rule: search_cases [where key = key])
  case (hit as s bs)
  have "hm_map hm key \<noteq> None" using hit inv by (auto simp: hm_map_None)
  with bury_slot [OF inv hit(4,3)] hit show ?thesis
    by (simp add: hashmap_delete_def hm_inv_probe [OF inv] loops_skip loops_hit hm_invD [OF inv])
next
  case (gap as s bs)
  then show ?thesis
    using inv by (auto simp: hashmap_delete_def hm_inv_probe loops_skip loops_gap hm_invD [OF inv])
next
  case full
  then show ?thesis
    using inv loops_skip(3) [OF full(1), of "[]"] by (auto simp: hashmap_delete_def hm_inv_probe)
qed

text \<open>The model provides the interface.\<close>

interpretation hm: slot_table hm_inv hm_map hm_unused hashmap_find hashmap_set hashmap_delete
proof unfold_locales
  fix t :: "'v hashmap" and k v
  assume inv: "hm_inv t"
  show "hashmap_find t k = Some (hm_map t k)" by (fact hashmap_find_map [OF inv])
  show "\<exists>t'. hashmap_set t k v = Some (t', True) \<and> hm_inv t' \<and> hm_map t' = (hm_map t)(k \<mapsto> v) \<and>
      hm_unused t' = hm_unused t" if "hm_map t k \<noteq> None"
    using hashmap_set_room [OF inv, of k v] that by auto
  show "\<exists>t'. hashmap_set t k v = Some (t', True) \<and> hm_inv t' \<and> hm_map t' = (hm_map t)(k \<mapsto> v) \<and>
      hm_unused t' = hm_unused t - 1" if "hm_map t k = None" "0 < hm_unused t"
    using hashmap_set_room [OF inv, of k v] that by auto
  show "hashmap_set t k v = Some (t, False)" if "hm_map t k = None" "hm_unused t = 0"
    by (rule hashmap_set_no_room [OF inv that])
  show "\<exists>t'. hashmap_delete t k = Some (t', hm_map t k \<noteq> None) \<and> hm_inv t' \<and>
      hm_map t' = (hm_map t)(k := None) \<and> hm_unused t' = hm_unused t"
    by (fact hashmap_delete_spec [OF inv])
qed

section \<open>Creation, clean-up and rehashing\<close>

lemma fresh_table:
  fixes hm :: "'v hashmap"
  assumes "0 < hm_size hm" and "2 * hm_size hm \<le> SIZE_MOD"
    and "hm_entries hm = replicate (hm_size hm) zero_entry"
  shows "hm_inv hm" and "hm_map hm = Map.empty" and "hm_unused hm = hm_size hm"
proof -
  have h: "\<not> holds (zero_entry :: 'v hashmap_entry) k" for k
    by (simp add: holds_def zero_entry_def)
  have ok: "entry_ok (zero_entry :: 'v hashmap_entry)" by (simp add: entry_ok_def zero_entry_def)
  show "hm_inv hm" using assms h ok by (simp add: hm_inv_def)
  have "find (\<lambda>e. holds e k) (hm_entries hm) = None" for k
    using assms h by (simp add: find_None_iff)
  then show "hm_map hm = Map.empty" by (simp add: hm_map_def fun_eq_iff)
  show "hm_unused hm = hm_size hm"
    using assms by (simp add: hm_unused_def used_def zero_entry_def)
qed

lemma ALIGN_UP_16:
  assumes "unat n + 15 < SIZE_MOD"
  shows "unat n \<le> unat (ALIGN_UP n 16)" and "unat (ALIGN_UP n 16) \<le> unat n + 15"
proof -
  have n: "unat (n + 15) = unat n + 15" using assms by (simp add: unat_add_lem [THEN iffD1])
  have eq: "x AND NOT 15 = push_bit 4 (drop_bit 4 x)" for x :: u64
  proof -
    have "(15 :: u64) = mask 4" by (simp add: mask_numeral)
    then show ?thesis by (auto simp: bit_eq_iff bit_simps) 
  qed
  have "n + 16 - 1 = n + 15" "(16 :: u64) - 1 = 15" by simp_all
  then have "ALIGN_UP n 16 = push_bit 4 (drop_bit 4 (n + 15))" by (simp only: ALIGN_UP_def eq)
  also have "unat \<dots> = take_bit 64 (push_bit 4 (drop_bit 4 (unat (n + 15))))"
  proof -
    have "take_bit 64 (unat (n + 15)) = unat (n + 15)" by (rule take_bit_nat_eq_self) (rule u64_less)
    then show ?thesis by (simp only: unsigned_push_bit_eq unsigned_drop_bit_eq) simp
  qed
  also have "\<dots> = (unat n + 15) div 16 * 16 mod 2 ^ 64"
    by (simp add: n push_bit_eq_mult drop_bit_eq_div take_bit_eq_mod)
  also have "\<dots> = (unat n + 15) div 16 * 16"
    using assms by (intro mod_less) (meson div_times_less_eq_dividend le_less_trans)
  finally show "unat n \<le> unat (ALIGN_UP n 16)" "unat (ALIGN_UP n 16) \<le> unat n + 15" by presburger+
qed

text \<open>A table whose bytes fit a \<open>size_t\<close> has all its slots.\<close>

lemma hashmap_create_fits:
  assumes create: "hashmap_create n load stride hash = Some hm" and pos: "0 < hm_size hm"
    and es: "32 \<le> unat (hm_entry_size hm)" and bytes: "unat (hm_entry_size hm) * hm_size hm < SIZE_MOD"
  shows "hm_inv hm" and "hm_map hm = Map.empty" and "hm_unused hm = hm_size hm"
proof -
  have "32 * hm_size hm \<le> unat (hm_entry_size hm) * hm_size hm" using es by (intro mult_right_mono) simp_all
  then have small: "32 * hm_size hm < SIZE_MOD" using bytes by linarith
  then have "unat (of_nat (hm_size hm) :: u64) = hm_size hm" by (intro unat_of_nat_u64) simp
  then have "unat (hm_entry_size hm * of_nat (hm_size hm)) = unat (hm_entry_size hm) * hm_size hm"
    using bytes by (simp add: unat_mult_lem [THEN iffD1])
  then have "hm_entries hm = replicate (hm_size hm) zero_entry"
    using create es by (auto simp: hashmap_create_def Let_def fault_simps)
  with fresh_table [of hm] pos small
  show "hm_inv hm" "hm_map hm = Map.empty" "hm_unused hm = hm_size hm" by simp_all
qed

lemma hashmap_create_fresh:
  assumes create: "hashmap_create n load stride hash = Some hm" and pos: "0 < hm_size hm"
    and fits: "(unat stride + 47) * hm_size hm < SIZE_MOD"
  shows "hm_inv hm" and "hm_map hm = Map.empty" and "hm_unused hm = hm_size hm"
proof -
  let ?es = "hm_entry_size hm"
  have "?es = ALIGN_UP (SIZEOF_ENTRY + stride) 16"
    using create by (auto simp: hashmap_create_def Let_def fault_simps)
  moreover have "unat stride + 47 \<le> (unat stride + 47) * hm_size hm" using pos by simp
  then have st: "unat stride + 47 < SIZE_MOD" using fits by linarith
  then have "unat (SIZEOF_ENTRY + stride) = 32 + unat stride" by (simp add: unat_add_lem [THEN iffD1])
  ultimately have es: "32 \<le> unat ?es" "unat ?es \<le> unat stride + 47"
    using ALIGN_UP_16 [of "SIZEOF_ENTRY + stride"] st by simp_all
  then have "unat ?es * hm_size hm \<le> (unat stride + 47) * hm_size hm" by (intro mult_right_mono) simp_all
  then have bytes: "unat ?es * hm_size hm < SIZE_MOD" using fits by linarith
  from hashmap_create_fits [OF create pos es(1) bytes]
  show "hm_inv hm" "hm_map hm = Map.empty" "hm_unused hm = hm_size hm" .
qed

text \<open>The pairs a table stores, in slot order.\<close>

definition stored :: "'v hashmap_entry list \<Rightarrow> (bytes \<times> 'v) list" where
  "stored es = map (\<lambda>e. (the (e_key e), the (e_data e))) (filter e_exists es)"

lemma stored_map:
  assumes "\<forall>e\<in>set es. entry_ok e"
  shows "map_of (stored es) k = Option.bind (find (\<lambda>e. holds e k) es) e_data"
  using assms by (induction es) (auto simp: stored_def holds_def entry_ok_def split: if_splits)

lemma stored_distinct:
  assumes "\<forall>e\<in>set es. entry_ok e"
    and "\<forall>i<length es. \<forall>j<length es. \<forall>k. holds (es ! i) k \<longrightarrow> holds (es ! j) k \<longrightarrow> i = j"
  shows "distinct (map fst (stored es))"
  using assms
proof (induction es)
  case (Cons e es)
  have inj: "\<forall>i<length es. \<forall>j<length es. \<forall>k. holds (es ! i) k \<longrightarrow> holds (es ! j) k \<longrightarrow> i = j"
    using Cons.prems(2) by (metis Suc_less_eq length_Cons nat.inject nth_Cons_Suc)
  have new: "\<not> holds (es ! j) k" if "j < length es" "holds e k" for j k
    using Cons.prems(2) that by (metis Suc_less_eq length_Cons nat.distinct(1) nth_Cons_0
      nth_Cons_Suc zero_less_Suc)
  have "the (e_key e) \<notin> fst ` set (stored es)" if "e_exists e"
  proof
    assume "the (e_key e) \<in> fst ` set (stored es)"
    then obtain j where j: "j < length es" "e_exists (es ! j)" "the (e_key e) = the (e_key (es ! j))"
      by (auto simp: stored_def in_set_conv_nth)
    with that Cons.prems(1) have "holds e (the (e_key e))" "holds (es ! j) (the (e_key e))"
      by (auto simp: holds_def entry_ok_def split: if_splits)
    with new j show False by blast
  qed
  moreover have "distinct (map fst (stored es))" using Cons inj by simp
  ultimately show ?case by (simp add: stored_def image_image)
qed (simp add: stored_def)

lemma stored_inv:
  assumes inv: "hm_inv hm"
  shows "map_of (stored (hm_entries hm)) = hm_map hm"
    and "distinct (map fst (stored (hm_entries hm)))"
    and "length (stored (hm_entries hm)) \<le> hm_size hm"
proof -
  have ok: "\<forall>e\<in>set (hm_entries hm). entry_ok e"
    using inv by (auto simp: hm_inv_def in_set_conv_nth)
  then show "map_of (stored (hm_entries hm)) = hm_map hm"
    by (simp add: fun_eq_iff stored_map hm_map_def)
  show "distinct (map fst (stored (hm_entries hm)))"
    using stored_distinct [OF ok] inv by (simp add: hm_inv_def)
  show "length (stored (hm_entries hm)) \<le> hm_size hm"
    using inv length_filter_le [of e_exists "hm_entries hm"] by (simp add: stored_def hm_inv_def)
qed

lemma hashmap_rehash_loop_run:
  assumes "\<forall>e\<in>set es. entry_ok e"
  shows "hashmap_rehash_loop new es =
    run_table hashmap_set hashmap_delete new (map (\<lambda>(k, v). Put k v) (stored es))"
  using assms
  by (induction es arbitrary: new) (auto simp: stored_def entry_ok_def split: if_splits)

lemma puts_map_Put [simp]: "puts (map (\<lambda>(k, v). Put k v) kvs) = length kvs"
  by (induction kvs) auto

lemma foldl_Put: "foldl map_op m (map (\<lambda>(k, v). Put k v) kvs) = m ++ map_of (rev kvs)"
  by (induction kvs arbitrary: m) auto

lemma map_of_rev_distinct: "distinct (map fst kvs) \<Longrightarrow> map_of (rev kvs) = map_of kvs"
  by (simp add: map_of_inject_set rev_map [symmetric])

lemma hashmap_rehash_spec:
  assumes inv: "hm_inv hm" and fits: "(unat (hm_stride hm) + 47) * hm_size hm < SIZE_MOD"
    and small: "hm_size hm < 2 ^ 53"
  shows "\<exists>hm'. hashmap_rehash hm = Some hm' \<and> hm_inv hm' \<and> hm_map hm' = hm_map hm \<and>
    hm_size hm - card (dom (hm_map hm)) \<le> hm_unused hm'"
proof -
  let ?kvs = "stored (hm_entries hm)"
  have "unat (of_nat (hm_size hm) :: u64) = hm_size hm"
    using small by (intro unat_of_nat_u64) simp
  with small obtain new where new: "hashmap_create (of_nat (hm_size hm)) 1 (hm_stride hm) (Some (hm_hash hm)) =
      Some (new :: 'a hashmap)" "hm_size new = hm_size hm" "hm_stride new = hm_stride hm"
    by (simp add: hashmap_create_def Let_def size_quotient_1)
  have fresh: "hm_inv new" "hm_map new = Map.empty" "hm_unused new = hm_size hm"
    using hashmap_create_fresh [OF new(1)] new(2,3) hm_invD(1) [OF inv] fits by simp_all
  have slots: "all_slots hm = Some (hm_entries hm)"
    using hm_invD(2) [OF inv] by (simp add: all_slots_def)
  have ok: "\<forall>e\<in>set (hm_entries hm). entry_ok e"
    using inv by (auto simp: hm_inv_def in_set_conv_nth)
  have "puts (map (\<lambda>(k, v). Put k v) ?kvs) \<le> hm_unused new"
    using stored_inv(3) [OF inv] fresh(3) by simp
  from hm.run_law [OF fresh(1) this] obtain hm' where
    "hashmap_rehash_loop new (hm_entries hm) = Some hm'" "hm_inv hm'"
    "hm_map hm' = map_of (rev ?kvs)" "hm_size hm - length ?kvs \<le> hm_unused hm'"
    by (auto simp: hashmap_rehash_loop_run [OF ok] foldl_Put fresh)
  moreover have "card (dom (hm_map hm)) = length ?kvs"
    using stored_inv(1,2) [OF inv] distinct_card [of "map fst ?kvs"]
    by (metis dom_map_of_conv_image_fst length_map list.set_map)
  ultimately show ?thesis
    using new slots stored_inv(1,2) [OF inv]
    by (simp add: hashmap_rehash_def hashmap_destroy_def map_of_rev_distinct)
qed

text \<open>\<open>hashmap_destroy\<close> releases the key of every stored pair, each once.\<close>

lemma hashmap_destroy_keys:
  assumes inv: "hm_inv hm"
  shows "\<exists>ks. hashmap_destroy hm = Some (map Some ks) \<and> distinct ks \<and> set ks = dom (hm_map hm)"
proof -
  have "hashmap_destroy hm = Some (map Some (map fst (stored (hm_entries hm))))"
    using inv by (auto simp: hashmap_destroy_def all_slots_def stored_def hm_inv_def entry_ok_def in_set_conv_nth
        split: if_splits)
  then show ?thesis using stored_inv(1,2) [OF inv]
    by (metis dom_map_of_conv_image_fst list.set_map)
qed

lemma hash_fnv1a_test: "hash_fnv1a ''a'' = 0xaf63dc4c8601ec8c"
  by (simp add: hash_fnv1a_def)

section \<open>Properties\<close>

text \<open>
  C35. A table asked for \<open>n\<close> entries at a load that is a double has \<open>n / load\<close> slots, divided and
  rounded as doubles are.  If its bytes fit a \<open>size_t\<close>, with \<open>stride + 47\<close> of them a slot, which
  is the most it takes, any sequence of stores and deletions on it, with no more stores than it has
  slots, runs without a fault and afterwards a lookup finds
  exactly what the sequence, read as updates of a finite map, says: the last value stored under
  the key and not deleted since.
\<close>

theorem hashmap_run_refines:
  assumes "hashmap_create n load stride hash = Some hm" and "0 < hm_size hm"
    and "(unat stride + 47) * hm_size hm < 2 ^ 64" and "puts ops \<le> hm_size hm"
  shows "size_quotient n load = Some (hm_size hm) \<and>
    (\<exists>hm'. run_table hashmap_set hashmap_delete hm ops = Some hm' \<and>
      (\<forall>k. hashmap_find hm' k = Some (foldl map_op Map.empty ops k)))"
proof -
  have "size_quotient n load = Some (hm_size hm)"
    using assms(1) by (auto simp: hashmap_create_def Let_def fault_simps)
  with hm.run_law [of hm ops] hashmap_create_fresh [OF assms(1-3)] assms(4)
  show ?thesis by (metis hashmap_find_map)
qed

abbreviation table2 :: "nat hashmap" where
  "table2 \<equiv> \<lparr>hm_size = 2, hm_stride = 8, hm_entry_size = 48, hm_hash = hash_fnv1a,
     hm_entries = [zero_entry, zero_entry]\<rparr>"

lemma table2_create: "hashmap_create 2 double_67 8 None = Some table2"
proof -
  have "replicate 2 zero_entry = [zero_entry, zero_entry :: nat hashmap_entry]" by (simp add: numeral_2_eq_2)
  then show ?thesis by (simp add: hashmap_create_def size_quotient_tests ALIGN_UP_def)
qed

theorem hashmap_run_refines_witness:
  "size_quotient 2 double_67 = Some (hm_size table2) \<and>
   (\<exists>hm'. run_table hashmap_set hashmap_delete table2 [Put ''a'' 1, Put ''b'' 2, Remove ''a''] = Some hm' \<and>
    (\<forall>k. hashmap_find hm' k = Some (foldl map_op Map.empty [Put ''a'' 1, Put ''b'' 2, Remove ''a''] k)))"
  by (rule hashmap_run_refines [OF table2_create]) simp_all

text \<open>
  Deletion never gives a slot back: after as many store-then-delete pairs as the table has
  slots the table is empty, every lookup misses, and yet every store is refused.
\<close>

theorem hashmap_churn_exhausts:
  assumes "hashmap_create n load stride hash = Some hm" and "0 < hm_size hm"
    and "(unat stride + 47) * hm_size hm < 2 ^ 64"
    and "length kvs = hm_size hm"
  shows "\<exists>hm'. run_table hashmap_set hashmap_delete hm
      (concat (map (\<lambda>(k, v). [Put k v, Remove k]) kvs)) = Some hm' \<and>
    (\<forall>k. hashmap_find hm' k = Some None) \<and> (\<forall>k v. hashmap_set hm' k v = Some (hm', False))"
proof -
  obtain hm' where "run_table hashmap_set hashmap_delete hm
      (concat (map (\<lambda>(k, v). [Put k v, Remove k]) kvs)) = Some hm'"
    "hm_inv hm'" "hm_map hm' = Map.empty" "hm_unused hm' = 0"
    using hm.churn_law [of hm kvs] hashmap_create_fresh [OF assms(1-3)] assms(4) by auto
  then show ?thesis using hm.full_refuses [of hm'] by (simp add: hashmap_find_map)
qed

theorem hashmap_churn_exhausts_witness:
  "\<exists>hm'. run_table hashmap_set hashmap_delete table2
      (concat (map (\<lambda>(k, v). [Put k v, Remove k]) [(''a'', 1), (''b'', 2)])) = Some hm' \<and>
    (\<forall>k. hashmap_find hm' k = Some None) \<and> (\<forall>k v. hashmap_set hm' k v = Some (hm', False))"
  by (rule hashmap_churn_exhausts [OF table2_create]) simp_all

lemma run_table_shape:
  "run_table hashmap_set hashmap_delete hm ops = Some hm' \<Longrightarrow>
   hm_size hm' = hm_size hm \<and> hm_stride hm' = hm_stride hm"
proof (induction ops arbitrary: hm)
  case (Cons opn ops)
  then show ?case by (cases opn) (auto simp: hashmap_set_def hashmap_delete_def fault_simps)
qed simp

lemma hashmap_create_shape: "hashmap_create n load stride hash = Some hm \<Longrightarrow> hm_stride hm = stride"
  by (auto simp: hashmap_create_def Let_def fault_simps)

text \<open>
  \<open>hashmap_rehash\<close> on any table the operations can produce returns a table in which every
  lookup has the same result and which has room again: every store succeeds as long as fewer
  keys are stored than the table has slots.
\<close>

theorem hashmap_rehash_restores:
  assumes "hashmap_create n load stride hash = Some hm" and "0 < hm_size hm"
    and "(unat stride + 47) * hm_size hm < 2 ^ 64"
    and "hm_size hm < 2 ^ 53" and "run_table hashmap_set hashmap_delete hm ops = Some hm1"
  shows "\<exists>hm2. hashmap_rehash hm1 = Some hm2 \<and>
    (\<forall>k. hashmap_find hm2 k = hashmap_find hm1 k) \<and>
    (card (dom (hm_map hm1)) < hm_size hm1 \<longrightarrow> (\<forall>k v. \<exists>hm3. hashmap_set hm2 k v = Some (hm3, True)))"
proof -
  have inv: "hm_inv hm1"
    using hm.run_inv [OF hashmap_create_fresh(1) [OF assms(1-3)], of ops] assms(5) by auto
  obtain hm2 where hm2: "hashmap_rehash hm1 = Some hm2" "hm_inv hm2" "hm_map hm2 = hm_map hm1"
    "hm_size hm1 - card (dom (hm_map hm1)) \<le> hm_unused hm2"
    using hashmap_rehash_spec [OF inv] run_table_shape [OF assms(5)] assms(1,3,4) by (auto simp: hashmap_create_shape)
  then have "\<exists>hm3. hashmap_set hm2 k v = Some (hm3, True)"
    if "card (dom (hm_map hm1)) < hm_size hm1" for k v
    using hashmap_set_room [OF hm2(2), of k v] that by fastforce
  with hm2 show ?thesis by (simp add: hashmap_find_map inv)
qed

theorem hashmap_rehash_restores_witness:
  "\<exists>hm1 hm2. run_table hashmap_set hashmap_delete table2 [Put ''a'' 1, Remove ''a'', Put ''b'' 2] = Some hm1 \<and>
    hashmap_rehash hm1 = Some hm2 \<and> (\<forall>k. hashmap_find hm2 k = hashmap_find hm1 k)"
proof -
  have "hm_inv table2" using hashmap_create_fresh(1) [OF table2_create] by simp
  from hm.run_inv [OF this] obtain hm1 where hm1: "run_table hashmap_set hashmap_delete table2
      [Put ''a'' 1, Remove ''a'', Put ''b'' 2] = Some hm1" by blast
  from hashmap_rehash_restores [OF table2_create _ _ _ hm1] obtain hm2 where
    "hashmap_rehash hm1 = Some hm2" "\<forall>k. hashmap_find hm2 k = hashmap_find hm1 k" by auto
  with hm1 show ?thesis by blast
qed

end
