(* ===== verification/Darray.thy ===== *)
theory Darray
  imports Prelude
begin

text \<open>
  The growable array of \<open>core/containers/darray.c\<close>.  A block is a header followed by its
  data area, a list of units: bytes, or whole values where an element is one pointer or
  structure.  A \<open>darray\<close> is the address of a block, which moves when the array grows, so the
  blocks live in a heap from which the old one disappears.  Sizes are taken to be small enough
  not to wrap around.
\<close>

section \<open>Blocks and operations\<close>

record 'a darray_header =
  dh_size :: nat
  dh_length :: nat
  dh_stride :: nat
  dh_data :: "'a list"

record 'a darray_heap =
  da_cells :: "addr \<rightharpoonup> 'a darray_header"
  da_brk :: addr

abbreviation empty_darrays :: "'a darray_heap" where
  "empty_darrays \<equiv> \<lparr>da_cells = Map.empty, da_brk = 0\<rparr>"

definition header_from_darray :: "'a darray_heap \<Rightarrow> addr \<Rightarrow> 'a darray_header option" where
  "header_from_darray h darr = da_cells h darr"

text \<open>\<open>z\<close> is the unit whose bytes are all zero.\<close>

definition darray_create :: "'a \<Rightarrow> 'a darray_heap \<Rightarrow> nat \<Rightarrow> nat \<Rightarrow> addr \<times> 'a darray_heap" where
  "darray_create z h cap stride =
     (let a = da_brk h;
          hdr = \<lparr>dh_size = cap, dh_length = 0, dh_stride = stride, dh_data = replicate (stride * cap) z\<rparr>
      in (a, \<lparr>da_cells = (da_cells h)(a \<mapsto> hdr), da_brk = Suc a\<rparr>))"

definition darray_destroy :: "'a darray_heap \<Rightarrow> addr \<Rightarrow> 'a darray_heap option" where
  "darray_destroy h darr = do {
     hdr \<leftarrow> header_from_darray h darr;
     Some (h\<lparr>da_cells := (da_cells h)(darr := None)\<rparr>)
   }"

definition darray_get_size :: "'a darray_heap \<Rightarrow> addr \<Rightarrow> nat option" where
  "darray_get_size h darr = map_option dh_size (header_from_darray h darr)"

definition darray_get_length :: "'a darray_heap \<Rightarrow> addr \<Rightarrow> nat option" where
  "darray_get_length h darr = map_option dh_length (header_from_darray h darr)"

definition darray_get_stride :: "'a darray_heap \<Rightarrow> addr \<Rightarrow> nat option" where
  "darray_get_stride h darr = map_option dh_stride (header_from_darray h darr)"

text \<open>Storing a changed header.\<close>

definition put_header :: "'a darray_heap \<Rightarrow> addr \<Rightarrow> 'a darray_header \<Rightarrow> 'a darray_heap" where
  "put_header h darr hdr = h\<lparr>da_cells := (da_cells h)(darr \<mapsto> hdr)\<rparr>"

definition darray_resize :: "'a \<Rightarrow> 'a darray_heap \<Rightarrow> addr \<Rightarrow> nat \<Rightarrow> (addr \<times> 'a darray_heap) option" where
  "darray_resize z h darr new_size = do {
     stride \<leftarrow> darray_get_stride h darr;
     let (temp, h) = darray_create z h new_size stride;
     old \<leftarrow> header_from_darray h darr;
     new \<leftarrow> header_from_darray h temp;
     src \<leftarrow> mem_read (dh_data old) 0 (dh_stride old * dh_length old);
     data \<leftarrow> mem_write (dh_data new) 0 src;
     let h = put_header h temp (new\<lparr>dh_data := data, dh_length := dh_length old\<rparr>);
     h \<leftarrow> darray_destroy h darr;
     Some (temp, h)
   }"

text \<open>\<open>stride\<close> units are copied from the element.\<close>

definition darray_add :: "'a \<Rightarrow> 'a darray_heap \<Rightarrow> addr \<Rightarrow> 'a list \<Rightarrow> (addr \<times> 'a darray_heap) option" where
  "darray_add z h darr element = do {
     len \<leftarrow> darray_get_length h darr;
     cap \<leftarrow> darray_get_size h darr;
     (darr, h) \<leftarrow> (if len + 1 \<ge> cap then darray_resize z h darr (cap * 2) else Some (darr, h));
     hdr \<leftarrow> header_from_darray h darr;
     src \<leftarrow> mem_read element 0 (dh_stride hdr);
     data \<leftarrow> mem_write (dh_data hdr) (dh_stride hdr * dh_length hdr) src;
     Some (darr, put_header h darr (hdr\<lparr>dh_data := data, dh_length := dh_length hdr + 1\<rparr>))
   }"

section \<open>The list an array holds\<close>

text \<open>The block at an address has the given size, room to spare, and holds the elements in order.\<close>

definition darray_rep :: "nat \<Rightarrow> nat \<Rightarrow> 'a darray_heap \<Rightarrow> addr \<Rightarrow> 'a list list \<Rightarrow> bool" where
  "darray_rep stride cap h darr xs \<longleftrightarrow>
     (\<exists>hdr. da_cells h darr = Some hdr \<and> dh_size hdr = cap \<and> dh_length hdr = length xs \<and>
       dh_stride hdr = stride \<and> length (dh_data hdr) = stride * cap \<and>
       take (stride * length xs) (dh_data hdr) = concat xs) \<and>
     length xs < cap \<and> (\<forall>x\<in>set xs. length x = stride) \<and> darr < da_brk h"

lemma darray_create_rep:
  "0 < cap \<Longrightarrow> darray_create z h cap stride = (a, h') \<Longrightarrow>
   darray_rep stride cap h' a [] \<and> a = da_brk h \<and> da_brk h' = Suc (da_brk h)"
  by (auto simp: darray_create_def darray_rep_def Let_def)

lemma concat_length: "\<forall>x\<in>set xs. length x = n \<Longrightarrow> length (concat xs) = n * length xs"
  by (induction xs) auto

lemma room_mult: "m < n \<Longrightarrow> (k::nat) * m + k \<le> k * n"
  using mult_le_mono2 [of "Suc m" n k] by simp

text \<open>
  Adding an element: in place while more than one slot is free, otherwise in a block of twice
  the size, the old block being freed.
\<close>

lemma darray_add_in_place:
  assumes rep: "darray_rep stride cap h a xs" and e: "length e = stride" and room: "length xs + 1 < cap"
  shows "\<exists>h'. darray_add z h a e = Some (a, h') \<and> darray_rep stride cap h' a (xs @ [e]) \<and>
    da_brk h' = da_brk h \<and> dom (da_cells h') = dom (da_cells h)"
proof -
  obtain hdr where hdr: "da_cells h a = Some hdr" "dh_size hdr = cap" "dh_length hdr = length xs" "dh_stride hdr = stride"
    "length (dh_data hdr) = stride * cap" "take (stride * length xs) (dh_data hdr) = concat xs"
    "\<forall>x\<in>set xs. length x = stride" "a < da_brk h" using rep by (auto simp: darray_rep_def)
  have fit: "stride * length xs + stride \<le> stride * cap" using room by (intro room_mult) simp
  let ?data = "take (stride * length xs) (dh_data hdr) @ e @ drop (stride * length xs + stride) (dh_data hdr)"
  have "take (stride * Suc (length xs)) ?data = concat (xs @ [e])"
    using hdr e fit concat_length [OF hdr(7)] by (simp add: algebra_simps)
  moreover have "length ?data = stride * cap" using hdr e fit concat_length [OF hdr(7)] by simp
  moreover have "darray_add z h a e =
      Some (a, put_header h a (hdr\<lparr>dh_data := ?data, dh_length := Suc (length xs)\<rparr>))"
    using hdr e fit room
    by (simp add: darray_add_def darray_get_length_def darray_get_size_def header_from_darray_def
        mem_read_def mem_write_def)
  ultimately show ?thesis
    using hdr e room by (auto simp: darray_rep_def put_header_def)
qed

lemma darray_resize_rep:
  assumes rep: "darray_rep stride cap h a xs" and bigger: "cap \<le> cap'"
  shows "\<exists>b h'. darray_resize z h a cap' = Some (b, h') \<and> darray_rep stride cap' h' b xs \<and> b = da_brk h \<and>
    da_brk h' = Suc (da_brk h) \<and> dom (da_cells h') = insert b (dom (da_cells h) - {a})"
proof -
  obtain hdr where hdr: "da_cells h a = Some hdr" "dh_size hdr = cap" "dh_length hdr = length xs" "dh_stride hdr = stride"
    "length (dh_data hdr) = stride * cap" "take (stride * length xs) (dh_data hdr) = concat xs"
    "\<forall>x\<in>set xs. length x = stride" "a < da_brk h" "length xs < cap" using rep by (auto simp: darray_rep_def)
  have fit: "length xs \<le> cap'" "stride * length xs \<le> stride * cap" "stride * length xs \<le> stride * cap'"
    using hdr(9) bigger by simp_all
  let ?data = "concat xs @ drop (stride * length xs) (replicate (stride * cap') z)"
  let ?new = "\<lparr>dh_size = cap', dh_length = length xs, dh_stride = stride, dh_data = ?data\<rparr>"
  let ?h = "\<lparr>da_cells = (da_cells h)(da_brk h \<mapsto> ?new, a := None), da_brk = Suc (da_brk h)\<rparr>"
  have "darray_resize z h a cap' = Some (da_brk h, ?h)"
    using hdr fit concat_length [OF hdr(7)]
    by (simp add: darray_resize_def darray_get_stride_def header_from_darray_def darray_create_def Let_def
        mem_read_def mem_write_def darray_destroy_def put_header_def)
  moreover have "darray_rep stride cap' ?h (da_brk h) xs"
    using hdr fit bigger concat_length [OF hdr(7)] by (simp add: darray_rep_def)
  moreover have "dom (da_cells ?h) = insert (da_brk h) (dom (da_cells h) - {a})"
    using hdr(8) by (auto split: if_splits)
  ultimately show ?thesis by (intro exI [of _ "da_brk h"] exI [of _ ?h] conjI) simp_all
qed

lemma darray_add_moves:
  assumes rep: "darray_rep stride cap h a xs" and e: "length e = stride" and full: "length xs + 1 = cap"
  shows "\<exists>b h'. darray_add z h a e = Some (b, h') \<and> darray_rep stride (cap * 2) h' b (xs @ [e]) \<and>
    b = da_brk h \<and> da_brk h' = Suc (da_brk h) \<and> dom (da_cells h') = insert b (dom (da_cells h) - {a})"
proof -
  obtain b h1 where r: "darray_resize z h a (cap * 2) = Some (b, h1)" "darray_rep stride (cap * 2) h1 b xs"
    "b = da_brk h" "da_brk h1 = Suc (da_brk h)" "dom (da_cells h1) = insert b (dom (da_cells h) - {a})"
    using darray_resize_rep [OF rep, of "cap * 2" z] by auto
  have "length xs + 1 < cap * 2" using full by simp
  from darray_add_in_place [OF r(2) e this, of z] obtain h' where
    a: "darray_add z h1 b e = Some (b, h')" "darray_rep stride (cap * 2) h' b (xs @ [e])"
    "da_brk h' = da_brk h1" "dom (da_cells h') = dom (da_cells h1)" by blast
  have len: "darray_get_length h a = Some (length xs)" "darray_get_size h a = Some cap"
    "darray_get_length h1 b = Some (length xs)" "darray_get_size h1 b = Some (cap * 2)"
    using rep r(2) by (auto simp: darray_rep_def darray_get_length_def darray_get_size_def header_from_darray_def)
  have "darray_add z h a e = darray_add z h1 b e"
    using len r(1) full by (simp add: darray_add_def)
  with a r show ?thesis by simp
qed

section \<open>The interface: a list that grows at its end\<close>

locale growable =
  fixes rep :: "'h \<Rightarrow> 'p \<Rightarrow> 'e list \<Rightarrow> bool" and add :: "'h \<Rightarrow> 'p \<Rightarrow> 'e \<Rightarrow> ('p \<times> 'h) option"
    and ok :: "'e \<Rightarrow> bool"
  assumes add_law: "rep h p xs \<Longrightarrow> ok e \<Longrightarrow> \<exists>p' h'. add h p e = Some (p', h') \<and> rep h' p' (xs @ [e])"
begin

lemma add_all:
  "rep h p xs \<Longrightarrow> \<forall>e\<in>set es. ok e \<Longrightarrow>
   \<exists>p' h'. fold (\<lambda>e r. Option.bind r (\<lambda>(p, h). add h p e)) es (Some (p, h)) = Some (p', h') \<and>
     rep h' p' (xs @ es)"
proof (induction es arbitrary: h p xs)
  case (Cons e es)
  then obtain p1 h1 where "add h p e = Some (p1, h1)" "rep h1 p1 (xs @ [e])" using add_law [of h p xs e] by auto
  with Cons.IH [of h1 p1 "xs @ [e]"] Cons.prems(2) show ?case by simp
qed simp

end

definition darray_holds :: "nat \<Rightarrow> 'a darray_heap \<Rightarrow> addr \<Rightarrow> 'a list list \<Rightarrow> bool" where
  "darray_holds stride h a xs \<longleftrightarrow> (\<exists>cap. darray_rep stride cap h a xs) \<and> dom (da_cells h) = {a}"

interpretation darr: growable "darray_holds stride" "\<lambda>h a. darray_add z h a" "\<lambda>e. length e = stride"
  for z :: 'a and stride
proof
  fix h :: "'a darray_heap" and a xs and e :: "'a list"
  assume h: "darray_holds stride h a xs" and e: "length e = stride"
  then obtain cap where r: "darray_rep stride cap h a xs" "dom (da_cells h) = {a}" by (auto simp: darray_holds_def)
  then have "length xs < cap" by (simp add: darray_rep_def)
  then consider "length xs + 1 < cap" | "length xs + 1 = cap" by linarith
  then show "\<exists>a' h'. darray_add z h a e = Some (a', h') \<and> darray_holds stride h' a' (xs @ [e])"
  proof cases
    case 1
    with darray_add_in_place [OF r(1) e 1, of z] r(2) show ?thesis by (auto simp: darray_holds_def)
  next
    case 2
    with darray_add_moves [OF r(1) e 2, of z] r(2) show ?thesis by (fastforce simp: darray_holds_def)
  qed
qed

section \<open>Properties\<close>

text \<open>A run of additions from an array just created.\<close>

definition darray_of :: "'a \<Rightarrow> nat \<Rightarrow> nat \<Rightarrow> 'a list list \<Rightarrow> (addr \<times> 'a darray_heap) option" where
  "darray_of z cap stride es =
     fold (\<lambda>e r. do { (a, h) \<leftarrow> r; darray_add z h a e }) es (Some (darray_create z empty_darrays cap stride))"

text \<open>
  Adding any number of elements to an array created with at least one slot never writes
  outside a block; afterwards the array holds exactly the elements in order, and every block it
  has outgrown has been freed.
\<close>

theorem darray_add_all:
  assumes "0 < cap" and "\<forall>e\<in>set es. length e = stride"
  shows "\<exists>a h. darray_of z cap stride es = Some (a, h) \<and> (\<exists>cap'. darray_rep stride cap' h a es) \<and>
    dom (da_cells h) = {a}"
proof -
  obtain a h where c: "darray_create z empty_darrays cap stride = (a, h)" by (cases "darray_create z empty_darrays cap stride")
  from darray_create_rep [OF assms(1) c] c have "darray_holds stride h a []"
    by (auto simp: darray_holds_def darray_create_def Let_def split: if_splits)
  from darr.add_all [OF this assms(2), of z] show ?thesis
    by (auto simp: darray_of_def c darray_holds_def)
qed

theorem darray_add_all_witness:
  "\<exists>a h. darray_of (0::nat) 1 2 [[1, 2], [3, 4], [5, 6]] = Some (a, h) \<and>
     (\<exists>cap'. darray_rep 2 cap' h a [[1, 2], [3, 4], [5, 6]]) \<and> dom (da_cells h) = {a}"
  by (rule darray_add_all) simp_all

text \<open>
  With no slots at all, which \<open>darray_create\<close> accepts, the first addition writes past the
  block: doubling zero gives zero.
\<close>

theorem darray_add_empty_overflows:
  assumes "0 < stride" and "length e = stride"
  shows "darray_of z 0 stride [e] = None"
proof -
  have "e \<noteq> []" using assms by auto
  then show ?thesis using assms
    by (simp add: darray_of_def darray_create_def Let_def darray_add_def darray_get_length_def
        darray_get_size_def header_from_darray_def darray_resize_def darray_get_stride_def mem_read_def
        mem_write_def darray_destroy_def put_header_def)
qed

theorem darray_add_empty_overflows_witness: "darray_of (0::nat) 0 1 [[7]] = None"
  by (rule darray_add_empty_overflows) simp_all

end
