(* ===== verification/FileList.thy ===== *)
theory FileList
  imports Darray
begin

text \<open>
  The walk over the public directory, \<open>core/util/util.c\<close>.  A directory stream is the list of
  its entries; a directory that cannot be opened is \<^const>\<open>None\<close>, and reading from it is a
  fault.  The array holds one string per element, so an element is one unit.
\<close>

section \<open>Directories and the walk\<close>

datatype dirent =
    DT_REG bytes
  | DT_DIR bytes "dirent list option"
  | DT_OTHER bytes

definition hidden :: "bytes \<Rightarrow> bool" where
  "hidden d_name = (case d_name of [] \<Rightarrow> False | c # _ \<Rightarrow> c = CHR ''.'')"

text \<open>
  The array is passed by value: an address that changes in \<open>darray_add\<close> changes in this call
  only, so the recursive call returns nothing but the heap.
\<close>

fun recursive_walk ::
  "dirent list \<Rightarrow> bytes \<Rightarrow> bytes darray_heap \<Rightarrow> addr \<Rightarrow> bytes darray_heap option" where
  "recursive_walk [] prefx h files_darr = Some h"
| "recursive_walk (DT_REG d_name # entries) prefx h files_darr =
     (if hidden d_name then recursive_walk entries prefx h files_darr
      else do {
        (files_darr, h) \<leftarrow> darray_add [] h files_darr [prefx @ d_name];
        recursive_walk entries prefx h files_darr
      })"
| "recursive_walk (DT_DIR d_name sub_dir # entries) prefx h files_darr =
     (if hidden d_name then recursive_walk entries prefx h files_darr
      else (case sub_dir of
          None \<Rightarrow> None
        | Some sub_entries \<Rightarrow> do {
            h \<leftarrow> recursive_walk sub_entries (prefx @ d_name @ ''/'') h files_darr;
            recursive_walk entries prefx h files_darr
          }))"
| "recursive_walk (DT_OTHER d_name # entries) prefx h files_darr =
     recursive_walk entries prefx h files_darr"

definition list_files :: "dirent list option \<Rightarrow> bytes darray_heap \<Rightarrow> (addr \<times> bytes darray_heap) option" where
  "list_files dir h = do {
     let (files_darr, h) = darray_create [] h 8 1;
     entries \<leftarrow> dir;
     h \<leftarrow> recursive_walk entries ''/'' h files_darr;
     Some (files_darr, h)
   }"

section \<open>What the walk should find\<close>

fun files_under :: "dirent list \<Rightarrow> bytes \<Rightarrow> bytes list" where
  "files_under [] prefx = []"
| "files_under (DT_REG n # es) prefx =
     (if hidden n then files_under es prefx else (prefx @ n) # files_under es prefx)"
| "files_under (DT_DIR n sub # es) prefx =
     (if hidden n then files_under es prefx
      else (case sub of None \<Rightarrow> [] | Some es' \<Rightarrow> files_under es' (prefx @ n @ ''/'')) @ files_under es prefx)"
| "files_under (DT_OTHER n # es) prefx = files_under es prefx"

fun readable :: "dirent list \<Rightarrow> bool" where
  "readable [] = True"
| "readable (DT_DIR n sub # es) =
     ((\<not> hidden n \<longrightarrow> (case sub of None \<Rightarrow> False | Some es' \<Rightarrow> readable es')) \<and> readable es)"
| "readable (DT_REG n # es) = readable es"
| "readable (DT_OTHER n # es) = readable es"

text \<open>Every listed path starts with the prefix.\<close>

lemma files_under_prefix: "f \<in> set (files_under es p) \<Longrightarrow> \<exists>s. f = p @ s"
proof (induction es p rule: files_under.induct)
  case (3 n sub es p)
  then show ?case by (cases sub) (auto split: if_splits)
qed (auto split: if_splits)

section \<open>The walk\<close>

text \<open>From an address that is no longer a block, adding is a fault.\<close>

lemma walk_dangling:
  "recursive_walk es p h a = Some h' \<Longrightarrow> da_cells h a = None \<Longrightarrow> h' = h \<and> files_under es p = []"
proof (induction es p h a arbitrary: h' rule: recursive_walk.induct)
  case (2 n es p h a)
  then show ?case
    by (auto simp: darray_add_def darray_get_length_def header_from_darray_def split: if_splits)
next
  case (3 n sub es p h a)
  show ?case
  proof (cases "hidden n")
    case True
    with 3 show ?thesis by simp
  next
    case False
    with "3.prems"(1) obtain es' h1 where s: "sub = Some es'" "recursive_walk es' (p @ n @ ''/'') h a = Some h1"
      "recursive_walk es p h1 a = Some h'" by (auto simp: fault_simps split: option.splits)
    from "3.IH"(2) [OF False s(1,2) "3.prems"(2)] have "h1 = h" "files_under es' (p @ n @ ''/'') = []" by simp_all
    with "3.IH"(3) [OF False s(1) s(2) s(3)] "3.prems"(2) s(1) False show ?thesis by simp
  qed
qed auto

text \<open>Addresses given up stay so, and the walk always succeeds or faults on a block it knows.\<close>

definition stays_freed :: "'a darray_heap \<Rightarrow> 'a darray_heap \<Rightarrow> bool" where
  "stays_freed h h' \<longleftrightarrow> da_brk h \<le> da_brk h' \<and> (\<forall>b<da_brk h. da_cells h b = None \<longrightarrow> da_cells h' b = None)"

lemma stays_freed_refl [simp]: "stays_freed h h"
  by (simp add: stays_freed_def)

lemma stays_freed_trans: "stays_freed h h1 \<Longrightarrow> stays_freed h1 h2 \<Longrightarrow> stays_freed h h2"
  by (auto simp: stays_freed_def)

text \<open>One addition to an array in use.\<close>

lemma add_cases:
  assumes "darray_rep 1 cap h a xs"
  obtains (room) h' where "length xs + 1 < cap" "darray_add [] h a [f] = Some (a, h')"
      "darray_rep 1 cap h' a (xs @ [[f]])" "stays_freed h h'"
  | (moved) b h' where "length xs + 1 = cap" "darray_add [] h a [f] = Some (b, h')"
      "darray_rep 1 (cap * 2) h' b (xs @ [[f]])" "stays_freed h h'" "da_cells h' a = None" "a < da_brk h'"
proof (cases "length xs + 1 < cap")
  case True
  obtain h' where h': "darray_add [] h a [f] = Some (a, h')" "darray_rep 1 cap h' a (xs @ [[f]])"
    "da_brk h' = da_brk h" "dom (da_cells h') = dom (da_cells h)"
    using darray_add_in_place [OF assms _ True, of "[f]" "[]"] by auto
  then have "stays_freed h h'" by (auto simp: stays_freed_def simp flip: domIff)
  with room True h' show thesis by blast
next
  case False
  with assms have full: "length xs + 1 = cap" and a: "a < da_brk h" by (auto simp: darray_rep_def)
  obtain b h' where h': "darray_add [] h a [f] = Some (b, h')" "darray_rep 1 (cap * 2) h' b (xs @ [[f]])"
    "b = da_brk h" "da_brk h' = Suc (da_brk h)" "dom (da_cells h') = insert b (dom (da_cells h) - {a})"
    using darray_add_moves [OF assms _ full, of "[f]" "[]"] by auto
  have "da_cells h' x = None" if "x < da_brk h" "da_cells h x = None" for x
    using that h'(3,5) by (metis DiffE domIff insertE less_irrefl)
  then have "stays_freed h h'" using h'(4) by (simp add: stays_freed_def)
  moreover have "a \<notin> dom (da_cells h')" using h'(3,5) a by simp
  then have "da_cells h' a = None" by (simp add: domIff)
  ultimately show thesis using moved [OF full h'(1,2)] h'(4) a by simp
qed

text \<open>
  The walk from an array in use.  While the array has room for all files it is filled in
  place; otherwise it is given up, and whoever still holds its address holds a dangling one.
\<close>

lemma walk_fits:
  "readable es \<Longrightarrow> darray_rep 1 cap h a xs \<Longrightarrow> length xs + length (files_under es p) < cap \<Longrightarrow>
   \<exists>h'. recursive_walk es p h a = Some h' \<and> darray_rep 1 cap h' a (xs @ map (\<lambda>f. [f]) (files_under es p)) \<and>
     stays_freed h h'"
proof (induction es p h a arbitrary: xs rule: recursive_walk.induct)
  case (2 n es p h a)
  show ?case
  proof (cases "hidden n")
    case True
    with 2 show ?thesis by simp
  next
    case False
    from "2.prems"(2) show ?thesis
    proof (cases rule: add_cases [where f = "p @ n"])
      case (room h1)
      obtain h' where "recursive_walk es p h1 a = Some h'"
        "darray_rep 1 cap h' a ((xs @ [[p @ n]]) @ map (\<lambda>f. [f]) (files_under es p))" "stays_freed h1 h'"
        using "2.IH"(2) [OF False room(2) refl _ room(3)] "2.prems" False by force
      with False room stays_freed_trans show ?thesis by auto
    next
      case (moved b h1)
      with "2.prems" False show ?thesis by simp
    qed
  qed
next
  case (3 n sub es p h a)
  show ?case
  proof (cases "hidden n")
    case True
    with 3 show ?thesis by simp
  next
    case False
    with "3.prems" obtain es' where sub: "sub = Some es'" by (auto split: option.splits)
    let ?p = "p @ n @ ''/''"
    obtain h1 where h1: "recursive_walk es' ?p h a = Some h1"
      "darray_rep 1 cap h1 a (xs @ map (\<lambda>f. [f]) (files_under es' ?p))" "stays_freed h h1"
      using "3.IH"(2) [OF False sub _ "3.prems"(2)] "3.prems" False sub by force
    obtain h' where "recursive_walk es p h1 a = Some h'"
      "darray_rep 1 cap h' a ((xs @ map (\<lambda>f. [f]) (files_under es' ?p)) @ map (\<lambda>f. [f]) (files_under es p))"
      "stays_freed h1 h'"
      using "3.IH"(3) [OF False sub h1(1) _ h1(2)] "3.prems" False sub by force
    with h1 sub False stays_freed_trans show ?thesis by auto
  qed
qed auto

lemma walk_any:
  "darray_rep 1 cap h a xs \<Longrightarrow> recursive_walk es p h a = Some h' \<Longrightarrow>
   stays_freed h h' \<and>
   (if length xs + length (files_under es p) < cap
    then darray_rep 1 cap h' a (xs @ map (\<lambda>f. [f]) (files_under es p)) else da_cells h' a = None)"
proof (induction es p h a arbitrary: xs cap h' rule: recursive_walk.induct)
  case (1 p h a)
  then show ?case by (auto simp: darray_rep_def)
next
  case (2 n es p h a)
  show ?case
  proof (cases "hidden n")
    case True
    with "2.IH"(1) [OF True "2.prems"(1)] "2.prems"(2) show ?thesis by (simp del: One_nat_def)
  next
    case False
    from "2.prems"(1) show ?thesis
    proof (cases rule: add_cases [where f = "p @ n"])
      case (room h1)
      from "2.IH"(2) [OF False room(2) refl room(3), of h'] "2.prems"(2) False room stays_freed_trans
      show ?thesis by auto
    next
      case (moved b h1)
      from "2.prems"(2) False moved(2) have w: "recursive_walk es p h1 b = Some h'" by simp
      from "2.IH"(2) [OF False moved(2) refl moved(3) w] have "stays_freed h1 h'" by blast
      with moved False stays_freed_trans show ?thesis by (auto simp: stays_freed_def)
    qed
  qed
next
  case (3 n sub es p h a)
  show ?case
  proof (cases "hidden n")
    case True
    with "3.IH"(1) [OF True "3.prems"(1)] "3.prems"(2) show ?thesis by (simp del: One_nat_def)
  next
    case False
    let ?p = "p @ n @ ''/''"
    from False "3.prems"(2) obtain es' h1 where s: "sub = Some es'" "recursive_walk es' ?p h a = Some h1"
      "recursive_walk es p h1 a = Some h'" by (auto simp: fault_simps split: option.splits)
    from "3.IH"(2) [OF False s(1) "3.prems"(1) s(2)] have one: "stays_freed h h1"
      "if length xs + length (files_under es' ?p) < cap
       then darray_rep 1 cap h1 a (xs @ map (\<lambda>f. [f]) (files_under es' ?p)) else da_cells h1 a = None" by blast+
    show ?thesis
    proof (cases "length xs + length (files_under es' ?p) < cap")
      case True
      with one(2) have "darray_rep 1 cap h1 a (xs @ map (\<lambda>f. [f]) (files_under es' ?p))" by simp
      from "3.IH"(3) [OF False s(1,2) this s(3)] one(1) False s(1) stays_freed_trans [OF one(1)]
      show ?thesis by (auto simp: ac_simps)
    next
      case over: False
      with one(2) have "da_cells h1 a = None" by simp
      from walk_dangling [OF s(3) this] one(1) over False s(1) \<open>da_cells h1 a = None\<close>
      show ?thesis by simp
    qed
  qed
next
  case (4 n es p h a)
  from "4.IH" [OF "4.prems"(1)] "4.prems"(2) show ?case by (simp del: One_nat_def)
qed

section \<open>Properties\<close>

lemma list_files_spec:
  assumes "readable es" and "length (files_under es ''/'') \<le> 7"
  shows "\<exists>a h. list_files (Some es) empty_darrays = Some (a, h) \<and>
    darray_rep 1 8 h a (map (\<lambda>f. [f]) (files_under es ''/''))"
proof -
  obtain a h where c: "darray_create ([] :: bytes) empty_darrays 8 1 = (a, h)"
    by (cases "darray_create ([] :: bytes) empty_darrays 8 1")
  from darray_create_rep [OF _ c] have "darray_rep 1 8 h a []" by auto
  with walk_fits [OF assms(1) this, of "''/''"] assms(2) show ?thesis
    by (auto simp: list_files_def c simp del: One_nat_def)
qed

text \<open>
  With at most seven files under the public directory, hidden entries aside, and every
  directory readable, the listing succeeds and holds exactly the paths of these files, in the
  order of the walk.
\<close>

theorem list_files_complete:
  assumes "readable es" and "length (files_under es ''/'') \<le> 7"
  shows "\<exists>a h. list_files (Some es) empty_darrays = Some (a, h) \<and>
    darray_rep 1 8 h a (map (\<lambda>f. [f]) (files_under es ''/''))"
  using assms by (rule list_files_spec)

theorem list_files_complete_witness:
  "\<exists>a h. list_files (Some [DT_REG ''a.html'', DT_REG ''.git'', DT_DIR ''css'' (Some [DT_REG ''m.css''])])
      empty_darrays = Some (a, h) \<and> darray_rep 1 8 h a [[''/a.html''], [''/css/m.css'']]"
  using list_files_complete [of "[DT_REG ''a.html'', DT_REG ''.git'', DT_DIR ''css'' (Some [DT_REG ''m.css''])]"]
  by (simp add: hidden_def)

text \<open>
  With eight files or more the listing is lost: the array has to grow, the address it
  moves to stays in the call that made it grow, and the walk either faults or returns an address
  whose block has been freed.
\<close>

theorem list_files_dangling:
  assumes "8 \<le> length (files_under es ''/'')" and "list_files (Some es) empty_darrays = Some (a, h)"
  shows "da_cells h a = None"
proof -
  obtain b h0 where c: "darray_create ([] :: bytes) empty_darrays 8 1 = (b, h0)"
    by (cases "darray_create ([] :: bytes) empty_darrays 8 1")
  from darray_create_rep [OF _ c] have "darray_rep 1 8 h0 b []" by auto
  from walk_any [OF this] assms show ?thesis by (auto simp: list_files_def c fault_simps simp del: One_nat_def)
qed

abbreviation eight_files :: "dirent list" where
  "eight_files \<equiv> map (\<lambda>c. DT_REG [c]) ''abcdefgh''"

theorem list_files_dangling_witness:
  "\<exists>a h. list_files (Some eight_files) empty_darrays = Some (a, h) \<and> da_cells h a = None"
proof -
  have "map_option (\<lambda>_. ()) (list_files (Some eight_files) empty_darrays) = Some ()" by code_simp
  then obtain a h where r: "list_files (Some eight_files) empty_darrays = Some (a, h)" by auto
  moreover have "8 \<le> length (files_under eight_files ''/'')" by (simp add: hidden_def)
  ultimately show ?thesis using list_files_dangling by blast
qed

end
