(* ===== verification/Sds.thy ===== *)
theory Sds
  imports Sv
begin

text \<open>
  The dynamic strings of \<open>core/vendor/sds.c\<close> and \<open>sds.h\<close> as the program stores them: a header
  with a type, a length and a capacity, and a buffer behind it.  Every header field keeps the
  width its type gives it, every write into the buffer is checked, and the allocator is a
  parameter: \<open>al_ok\<close> says which requests succeed, \<open>al_junk\<close> what fresh memory holds.

  Results: \<open>None\<close> is a fault (an access outside the buffer, or a failed \<open>assert\<close>),
  \<open>Some None\<close> the null string returned when an allocation fails, \<open>Some (Some s)\<close> a string.
\<close>

section \<open>The header\<close>

datatype sds_type = SDS_TYPE_5 | SDS_TYPE_8 | SDS_TYPE_16 | SDS_TYPE_32 | SDS_TYPE_64

record sds =
  sd_type :: sds_type
  sd_len :: nat
  sd_alloc :: nat
  sd_buf :: bytes

record allocator =
  al_ok :: "nat \<Rightarrow> bool"
  al_junk :: "nat \<Rightarrow> byte"

definition sdsHdrSize :: "sds_type \<Rightarrow> nat" where
  "sdsHdrSize t =
     (case t of SDS_TYPE_5 \<Rightarrow> 1 | SDS_TYPE_8 \<Rightarrow> 3 | SDS_TYPE_16 \<Rightarrow> 5 | SDS_TYPE_32 \<Rightarrow> 9 | SDS_TYPE_64 \<Rightarrow> 17)"

text \<open>Bits of a length field; type 5 keeps its length in five bits of the flags byte.\<close>

definition len_bits :: "sds_type \<Rightarrow> nat" where
  "len_bits t =
     (case t of SDS_TYPE_5 \<Rightarrow> 5 | SDS_TYPE_8 \<Rightarrow> 8 | SDS_TYPE_16 \<Rightarrow> 16 | SDS_TYPE_32 \<Rightarrow> 32 | SDS_TYPE_64 \<Rightarrow> 64)"

definition sdsReqType :: "nat \<Rightarrow> sds_type" where
  "sdsReqType string_size =
     (if string_size < 2 ^ 5 then SDS_TYPE_5
      else if string_size < 2 ^ 8 then SDS_TYPE_8
      else if string_size < 2 ^ 16 then SDS_TYPE_16
      else if string_size < 2 ^ 32 then SDS_TYPE_32
      else SDS_TYPE_64)"

definition sdslen :: "sds \<Rightarrow> nat" where
  "sdslen s = sd_len s"

definition sdsalloc :: "sds \<Rightarrow> nat" where
  "sdsalloc s = (if sd_type s = SDS_TYPE_5 then sd_len s else sd_alloc s)"

definition sdsavail :: "sds \<Rightarrow> nat" where
  "sdsavail s = (if sd_type s = SDS_TYPE_5 then 0 else (sd_alloc s + SIZE_MOD - sd_len s) mod SIZE_MOD)"

definition sdssetlen :: "sds \<Rightarrow> nat \<Rightarrow> sds" where
  "sdssetlen s newlen = s\<lparr>sd_len := newlen mod 2 ^ len_bits (sd_type s)\<rparr>"

definition sdsinclen :: "sds \<Rightarrow> nat \<Rightarrow> sds" where
  "sdsinclen s inc = s\<lparr>sd_len := (sd_len s + inc) mod 2 ^ len_bits (sd_type s)\<rparr>"

definition sdssetalloc :: "sds \<Rightarrow> nat \<Rightarrow> sds" where
  "sdssetalloc s newlen =
     (if sd_type s = SDS_TYPE_5 then s else s\<lparr>sd_alloc := newlen mod 2 ^ len_bits (sd_type s)\<rparr>)"

text \<open>A value converted to \<open>size_t\<close>.\<close>

abbreviation sz :: "nat \<Rightarrow> nat" where "sz n \<equiv> n mod SIZE_MOD"

definition SDS_MAX_PREALLOC :: nat where "SDS_MAX_PREALLOC = 1024 * 1024"

section \<open>Allocation\<close>

text \<open>\<open>s_malloc\<close> and \<open>s_realloc\<close> of \<open>n\<close> bytes; \<open>n\<close> counts the header.\<close>

definition s_malloc :: "allocator \<Rightarrow> nat \<Rightarrow> bytes option" where
  "s_malloc A n = (if al_ok A n then Some (map (al_junk A) [0..<n]) else None)"

definition s_realloc :: "allocator \<Rightarrow> nat \<Rightarrow> nat \<Rightarrow> bytes \<Rightarrow> bytes option" where
  "s_realloc A hdr n buf =
     (if al_ok A n then Some (take (n - hdr) (buf @ map (al_junk A) [hdr + length buf..<n])) else None)"

text \<open>What \<open>sdsnewlen\<close> copies from: bytes, the null pointer, or \<open>SDS_NOINIT\<close>.\<close>

datatype init = Init_bytes bytes | Init_null | Init_none

definition sdsnewlen :: "allocator \<Rightarrow> init \<Rightarrow> nat \<Rightarrow> sds option option" where
  "sdsnewlen A ini initlen = do {
     let type = sdsReqType initlen;
     let type = (if type = SDS_TYPE_5 \<and> initlen = 0 then SDS_TYPE_8 else type);
     let hdrlen = sdsHdrSize type;
     let n = sz (hdrlen + initlen + 1);
     (case s_malloc A n of
        None \<Rightarrow> Some None
      | Some sh \<Rightarrow> do {
          buf \<leftarrow> (if ini = Init_null then mem_write sh 0 (replicate (sz (hdrlen + initlen + 1)) NUL) else Some sh);
          guard (hdrlen \<le> n);
          let buf = drop hdrlen buf;
          buf \<leftarrow> (case ini of
             Init_bytes b \<Rightarrow>
               if initlen \<noteq> 0 then do { src \<leftarrow> mem_read b 0 initlen; mem_write buf 0 src } else Some buf
           | _ \<Rightarrow> Some buf);
          buf \<leftarrow> mem_write buf initlen [NUL];
          Some (Some \<lparr>sd_type = type, sd_len = initlen mod 2 ^ len_bits type,
            sd_alloc = (if type = SDS_TYPE_5 then 0 else initlen mod 2 ^ len_bits type), sd_buf = buf\<rparr>)
        })
   }"

definition sdsempty :: "allocator \<Rightarrow> sds option option" where
  "sdsempty A = sdsnewlen A (Init_bytes []) 0"

text \<open>A C string argument is given with its bytes; \<open>strlen\<close> stops at the first NUL.\<close>

definition sdsnew :: "allocator \<Rightarrow> bytes option \<Rightarrow> sds option option" where
  "sdsnew A ini =
     (case ini of
        None \<Rightarrow> sdsnewlen A Init_null 0
      | Some b \<Rightarrow> sdsnewlen A (Init_bytes b) (length (c_str b)))"

definition sdsdup :: "allocator \<Rightarrow> sds \<Rightarrow> sds option option" where
  "sdsdup A s = sdsnewlen A (Init_bytes (sd_buf s)) (sdslen s)"

section \<open>Room\<close>

text \<open>The greedy new capacity, and the type of a string with free space (never type 5).\<close>

definition prealloc_len :: "nat \<Rightarrow> nat" where
  "prealloc_len reqlen =
     (if reqlen < SDS_MAX_PREALLOC then sz (reqlen * 2) else sz (reqlen + SDS_MAX_PREALLOC))"

definition grow_type :: "nat \<Rightarrow> sds_type" where
  "grow_type n = (if sdsReqType n = SDS_TYPE_5 then SDS_TYPE_8 else sdsReqType n)"

definition sdsMakeRoomFor :: "allocator \<Rightarrow> sds \<Rightarrow> nat \<Rightarrow> sds option option" where
  "sdsMakeRoomFor A s addlen = do {
     let avail = sdsavail s;
     let oldtype = sd_type s;
     if avail \<ge> addlen then Some (Some s)
     else do {
       let len = sdslen s;
       let reqlen = sz (len + addlen);
       let newlen = prealloc_len reqlen;
       let type = grow_type newlen;
       let hdrlen = sdsHdrSize type;
       guard (sz (hdrlen + newlen + 1) > reqlen);
       (if oldtype = type then
          (case s_realloc A hdrlen (sz (hdrlen + newlen + 1)) (sd_buf s) of
             None \<Rightarrow> Some None
           | Some newsh \<Rightarrow> Some (Some (sdssetalloc (s\<lparr>sd_buf := newsh\<rparr>) newlen)))
        else
          (case s_malloc A (sz (hdrlen + newlen + 1)) of
             None \<Rightarrow> Some None
           | Some newsh \<Rightarrow> do {
               guard (hdrlen \<le> length newsh);
               src \<leftarrow> mem_read (sd_buf s) 0 (len + 1);
               buf \<leftarrow> mem_write (drop hdrlen newsh) 0 src;
               let s = sdssetlen (s\<lparr>sd_buf := buf, sd_type := type\<rparr>) len;
               Some (Some (sdssetalloc s newlen))
             }))
     }
   }"

definition sdsRemoveFreeSpace :: "allocator \<Rightarrow> sds \<Rightarrow> sds option option" where
  "sdsRemoveFreeSpace A s = do {
     let oldtype = sd_type s;
     let oldhdrlen = sdsHdrSize oldtype;
     let len = sdslen s;
     if sdsavail s = 0 then Some (Some s)
     else do {
       let type = sdsReqType len;
       let hdrlen = sdsHdrSize type;
       (if oldtype = type \<or> type \<noteq> SDS_TYPE_5 \<and> type \<noteq> SDS_TYPE_8 then
          (case s_realloc A oldhdrlen (sz (oldhdrlen + len + 1)) (sd_buf s) of
             None \<Rightarrow> Some None
           | Some newsh \<Rightarrow> Some (Some (sdssetalloc (s\<lparr>sd_buf := newsh\<rparr>) len)))
        else
          (case s_malloc A (sz (hdrlen + len + 1)) of
             None \<Rightarrow> Some None
           | Some newsh \<Rightarrow> do {
               guard (hdrlen \<le> length newsh);
               src \<leftarrow> mem_read (sd_buf s) 0 (len + 1);
               buf \<leftarrow> mem_write (drop hdrlen newsh) 0 src;
               let s = sdssetlen (s\<lparr>sd_buf := buf, sd_type := type\<rparr>) len;
               Some (Some (sdssetalloc s len))
             }))
     }
   }"

definition sdsAllocSize :: "sds \<Rightarrow> nat" where
  "sdsAllocSize s = sz (sdsHdrSize (sd_type s) + sdsalloc s + 1)"

text \<open>
  The assertion of \<open>sdsIncrLen\<close> compares the increment with the free space in the arithmetic of
  the header's type: \<open>int\<close> for the two small headers, unsigned for the two large ones; a
  decrement is truncated to \<open>unsigned int\<close>, except with 64-bit headers.
\<close>

definition incr_allowed :: "sds \<Rightarrow> int \<Rightarrow> bool" where
  "incr_allowed s incr \<longleftrightarrow>
     (case sd_type s of
        SDS_TYPE_5 \<Rightarrow> incr > 0 \<and> int (sd_len s) + incr < 32
      | SDS_TYPE_8 \<Rightarrow> incr \<ge> 0 \<and> int (sd_alloc s) - int (sd_len s) \<ge> incr
      | SDS_TYPE_16 \<Rightarrow> incr \<ge> 0 \<and> int (sd_alloc s) - int (sd_len s) \<ge> incr
      | SDS_TYPE_32 \<Rightarrow> incr \<ge> 0 \<and> (int (sd_alloc s) - int (sd_len s)) mod 2 ^ 32 \<ge> incr mod 2 ^ 32
      | SDS_TYPE_64 \<Rightarrow> incr \<ge> 0 \<and> (int (sd_alloc s) - int (sd_len s)) mod 2 ^ 64 \<ge> incr) \<or>
     incr < 0 \<and> int (sd_len s) \<ge> (- incr) mod 2 ^ (if sd_type s = SDS_TYPE_64 then 64 else 32)"

definition sdsIncrLen :: "sds \<Rightarrow> int \<Rightarrow> sds option" where
  "sdsIncrLen s incr = do {
     guard (incr_allowed s incr);
     let sum = int (sd_len s) + incr;
     let newlen = nat (sum mod 2 ^ len_bits (sd_type s));
     let len = (if sd_type s = SDS_TYPE_5 then nat (sum mod 2 ^ 64) else newlen);
     buf \<leftarrow> mem_write (sd_buf s) len [NUL];
     Some (s\<lparr>sd_len := newlen, sd_buf := buf\<rparr>)
   }"

section \<open>Operations on the contents\<close>

definition sdsclear :: "sds \<Rightarrow> sds option" where
  "sdsclear s = do {
     let s = sdssetlen s 0;
     buf \<leftarrow> mem_write (sd_buf s) 0 [NUL];
     Some (s\<lparr>sd_buf := buf\<rparr>)
   }"

definition sdsupdatelen :: "sds \<Rightarrow> sds" where
  "sdsupdatelen s = sdssetlen s (length (c_str (sd_buf s)))"

definition sdsgrowzero :: "allocator \<Rightarrow> sds \<Rightarrow> nat \<Rightarrow> sds option option" where
  "sdsgrowzero A s len = do {
     let curlen = sdslen s;
     if len \<le> curlen then Some (Some s)
     else do {
       r \<leftarrow> sdsMakeRoomFor A s (len - curlen);
       (case r of
          None \<Rightarrow> Some None
        | Some s \<Rightarrow> do {
            buf \<leftarrow> mem_write (sd_buf s) curlen (replicate (len - curlen + 1) NUL);
            Some (Some (sdssetlen (s\<lparr>sd_buf := buf\<rparr>) len))
          })
     }
   }"

text \<open>\<open>t\<close> holds at least the \<open>len\<close> bytes that are appended.\<close>

definition sdscatlen :: "allocator \<Rightarrow> sds \<Rightarrow> bytes \<Rightarrow> nat \<Rightarrow> sds option option" where
  "sdscatlen A s t len = do {
     let curlen = sdslen s;
     r \<leftarrow> sdsMakeRoomFor A s len;
     (case r of
        None \<Rightarrow> Some None
      | Some s \<Rightarrow> do {
          src \<leftarrow> mem_read t 0 len;
          buf \<leftarrow> mem_write (sd_buf s) curlen src;
          let s = sdssetlen (s\<lparr>sd_buf := buf\<rparr>) (curlen + len);
          buf \<leftarrow> mem_write (sd_buf s) (curlen + len) [NUL];
          Some (Some (s\<lparr>sd_buf := buf\<rparr>))
        })
   }"

definition sdscat :: "allocator \<Rightarrow> sds \<Rightarrow> bytes \<Rightarrow> sds option option" where
  "sdscat A s t = sdscatlen A s t (length (c_str t))"

definition sdscatsds :: "allocator \<Rightarrow> sds \<Rightarrow> sds \<Rightarrow> sds option option" where
  "sdscatsds A s t = sdscatlen A s (sd_buf t) (sdslen t)"

definition sdscpylen :: "allocator \<Rightarrow> sds \<Rightarrow> bytes \<Rightarrow> nat \<Rightarrow> sds option option" where
  "sdscpylen A s t len = do {
     r \<leftarrow> (if sdsalloc s < len then sdsMakeRoomFor A s (len - sdslen s) else Some (Some s));
     (case r of
        None \<Rightarrow> Some None
      | Some s \<Rightarrow> do {
          src \<leftarrow> mem_read t 0 len;
          buf \<leftarrow> mem_write (sd_buf s) 0 src;
          buf \<leftarrow> mem_write buf len [NUL];
          Some (Some (sdssetlen (s\<lparr>sd_buf := buf\<rparr>) len))
        })
   }"

definition sdscpy :: "allocator \<Rightarrow> sds \<Rightarrow> bytes \<Rightarrow> sds option option" where
  "sdscpy A s t = sdscpylen A s t (length (c_str t))"

text \<open>\<open>sdsrange\<close>: indices are 64-bit signed, -1 is the last byte.\<close>

definition sdsrange :: "sds \<Rightarrow> int \<Rightarrow> int \<Rightarrow> sds option" where
  "sdsrange s start e =
     (let len = int (sdslen s)
      in if len = 0 then Some s
         else do {
           let start = (if start < 0 then (if len + start < 0 then 0 else len + start) else start);
           let e = (if e < 0 then (if len + e < 0 then 0 else len + e) else e);
           let newlen = (if start > e then 0 else e - start + 1);
           let newlen =
             (if newlen \<noteq> 0 then (if start \<ge> len then 0 else if e \<ge> len then len - 1 - start + 1 else newlen)
              else newlen);
           buf \<leftarrow> (if start \<noteq> 0 \<and> newlen \<noteq> 0
             then do { src \<leftarrow> mem_read (sd_buf s) (nat start) (nat newlen); mem_write (sd_buf s) 0 src }
             else Some (sd_buf s));
           buf \<leftarrow> mem_write buf (nat newlen) [NUL];
           Some (sdssetlen (s\<lparr>sd_buf := buf\<rparr>) (nat newlen))
         })"

text \<open>
  \<open>strchr\<close> also finds the terminating NUL of the set.  The scans stop at the string's ends:
  \<open>sp\<close> may pass the last byte, \<open>ep\<close> stops at \<open>sp\<close>.
\<close>

definition in_cset :: "bytes \<Rightarrow> byte \<Rightarrow> bool" where
  "in_cset cset c \<longleftrightarrow> c \<in> set (c_str cset) \<or> c = NUL"

definition sdstrim :: "sds \<Rightarrow> bytes \<Rightarrow> sds option" where
  "sdstrim s cset = do {
     str \<leftarrow> mem_read (sd_buf s) 0 (sdslen s);
     let left = length (takeWhile (in_cset cset) str);
     let right = length (takeWhile (in_cset cset) (rev (drop (Suc left) str)));
     let len = sdslen s - left - right;
     src \<leftarrow> mem_read (sd_buf s) left len;
     buf \<leftarrow> mem_write (sd_buf s) 0 src;
     buf \<leftarrow> mem_write buf len [NUL];
     Some (sdssetlen (s\<lparr>sd_buf := buf\<rparr>) len)
   }"

text \<open>The three loops that rewrite every byte of the string.\<close>

definition map_bytes :: "(byte \<Rightarrow> byte) \<Rightarrow> sds \<Rightarrow> sds option" where
  "map_bytes f s = do {
     str \<leftarrow> mem_read (sd_buf s) 0 (sdslen s);
     buf \<leftarrow> mem_write (sd_buf s) 0 (map f str);
     Some (s\<lparr>sd_buf := buf\<rparr>)
   }"

definition sdstolower :: "sds \<Rightarrow> sds option" where
  "sdstolower s = map_bytes c_tolower s"

definition sdstoupper :: "sds \<Rightarrow> sds option" where
  "sdstoupper s = map_bytes c_toupper s"

fun map_char :: "bytes \<Rightarrow> bytes \<Rightarrow> byte \<Rightarrow> byte" where
  "map_char (f # fs) (t # ts) c = (if c = f then t else map_char fs ts c)"
| "map_char _ _ c = c"

definition sdsmapchars :: "sds \<Rightarrow> bytes \<Rightarrow> bytes \<Rightarrow> nat \<Rightarrow> sds option" where
  "sdsmapchars s from to setlen = map_bytes (map_char (take setlen from) (take setlen to)) s"

section \<open>Well-formed strings\<close>

text \<open>
  The string \<open>s\<close> holds the bytes \<open>str\<close>: its length field says so, a byte follows them, the
  capacity fits its field and the buffer has room for it and that byte.  The byte is the NUL, except
  while \<open>sdscatfmt\<close> is at work.
\<close>

definition sds_ends :: "byte \<Rightarrow> sds \<Rightarrow> bytes \<Rightarrow> bool" where
  "sds_ends c s str \<longleftrightarrow> sd_len s = length str \<and> take (Suc (length str)) (sd_buf s) = str @ [c] \<and>
     Suc (sdsalloc s) \<le> length (sd_buf s) \<and> length str \<le> sdsalloc s \<and>
     sdsalloc s < 2 ^ len_bits (sd_type s)"

definition sds_rep :: "sds \<Rightarrow> bytes \<Rightarrow> bool" where
  sds_rep_ends: "sds_rep s str \<longleftrightarrow> sds_ends NUL s str"

lemma sds_rep_def:
  "sds_rep s str \<longleftrightarrow> sd_len s = length str \<and> take (Suc (length str)) (sd_buf s) = str @ [NUL] \<and>
     Suc (sdsalloc s) \<le> length (sd_buf s) \<and> length str \<le> sdsalloc s \<and>
     sdsalloc s < 2 ^ len_bits (sd_type s)"
  by (simp add: sds_rep_ends sds_ends_def)

lemma len_bits_64: "len_bits t \<le> 64"
  by (cases t) (simp_all add: len_bits_def)

lemma sds_ends_bound: "sds_ends c s str \<Longrightarrow> sdsalloc s < SIZE_MOD"
proof -
  assume "sds_ends c s str"
  then have "sdsalloc s < 2 ^ len_bits (sd_type s)" by (simp add: sds_ends_def)
  also have "(2::nat) ^ len_bits (sd_type s) \<le> SIZE_MOD" by (intro power_increasing len_bits_64) simp
  finally show ?thesis .
qed

lemma sds_ends_len [simp]: "sds_ends c s str \<Longrightarrow> sdslen s = length str"
  by (simp add: sds_ends_def sdslen_def)

lemma sds_ends_avail: "sds_ends c s str \<Longrightarrow> sdsavail s = sdsalloc s - length str"
proof -
  assume rep: "sds_ends c s str"
  show ?thesis
  proof (cases "sd_type s = SDS_TYPE_5")
    case False
    with rep sds_ends_bound [OF rep] have "sd_len s \<le> sd_alloc s" "sd_alloc s < SIZE_MOD"
      by (auto simp: sds_ends_def sdsalloc_def)
    then have "sd_alloc s + SIZE_MOD - sd_len s = (sd_alloc s - sd_len s) + SIZE_MOD" "sd_alloc s - sd_len s < SIZE_MOD"
      by simp_all
    then have "(sd_alloc s + SIZE_MOD - sd_len s) mod SIZE_MOD = sd_alloc s - sd_len s"
      by (simp only: mod_add_self2 mod_less)
    with rep False show ?thesis by (simp only: sds_ends_def sdsavail_def sdsalloc_def if_False)
  qed (use rep in \<open>simp add: sds_ends_def sdsavail_def sdsalloc_def\<close>)
qed

lemma sds_ends_read:
  assumes "sds_ends c s str"
  shows "mem_read (sd_buf s) 0 (length str) = Some str"
    and "mem_read (sd_buf s) 0 (Suc (length str)) = Some (str @ [c])"
proof -
  have len: "Suc (length str) \<le> length (sd_buf s)" and tk: "take (Suc (length str)) (sd_buf s) = str @ [c]"
    using assms by (auto simp: sds_ends_def)
  from tk have "take (length str) (sd_buf s) = str"
    by (metis append_eq_conv_conj le_add2 min.absorb1 plus_1_eq_Suc take_take)
  with len tk show "mem_read (sd_buf s) 0 (length str) = Some str"
    "mem_read (sd_buf s) 0 (Suc (length str)) = Some (str @ [c])" by (simp_all add: mem_read_def)
qed

lemmas sds_rep_bound = sds_ends_bound [of NUL, folded sds_rep_ends]
  and sds_rep_len [simp] = sds_ends_len [of NUL, folded sds_rep_ends]
  and sds_rep_avail = sds_ends_avail [of NUL, folded sds_rep_ends]
  and sds_rep_read = sds_ends_read [of NUL, folded sds_rep_ends]

text \<open>The bytes an sds string holds.\<close>

definition sds_bytes :: "sds \<Rightarrow> bytes" where
  "sds_bytes s = take (sd_len s) (sd_buf s)"

lemma sds_bytes_rep [simp]: "sds_rep s str \<Longrightarrow> sds_bytes s = str"
  using sds_rep_read(1) [of s str] by (auto simp: sds_bytes_def sds_rep_def fault_simps)

lemma sds_rep_c_str: "sds_rep s str \<Longrightarrow> c_str (sd_buf s) = c_str str"
proof -
  assume "sds_rep s str"
  then have "(str @ [NUL]) @ drop (Suc (length str)) (sd_buf s) = sd_buf s"
    unfolding sds_rep_def by (metis append_take_drop_id)
  then show ?thesis using c_str_append [of str "drop (Suc (length str)) (sd_buf s)"] by simp
qed

text \<open>Storing new contents that fit the capacity.\<close>

lemma sds_rep_store:
  assumes "sds_rep s str" and "take (Suc (length str')) buf = str' @ [NUL]"
    and "length buf = length (sd_buf s)" and "length str' \<le> sdsalloc s"
  shows "sds_rep (sdssetlen (s\<lparr>sd_buf := buf\<rparr>) (length str')) str'"
proof -
  have "length str' < 2 ^ len_bits (sd_type s)" using assms(1,4) by (simp add: sds_rep_def)
  with assms show ?thesis by (auto simp: sds_rep_def sdssetlen_def sdsalloc_def)
qed

section \<open>Growing\<close>

lemma sdsReqType_fits: "n < SIZE_MOD \<Longrightarrow> n < 2 ^ len_bits (sdsReqType n)"
  by (simp add: sdsReqType_def len_bits_def)

lemma sdsHdrSize_le: "sdsHdrSize t \<le> 17"
  by (cases t) (simp_all add: sdsHdrSize_def)

lemma grow_type_not_5 [simp]: "grow_type n \<noteq> SDS_TYPE_5"
  by (simp add: grow_type_def)

lemma grow_type_fits: "n < SIZE_MOD \<Longrightarrow> n < 2 ^ len_bits (grow_type n)"
proof -
  assume n: "n < SIZE_MOD"
  show ?thesis
  proof (cases "sdsReqType n = SDS_TYPE_5")
    case True
    with sdsReqType_fits [OF n] have "n < 32" by (simp add: len_bits_def)
    with True show ?thesis by (simp add: grow_type_def len_bits_def)
  next
    case False
    with sdsReqType_fits [OF n] show ?thesis by (simp add: grow_type_def)
  qed
qed

lemma realloc_ends:
  assumes rep: "sds_ends c s str" and "s_realloc A hdr n (sd_buf s) = Some buf" and n: "n = hdr + cap + 1"
    and "length str \<le> cap" and "cap < 2 ^ len_bits (sd_type s)" and "sd_type s \<noteq> SDS_TYPE_5"
  shows "sds_ends c (sdssetalloc (s\<lparr>sd_buf := buf\<rparr>) cap) str"
proof -
  let ?b = "sd_buf s"
  from assms(2) have buf: "buf = take (n - hdr) (?b @ map (al_junk A) [hdr + length ?b..<n])"
    by (simp add: s_realloc_def split: if_splits)
  have len: "length buf = Suc cap" using n by (simp add: buf min_def)
  have "Suc (length str) \<le> length ?b" using rep by (simp add: sds_ends_def)
  then have "take (Suc (length str)) buf = take (Suc (length str)) ?b"
    using assms(4) n by (simp add: buf min_def)
  with rep len assms(4-6) show ?thesis
    by (simp add: sds_ends_def sdssetalloc_def sdsalloc_def)
qed

lemma malloc_ends:
  assumes rep: "sds_ends c s str" and blk: "length blk = hdr + cap + 1" and "length str \<le> cap"
    and "cap < 2 ^ len_bits t" and "t \<noteq> SDS_TYPE_5"
  shows "\<exists>buf. mem_write (drop hdr blk) 0 (str @ [c]) = Some buf \<and>
    sds_ends c (sdssetalloc (sdssetlen (s\<lparr>sd_buf := buf, sd_type := t\<rparr>) (length str)) cap) str"
proof -
  obtain buf where buf: "mem_write (drop hdr blk) 0 (str @ [c]) = Some buf"
    using assms by (simp add: mem_write_def)
  then have "length buf = Suc cap" "take (Suc (length str)) buf = str @ [c]"
    using assms length_mem_write [OF buf] by (auto simp: fault_simps)
  with buf assms show ?thesis by (simp add: sds_ends_def sdssetalloc_def sdssetlen_def sdsalloc_def)
qed

lemma sdsMakeRoomFor_ends:
  assumes rep: "sds_ends c s str" and small: "length str + addlen < 2 ^ 62"
  shows "\<exists>r. sdsMakeRoomFor A s addlen = Some r \<and> ((\<forall>n. al_ok A n) \<longrightarrow> r \<noteq> None) \<and>
    (\<forall>s'. r = Some s' \<longrightarrow> sds_ends c s' str \<and> length str + addlen \<le> sdsalloc s' \<and>
      (sdsavail s < addlen \<longrightarrow> sdsalloc s' = prealloc_len (length str + addlen)))"
proof (cases "sdsavail s \<ge> addlen")
  case True
  with rep sds_ends_avail [OF rep] show ?thesis by (auto simp: sdsMakeRoomFor_def sds_ends_def)
next
  case False
  let ?req = "length str + addlen"
  define cap where "cap = prealloc_len ?req"
  define hdr where "hdr = sdsHdrSize (grow_type cap)"
  have cap: "?req \<le> cap" "cap < 2 ^ 63" "cap < SIZE_MOD" using small
    by (auto simp: cap_def prealloc_len_def SDS_MAX_PREALLOC_def)
  have hdr: "0 < hdr" "hdr \<le> 17" using sdsHdrSize_le
    by (auto simp: hdr_def sdsHdrSize_def split: sds_type.split)
  have sz: "sz (hdr + cap + 1) = hdr + cap + 1" "sz ?req = ?req" using cap hdr small by simp_all
  have fits: "cap < 2 ^ len_bits (grow_type cap)" by (rule grow_type_fits [OF cap(3)])
  have room: "guard (?req < hdr + cap + 1) = Some ()" using cap by simp
  have run: "sdsMakeRoomFor A s addlen =
      (if sd_type s = grow_type cap then
         (case s_realloc A hdr (hdr + cap + 1) (sd_buf s) of
            None \<Rightarrow> Some None
          | Some newsh \<Rightarrow> Some (Some (sdssetalloc (s\<lparr>sd_buf := newsh\<rparr>) cap)))
       else
         (case s_malloc A (hdr + cap + 1) of
            None \<Rightarrow> Some None
          | Some newsh \<Rightarrow> do {
              buf \<leftarrow> mem_write (drop hdr newsh) 0 (str @ [c]);
              Some (Some (sdssetalloc (sdssetlen (s\<lparr>sd_buf := buf, sd_type := grow_type cap\<rparr>)
                (length str)) cap))
            }))"
    unfolding sdsMakeRoomFor_def Let_def sds_ends_len [OF rep] sz(2) cap_def [symmetric]
      hdr_def [symmetric] sz(1) room
    using False sds_ends_read(2) [OF rep]
    by (auto simp: s_malloc_def split: option.split)
  show ?thesis
  proof (cases "sd_type s = grow_type cap")
    case True
    then show ?thesis
      using run realloc_ends [OF rep _ refl, of A hdr cap] cap(1) fits
      by (auto simp: s_realloc_def sdssetalloc_def sdsalloc_def cap_def split: option.splits)
  next
    case False
    have "\<exists>buf. mem_write (drop hdr newsh) 0 (str @ [c]) = Some buf \<and>
        sds_ends c (sdssetalloc (sdssetlen (s\<lparr>sd_buf := buf, sd_type := grow_type cap\<rparr>) (length str)) cap) str"
      if "s_malloc A (hdr + cap + 1) = Some newsh" for newsh
      using that cap(1) fits by (intro malloc_ends [OF rep]) (auto simp: s_malloc_def split: if_splits)
    with False run cap(1) fits show ?thesis
      by (cases "s_malloc A (hdr + cap + 1)")
        (auto simp: sdssetalloc_def sdssetlen_def sdsalloc_def s_malloc_def cap_def split: if_splits)
  qed
qed

lemmas sdsMakeRoomFor_full = sdsMakeRoomFor_ends [of NUL, folded sds_rep_ends]
  and realloc_rep = realloc_ends [of NUL, folded sds_rep_ends]

lemma sdsMakeRoomFor_spec:
  assumes "sds_rep s str" and "length str + addlen < 2 ^ 62"
  shows "\<exists>r. sdsMakeRoomFor A s addlen = Some r \<and> ((\<forall>n. al_ok A n) \<longrightarrow> r \<noteq> None) \<and>
    (\<forall>s'. r = Some s' \<longrightarrow> sds_rep s' str \<and> length str + addlen \<le> sdsalloc s')"
  using sdsMakeRoomFor_full [OF assms, of A] by blast

section \<open>Creating\<close>

lemma new_type_fits:
  "n < SIZE_MOD \<Longrightarrow> n < 2 ^ len_bits (if sdsReqType n = SDS_TYPE_5 \<and> n = 0 then SDS_TYPE_8 else sdsReqType n)"
  using sdsReqType_fits [of n] by (auto simp: len_bits_def)

text \<open>What \<open>sdsnewlen\<close> copies: nothing specified, zeros, or the first \<open>n\<close> bytes.\<close>

definition init_holds :: "init \<Rightarrow> nat \<Rightarrow> bytes \<Rightarrow> bool" where
  "init_holds ini n str \<longleftrightarrow> length str = n \<and>
     (case ini of Init_bytes b \<Rightarrow> str = take n b | Init_null \<Rightarrow> str = replicate n NUL | Init_none \<Rightarrow> True)"

lemma sdsnewlen_spec:
  assumes small: "n < 2 ^ 62" and src: "\<And>b. ini = Init_bytes b \<Longrightarrow> n \<le> length b"
  shows "\<exists>r. sdsnewlen A ini n = Some r \<and> ((\<forall>k. al_ok A k) \<longrightarrow> r \<noteq> None) \<and>
    (\<forall>s. r = Some s \<longrightarrow> (\<exists>str. init_holds ini n str \<and> sds_rep s str))"
proof -
  define t where "t = (if sdsReqType n = SDS_TYPE_5 \<and> n = 0 then SDS_TYPE_8 else sdsReqType n)"
  let ?hdr = "sdsHdrSize t"
  have hdr: "?hdr \<le> 17" by (rule sdsHdrSize_le)
  have sz: "sz (?hdr + n + 1) = ?hdr + n + 1" using small hdr by simp
  have fits: "n < 2 ^ len_bits t" unfolding t_def by (rule new_type_fits) (use small in simp)
  show ?thesis
  proof (cases "al_ok A (?hdr + n + 1)")
    case False
    then show ?thesis
      unfolding sdsnewlen_def Let_def t_def [symmetric] sz by (auto simp: s_malloc_def)
  next
    case True
    define sh where "sh = map (al_junk A) [0..<?hdr + n + 1]"
    define b1 where "b1 = (if ini = Init_null then replicate (n + 1) NUL else drop ?hdr sh)"
    define str where "str = (case ini of Init_bytes b \<Rightarrow> take n b | _ \<Rightarrow> take n b1)"
    have len: "length b1 = n + 1" by (simp add: b1_def sh_def)
    have m: "s_malloc A (?hdr + n + 1) = Some sh" using True by (simp add: s_malloc_def sh_def)
    have g: "guard (?hdr \<le> ?hdr + n + 1) = Some ()" by simp
    have str: "length str = n" "init_holds ini n str"
      using len src by (auto simp: str_def init_holds_def b1_def simp flip: replicate_Suc split: init.split)
    have w0: "(if ini = Init_null then mem_write sh 0 (replicate (?hdr + n + 1) NUL) else Some sh) =
        Some (if ini = Init_null then replicate (?hdr + n + 1) NUL else sh)"
      by (simp add: mem_write_def sh_def)
    have d: "drop ?hdr (if ini = Init_null then replicate (?hdr + n + 1) NUL else sh) = b1"
      by (simp add: b1_def del: replicate_Suc)
    have w1: "(case ini of
             Init_bytes b \<Rightarrow> if n \<noteq> 0 then do { src \<leftarrow> mem_read b 0 n; mem_write b1 0 src } else Some b1
           | _ \<Rightarrow> Some b1) = Some (str @ drop n b1)"
      using src len by (auto simp: str_def mem_read_def mem_write_def split: init.split)
    have w2: "mem_write (str @ drop n b1) n [NUL] = Some (str @ [NUL])"
      using str(1) len by (simp add: mem_write_def)
    have "sdsnewlen A ini n = Some (Some \<lparr>sd_type = t, sd_len = n, sd_alloc = (if t = SDS_TYPE_5 then 0 else n),
        sd_buf = str @ [NUL]\<rparr>)"
      unfolding sdsnewlen_def Let_def t_def [symmetric] sz
      by (simp only: m w0 g d w1 w2 option.case Option.bind.bind_lunit mod_less [OF fits])
    moreover have "sds_rep \<lparr>sd_type = t, sd_len = n, sd_alloc = (if t = SDS_TYPE_5 then 0 else n),
        sd_buf = str @ [NUL]\<rparr> str"
      using str(1) fits by (auto simp: sds_rep_def sdsalloc_def)
    ultimately show ?thesis using str(2) by blast
  qed
qed

lemma sdsnewlen_bytes:
  assumes "n < 2 ^ 62" and "n \<le> length b"
  shows "\<exists>r. sdsnewlen A (Init_bytes b) n = Some r \<and> ((\<forall>k. al_ok A k) \<longrightarrow> r \<noteq> None) \<and>
    (\<forall>s. r = Some s \<longrightarrow> sds_rep s (take n b))"
  using sdsnewlen_spec [of n "Init_bytes b" A] assms by (auto simp: init_holds_def)

lemma sdsdup_spec:
  assumes rep: "sds_rep s str" and "length str < 2 ^ 62"
  shows "\<exists>r. sdsdup A s = Some r \<and> ((\<forall>k. al_ok A k) \<longrightarrow> r \<noteq> None) \<and> (\<forall>s'. r = Some s' \<longrightarrow> sds_rep s' str)"
proof -
  have "length str \<le> length (sd_buf s)" "take (length str) (sd_buf s) = str"
    using sds_rep_read(1) [OF rep] by (auto simp: fault_simps)
  with sdsnewlen_bytes [of "length str" "sd_buf s" A] assms show ?thesis by (simp add: sdsdup_def)
qed

section \<open>Appending\<close>

text \<open>Appending a list of byte strings, one after the other.\<close>

fun append_all :: "('s \<Rightarrow> bytes \<Rightarrow> 's option option) \<Rightarrow> 's \<Rightarrow> bytes list \<Rightarrow> 's option option" where
  "append_all app s [] = Some (Some s)"
| "append_all app s (t # ts) = do {
     r \<leftarrow> app s t;
     (case r of None \<Rightarrow> Some None | Some s' \<Rightarrow> append_all app s' ts)
   }"

text \<open>
  A byte string that can be appended to: each append keeps what is there and adds its bytes, or
  reports that memory has run out.
\<close>

locale byte_string =
  fixes holds :: "'s \<Rightarrow> bytes \<Rightarrow> bool" and app :: "'s \<Rightarrow> bytes \<Rightarrow> 's option option" and limit :: nat
  assumes append_law: "holds s str \<Longrightarrow> length str + length t < limit \<Longrightarrow>
    \<exists>r. app s t = Some r \<and> (\<forall>s'. r = Some s' \<longrightarrow> holds s' (str @ t))"
begin

lemma append_all_law:
  "holds s str \<Longrightarrow> length str + length (concat ts) < limit \<Longrightarrow>
   \<exists>r. append_all app s ts = Some r \<and> (\<forall>s'. r = Some s' \<longrightarrow> holds s' (str @ concat ts))"
proof (induction ts arbitrary: s str)
  case (Cons t ts)
  obtain r where r: "app s t = Some r" "\<forall>s'. r = Some s' \<longrightarrow> holds s' (str @ t)"
    using append_law [OF Cons.prems(1), of t] Cons.prems(2) by auto
  show ?case
  proof (cases r)
    case None
    with r show ?thesis by simp
  next
    case (Some s')
    with r have "holds s' (str @ t)" by simp
    from Cons.IH [OF this] Cons.prems(2) r Some show ?thesis by simp
  qed
qed simp

end

lemma sdscatlen_spec:
  assumes rep: "sds_rep s str" and small: "length str + len < 2 ^ 62" and "len \<le> length t"
  shows "\<exists>r. sdscatlen A s t len = Some r \<and> ((\<forall>k. al_ok A k) \<longrightarrow> r \<noteq> None) \<and>
    (\<forall>s'. r = Some s' \<longrightarrow> sds_rep s' (str @ take len t))"
proof -
  obtain r where r: "sdsMakeRoomFor A s len = Some r" "(\<forall>k. al_ok A k) \<longrightarrow> r \<noteq> None"
    "\<forall>s'. r = Some s' \<longrightarrow> sds_rep s' str \<and> length str + len \<le> sdsalloc s'"
    using sdsMakeRoomFor_spec [OF rep small, of A] by blast
  show ?thesis
  proof (cases r)
    case None
    with r rep show ?thesis by (simp add: sdscatlen_def)
  next
    case (Some s1)
    with r have rep1: "sds_rep s1 str" and room: "length str + len \<le> sdsalloc s1" by auto
    let ?new = "str @ take len t"
    have blen: "Suc (length str + len) \<le> length (sd_buf s1)" and tk: "take (length str) (sd_buf s1) = str"
      using rep1 room sds_rep_read(1) [OF rep1] by (auto simp: sds_rep_def fault_simps)
    have w1: "mem_write (sd_buf s1) (length str) (take len t) =
        Some (?new @ drop (length str + len) (sd_buf s1))"
      using blen tk assms(3) by (simp add: mem_write_def)
    define buf where "buf = ?new @ [NUL] @ drop (Suc (length str + len)) (sd_buf s1)"
    have w2: "mem_write (?new @ drop (length str + len) (sd_buf s1)) (length str + len) [NUL] = Some buf"
      using blen assms(3) by (simp add: mem_write_def buf_def)
    have len: "length ?new = length str + len" using assms(3) by simp
    have "sds_rep (sdssetlen (s1\<lparr>sd_buf := buf\<rparr>) (length ?new)) ?new"
      by (rule sds_rep_store [OF rep1]) (use blen room len in \<open>auto simp: buf_def\<close>)
    moreover have "sdscatlen A s t len = Some (Some (sdssetlen (s1\<lparr>sd_buf := buf\<rparr>) (length ?new)))"
      using r(1) Some rep w1 w2 len assms(3) by (simp add: sdscatlen_def mem_read_def sdssetlen_def)
    ultimately show ?thesis by simp
  qed
qed

interpretation sds: byte_string sds_rep "\<lambda>s t. sdscatlen A s t (length t)" "2 ^ 62" for A
  by unfold_locales (use sdscatlen_spec in fastforce)

section \<open>Rewriting in place\<close>

text \<open>Moving \<open>n\<close> bytes of the string to its front and ending it there.\<close>

lemma sds_rep_cut:
  assumes rep: "sds_rep s str" and "off + n \<le> length str"
  shows "\<exists>src b1 b2. mem_read (sd_buf s) off n = Some src \<and> mem_write (sd_buf s) 0 src = Some b1 \<and>
    mem_write b1 n [NUL] = Some b2 \<and> sds_rep (sdssetlen (s\<lparr>sd_buf := b2\<rparr>) n) (take n (drop off str))"
proof -
  let ?b = "sd_buf s" and ?src = "take n (drop off str)"
  have len: "Suc (length str) \<le> length ?b" and tk: "take (length str) ?b = str"
    using rep sds_rep_read(1) [OF rep] by (auto simp: sds_rep_def fault_simps)
  have "take n (drop off ?b) = take n (drop off (take (length str) ?b))"
    using assms(2) by (simp add: drop_take min_def)
  then have r: "mem_read ?b off n = Some ?src" using len assms(2) by (simp add: mem_read_def tk)
  have w1: "mem_write ?b 0 ?src = Some (?src @ drop n ?b)" using len assms(2) by (simp add: mem_write_def)
  have w2: "mem_write (?src @ drop n ?b) n [NUL] = Some (?src @ NUL # drop (Suc n) ?b)"
    using len assms(2) by (simp add: mem_write_def)
  have "sds_rep (sdssetlen (s\<lparr>sd_buf := ?src @ NUL # drop (Suc n) ?b\<rparr>) (length ?src)) ?src"
    by (rule sds_rep_store [OF rep]) (use len assms rep in \<open>auto simp: sds_rep_def\<close>)
  with r w1 w2 assms(2) show ?thesis by simp
qed

text \<open>The substring a Python-like inclusive range with negative indices selects.\<close>

definition range_of :: "bytes \<Rightarrow> int \<Rightarrow> int \<Rightarrow> bytes" where
  "range_of str a b =
     (let n = int (length str);
          a' = (if a < 0 then max 0 (n + a) else a);
          b' = (if b < 0 then max 0 (n + b) else b)
      in if a' > b' \<or> a' \<ge> n then [] else take (nat (min b' (n - 1) - a' + 1)) (drop (nat a') str))"

lemma sdsrange_spec:
  assumes rep: "sds_rep s str"
  shows "\<exists>s'. sdsrange s a b = Some s' \<and> sds_rep s' (range_of str a b)"
proof (cases "str = []")
  case True
  with rep show ?thesis by (auto simp: sdsrange_def range_of_def Let_def)
next
  case False
  let ?n = "int (length str)"
  define a' where "a' = (if a < 0 then (if ?n + a < 0 then 0 else ?n + a) else a)"
  define b' where "b' = (if b < 0 then (if ?n + b < 0 then 0 else ?n + b) else b)"
  define k where "k = (if a' > b' \<or> a' \<ge> ?n then 0 else min b' (?n - 1) - a' + 1)"
  have nn: "0 \<le> a'" "0 \<le> b'" by (auto simp: a'_def b'_def)
  have k: "(if (if a' > b' then 0 else b' - a' + 1) \<noteq> 0
      then (if a' \<ge> ?n then 0 else if b' \<ge> ?n then ?n - 1 - a' + 1 else (if a' > b' then 0 else b' - a' + 1))
      else (if a' > b' then 0 else b' - a' + 1)) = k"
    using nn by (auto simp: k_def)
  have k0: "0 \<le> k" using nn by (auto simp: k_def)
  have range: "range_of str a b = take (nat k) (drop (nat a') str)"
    by (auto simp: range_of_def Let_def k_def a'_def b'_def max_def)
  define off where "off = (if k = 0 then 0 else nat a')"
  have off: "off + nat k \<le> length str"
    using nn False by (auto simp: off_def k_def min_def nat_le_iff split: if_splits)
  from sds_rep_cut [OF rep off] obtain src b1 b2 where
    cut: "mem_read (sd_buf s) off (nat k) = Some src" "mem_write (sd_buf s) 0 src = Some b1"
    "mem_write b1 (nat k) [NUL] = Some b2" "sds_rep (sdssetlen (s\<lparr>sd_buf := b2\<rparr>) (nat k)) (take (nat k) (drop off str))"
    by blast
  have "(if a' \<noteq> 0 \<and> k \<noteq> 0 then do { src \<leftarrow> mem_read (sd_buf s) (nat a') (nat k); mem_write (sd_buf s) 0 src }
      else Some (sd_buf s)) = Some b1"
  proof (cases "a' \<noteq> 0 \<and> k \<noteq> 0")
    case True
    with cut show ?thesis by (simp add: off_def)
  next
    case no: False
    then have "off = 0" using nn by (auto simp: off_def)
    with cut no show ?thesis by (auto simp: fault_simps)
  qed
  moreover have "take (nat k) (drop off str) = range_of str a b"
    unfolding range by (auto simp: off_def)
  ultimately show ?thesis
    using cut(3,4) False unfolding sdsrange_def Let_def sds_rep_len [OF rep] a'_def [symmetric]
      b'_def [symmetric] k by simp
qed

lemma sdstrim_spec:
  assumes rep: "sds_rep s str"
  shows "\<exists>s' l r. sdstrim s cset = Some s' \<and> (\<exists>mid. sds_rep s' mid \<and> str = l @ mid @ r \<and>
    (\<forall>c\<in>set l \<union> set r. in_cset cset c) \<and>
    (mid \<noteq> [] \<longrightarrow> \<not> in_cset cset (hd mid) \<and> \<not> in_cset cset (last mid)))"
proof -
  let ?P = "in_cset cset"
  define l where "l = takeWhile ?P str"
  define rest where "rest = dropWhile ?P str"
  define r where "r = rev (takeWhile ?P (rev (drop (Suc (length l)) str)))"
  define mid where "mid = take (length str - length l - length r) (drop (length l) str)"
  have str: "str = l @ rest" by (simp add: l_def rest_def)
  have tl: "drop (Suc (length l)) str = tl rest" by (subst str) (simp add: drop_Suc)
  have r_suffix: "tl rest = rev (dropWhile ?P (rev (tl rest))) @ r"
    unfolding r_def tl by (metis rev_append rev_rev_ident takeWhile_dropWhile_id)
  have len: "length l + (length str - length l - length r) \<le> length str"
    using arg_cong [OF str, of length] by simp
  from sds_rep_cut [OF rep len] obtain src b1 b2 where
    "mem_read (sd_buf s) (length l) (length str - length l - length r) = Some src"
    "mem_write (sd_buf s) 0 src = Some b1"
    "mem_write b1 (length str - length l - length r) [NUL] = Some b2"
    "sds_rep (sdssetlen (s\<lparr>sd_buf := b2\<rparr>) (length str - length l - length r)) mid"
    unfolding mid_def by blast
  then have run: "\<exists>s'. sdstrim s cset = Some s' \<and> sds_rep s' mid"
    using rep sds_rep_read(1) [OF rep] by (simp add: sdstrim_def l_def r_def Let_def)
  have split: "str = l @ mid @ r \<and> (mid \<noteq> [] \<longrightarrow> \<not> ?P (hd mid) \<and> \<not> ?P (last mid))"
  proof (cases rest)
    case Nil
    then have "r = []" "mid = []" using tl by (simp_all add: r_def mid_def) (simp add: str)
    with str Nil show ?thesis by simp
  next
    case (Cons x xs)
    define m where "m = rev (dropWhile ?P (rev xs))"
    have xs: "xs = m @ r" using r_suffix Cons by (simp add: m_def)
    have "mid = x # m" unfolding mid_def by (subst str, subst str) (simp add: Cons xs)
    moreover have "\<not> ?P x" using Cons by (metis hd_dropWhile list.distinct(1) list.sel(1) rest_def)
    moreover have "m \<noteq> [] \<Longrightarrow> \<not> ?P (last m)"
      unfolding m_def by (metis hd_dropWhile last_rev rev_is_Nil_conv)
    ultimately show ?thesis using str Cons xs by simp
  qed
  have "\<forall>c\<in>set l \<union> set r. ?P c" by (auto simp: l_def r_def dest: set_takeWhileD)
  with run split show ?thesis by blast
qed

lemma map_bytes_spec:
  assumes rep: "sds_rep s str"
  shows "\<exists>s'. map_bytes f s = Some s' \<and> sds_rep s' (map f str)"
proof -
  let ?b = "sd_buf s"
  have len: "Suc (length str) \<le> length ?b" and tk: "take (Suc (length str)) ?b = str @ [NUL]"
    using rep by (auto simp: sds_rep_def)
  have "mem_write ?b 0 (map f str) = Some (map f str @ drop (length str) ?b)"
    using len by (simp add: mem_write_def)
  moreover have "take (Suc 0) (drop (length str) ?b) = [NUL]"
    using tk take_add [of "length str" 1 ?b] sds_rep_read(1) [OF rep] by (auto simp: fault_simps)
  then have "take (Suc (length str)) (map f str @ drop (length str) ?b) = map f str @ [NUL]"
    by (simp add: Suc_diff_le)
  ultimately show ?thesis
    using rep len sds_rep_read(1) [OF rep] by (auto simp: map_bytes_def sds_rep_def sdslen_def sdsalloc_def)
qed

text \<open>Replacing the contents.\<close>

lemma write_front:
  assumes "length t \<le> cap" and "Suc cap \<le> length b"
  shows "\<exists>b1 b2. mem_write b 0 t = Some b1 \<and> mem_write b1 (length t) [NUL] = Some b2 \<and>
    length b2 = length b \<and> take (Suc (length t)) b2 = t @ [NUL]"
proof -
  have "mem_write b 0 t = Some (t @ drop (length t) b)" using assms by (simp add: mem_write_def)
  moreover have "mem_write (t @ drop (length t) b) (length t) [NUL] =
      Some (t @ NUL # drop (Suc (length t)) b)" using assms by (simp add: mem_write_def)
  ultimately show ?thesis using assms by auto
qed

lemma sdscpylen_spec:
  assumes rep: "sds_rep s str" and "len < 2 ^ 62" and "len \<le> length t"
  shows "\<exists>r. sdscpylen A s t len = Some r \<and> ((\<forall>k. al_ok A k) \<longrightarrow> r \<noteq> None) \<and>
    (\<forall>s'. r = Some s' \<longrightarrow> sds_rep s' (take len t))"
proof -
  let ?t = "take len t"
  have put: "\<exists>b1 b2. mem_write (sd_buf s1) 0 ?t = Some b1 \<and> mem_write b1 len [NUL] = Some b2 \<and>
      sds_rep (sdssetlen (s1\<lparr>sd_buf := b2\<rparr>) len) ?t" if s1: "sds_rep s1 str" "len \<le> sdsalloc s1" for s1
  proof -
    have "length ?t \<le> sdsalloc s1" "Suc (sdsalloc s1) \<le> length (sd_buf s1)" and len: "length ?t = len"
      using s1 assms(3) by (simp_all add: sds_rep_def)
    from write_front [OF this(1,2)] obtain b1 b2 where
      "mem_write (sd_buf s1) 0 ?t = Some b1" "mem_write b1 len [NUL] = Some b2"
      "length b2 = length (sd_buf s1)" "take (Suc (length ?t)) b2 = ?t @ [NUL]" unfolding len by blast
    moreover from sds_rep_store [OF s1(1) this(4,3)] s1(2)
    have "sds_rep (sdssetlen (s1\<lparr>sd_buf := b2\<rparr>) len) ?t" unfolding len by simp
    ultimately show ?thesis by blast
  qed
  have rd: "mem_read t 0 len = Some ?t" using assms(3) by (simp add: mem_read_def)
  show ?thesis
  proof (cases "sdsalloc s < len")
    case False
    with put [OF rep] rd show ?thesis by (auto simp: sdscpylen_def)
  next
    case True
    have le: "length str \<le> len" using rep True by (simp add: sds_rep_def)
    then have small: "length str + (len - length str) < 2 ^ 62" using assms(2) by simp
    obtain r where r: "sdsMakeRoomFor A s (len - length str) = Some r" "(\<forall>k. al_ok A k) \<longrightarrow> r \<noteq> None"
      "\<forall>s'. r = Some s' \<longrightarrow> sds_rep s' str \<and> length str + (len - length str) \<le> sdsalloc s'"
      using sdsMakeRoomFor_spec [OF rep small, of A] by blast
    show ?thesis
    proof (cases r)
      case None
      with r True rep show ?thesis by (simp add: sdscpylen_def)
    next
      case (Some s1)
      with r(3) le have "sds_rep s1 str" "len \<le> sdsalloc s1" by auto
      from put [OF this] r(1) Some True rep rd show ?thesis by (auto simp: sdscpylen_def)
    qed
  qed
qed

lemma sdsgrowzero_spec:
  assumes rep: "sds_rep s str" and "len < 2 ^ 62"
  shows "\<exists>r. sdsgrowzero A s len = Some r \<and> ((\<forall>k. al_ok A k) \<longrightarrow> r \<noteq> None) \<and>
    (\<forall>s'. r = Some s' \<longrightarrow> sds_rep s' (str @ replicate (len - length str) NUL))"
proof (cases "len \<le> length str")
  case True
  with rep show ?thesis by (simp add: sdsgrowzero_def)
next
  case False
  let ?k = "len - length str"
  have small: "length str + ?k < 2 ^ 62" using assms(2) False by simp
  obtain r where r: "sdsMakeRoomFor A s ?k = Some r" "(\<forall>k. al_ok A k) \<longrightarrow> r \<noteq> None"
    "\<forall>s'. r = Some s' \<longrightarrow> sds_rep s' str \<and> length str + ?k \<le> sdsalloc s'"
    using sdsMakeRoomFor_spec [OF rep small, of A] by blast
  show ?thesis
  proof (cases r)
    case None
    with r False rep show ?thesis by (simp add: sdsgrowzero_def)
  next
    case (Some s1)
    with r have rep1: "sds_rep s1 str" and room: "len \<le> sdsalloc s1" using False by auto
    let ?new = "str @ replicate ?k NUL"
    have blen: "Suc len \<le> length (sd_buf s1)" and tk: "take (length str) (sd_buf s1) = str"
      using rep1 room sds_rep_read(1) [OF rep1] by (auto simp: sds_rep_def fault_simps)
    define buf where "buf = str @ replicate (Suc ?k) NUL @ drop (Suc len) (sd_buf s1)"
    have w: "mem_write (sd_buf s1) (length str) (replicate (Suc ?k) NUL) = Some buf"
      using blen tk False by (simp add: mem_write_def buf_def del: replicate_Suc)
    have buf: "buf = ?new @ NUL # drop (Suc len) (sd_buf s1)"
      by (simp add: buf_def replicate_append_same [symmetric])
    have "sds_rep (sdssetlen (s1\<lparr>sd_buf := buf\<rparr>) (length ?new)) ?new"
      by (rule sds_rep_store [OF rep1]) (use blen room False in \<open>auto simp: buf\<close>)
    with r(1) Some False rep w show ?thesis by (simp add: sdsgrowzero_def del: replicate_Suc)
  qed
qed

text \<open>After room has been made and the free space written, the length is moved on.\<close>

lemma sdsIncrLen_spec:
  assumes rep: "sds_rep s str" and room: "length str + length t \<le> sdsalloc s"
    and t5: "sd_type s = SDS_TYPE_5 \<Longrightarrow> t \<noteq> []" and small: "length t < 2 ^ 32"
    and buf: "mem_write (sd_buf s) (length str) t = Some buf"
  shows "\<exists>s'. sdsIncrLen (s\<lparr>sd_buf := buf\<rparr>) (int (length t)) = Some s' \<and> sds_rep s' (str @ t)"
proof -
  let ?n = "length str + length t"
  have cap: "sdsalloc s < 2 ^ len_bits (sd_type s)" "length str \<le> sdsalloc s" "sd_len s = length str"
    "Suc (sdsalloc s) \<le> length (sd_buf s)" using rep by (auto simp: sds_rep_def)
  have not5: "sd_type s = SDS_TYPE_5 \<Longrightarrow> t = []" using room cap by (simp add: sdsalloc_def)
  then have type: "sd_type s \<noteq> SDS_TYPE_5" using t5 by blast
  have ok: "incr_allowed (s\<lparr>sd_buf := buf\<rparr>) (int (length t))"
  proof -
    define f where "f = int (sd_alloc s) - int (sd_len s)"
    have "int (sd_alloc s) < int (2 ^ len_bits (sd_type s))"
      using cap(1) type unfolding of_nat_less_iff by (simp add: sdsalloc_def)
    then have "f < 2 ^ len_bits (sd_type s)" unfolding f_def of_nat_power of_nat_numeral by linarith
    moreover have "int (length t) \<le> f" "0 \<le> f" using room cap type by (auto simp: f_def sdsalloc_def)
    moreover have "int (length t) < 2 ^ 32" using small by simp
    ultimately show ?thesis
      using type by (cases "sd_type s") (simp_all add: incr_allowed_def f_def [symmetric] len_bits_def)
  qed
  have "?n mod 2 ^ len_bits (sd_type s) = ?n" using room cap(1) by simp
  then have sum: "nat ((int (length str) + int (length t)) mod 2 ^ len_bits (sd_type s)) = ?n"
    by (metis nat_int of_nat_add of_nat_mod of_nat_numeral of_nat_power)
  have tk: "take (length str) (sd_buf s) = str" using sds_rep_read(1) [OF rep] by (auto simp: fault_simps)
  have b: "buf = str @ t @ drop ?n (sd_buf s)" using buf tk by (simp add: fault_simps)
  have w: "mem_write buf ?n [NUL] = Some ((str @ t) @ NUL # drop (Suc ?n) (sd_buf s))"
    using room cap by (simp add: mem_write_def b)
  have "sds_rep (sdssetlen (s\<lparr>sd_buf := (str @ t) @ NUL # drop (Suc ?n) (sd_buf s)\<rparr>) (length (str @ t))) (str @ t)"
    by (rule sds_rep_store [OF rep]) (use room cap in auto)
  moreover have "?n mod 2 ^ len_bits (sd_type s) = ?n" using room cap(1) by simp
  ultimately show ?thesis
    using ok sum w type cap(3)
    by (auto simp: sdsIncrLen_def Let_def sdssetlen_def sds_rep_def sdsalloc_def)
qed

lemma sdsRemoveFreeSpace_spec:
  assumes rep: "sds_rep s str" and small: "length str < 2 ^ 62"
  shows "\<exists>r. sdsRemoveFreeSpace A s = Some r \<and> ((\<forall>k. al_ok A k) \<longrightarrow> r \<noteq> None) \<and>
    (\<forall>s'. r = Some s' \<longrightarrow> sds_rep s' str \<and> sdsavail s' = 0)"
proof (cases "sdsavail s = 0")
  case True
  with rep show ?thesis by (simp add: sdsRemoveFreeSpace_def)
next
  case False
  let ?n = "length str"
  have t5: "sd_type s \<noteq> SDS_TYPE_5" using False by (auto simp: sdsavail_def)
  have cap: "?n \<le> sd_alloc s" "sd_alloc s < 2 ^ len_bits (sd_type s)" "sd_len s = ?n"
    using rep t5 by (auto simp: sds_rep_def sdsalloc_def)
  define type where "type = sdsReqType ?n"
  let ?oh = "sdsHdrSize (sd_type s)" and ?h = "sdsHdrSize type"
  have sz: "sz (?oh + ?n + 1) = ?oh + ?n + 1" "sz (?h + ?n + 1) = ?h + ?n + 1"
    using small sdsHdrSize_le [of "sd_type s"] sdsHdrSize_le [of type] by simp_all
  have fits: "?n < 2 ^ len_bits type" unfolding type_def by (rule sdsReqType_fits) (use small in simp)
  have avail: "sdsavail s' = 0" if "sds_rep s' str" "sdsalloc s' = ?n" for s'
    using that by (simp add: sds_rep_avail)
  show ?thesis
  proof (cases "sd_type s = type \<or> type \<noteq> SDS_TYPE_5 \<and> type \<noteq> SDS_TYPE_8")
    case True
    have run: "sdsRemoveFreeSpace A s = (case s_realloc A ?oh (?oh + ?n + 1) (sd_buf s) of
             None \<Rightarrow> Some None
           | Some newsh \<Rightarrow> Some (Some (sdssetalloc (s\<lparr>sd_buf := newsh\<rparr>) ?n)))"
      unfolding sdsRemoveFreeSpace_def Let_def sds_rep_len [OF rep] type_def [symmetric] sz
      using False True by simp
    show ?thesis
    proof (cases "s_realloc A ?oh (?oh + ?n + 1) (sd_buf s)")
      case None
      with run show ?thesis by (auto simp: s_realloc_def split: if_splits)
    next
      case (Some b)
      have "sds_rep (sdssetalloc (s\<lparr>sd_buf := b\<rparr>) ?n) str"
        by (rule realloc_rep [OF rep Some refl order_refl _ t5]) (use cap in simp)
      moreover have "sdsalloc (sdssetalloc (s\<lparr>sd_buf := b\<rparr>) ?n) = ?n"
        using t5 cap by (simp add: sdssetalloc_def sdsalloc_def)
      ultimately show ?thesis using run Some avail by simp
    qed
  next
    case other: False
    have run: "sdsRemoveFreeSpace A s = (case s_malloc A (?h + ?n + 1) of
             None \<Rightarrow> Some None
           | Some newsh \<Rightarrow> do {
               guard (?h \<le> length newsh);
               buf \<leftarrow> mem_write (drop ?h newsh) 0 (str @ [NUL]);
               Some (Some (sdssetalloc (sdssetlen (s\<lparr>sd_buf := buf, sd_type := type\<rparr>) ?n) ?n))
             })"
      unfolding sdsRemoveFreeSpace_def Let_def sds_rep_len [OF rep] type_def [symmetric] sz
      using False other sds_rep_read(2) [OF rep] by (auto split: option.split)
    show ?thesis
    proof (cases "s_malloc A (?h + ?n + 1)")
      case None
      with run show ?thesis by (auto simp: s_malloc_def split: if_splits)
    next
      case (Some b)
      then have blen: "length b = ?h + ?n + 1" by (auto simp: s_malloc_def split: if_splits)
      from write_front [of str ?n "drop ?h b"] blen obtain b2 where
        "mem_write (drop ?h b) 0 (str @ [NUL]) = Some b2" "length b2 = Suc ?n"
        "take (Suc ?n) b2 = str @ [NUL]"
        by (simp add: mem_write_def)
      with run Some blen fits avail show ?thesis
        by (auto simp: sds_rep_def sdssetalloc_def sdssetlen_def sdsalloc_def)
    qed
  qed
qed

section \<open>Properties\<close>

abbreviation std_alloc :: allocator where
  "std_alloc \<equiv> \<lparr>al_ok = (\<lambda>n. True), al_junk = (\<lambda>i. CHR ''?'')\<rparr>"

abbreviation sds_ab :: sds where
  "sds_ab \<equiv> \<lparr>sd_type = SDS_TYPE_8, sd_len = 2, sd_alloc = 3, sd_buf = ''ab'' @ [NUL, CHR ''?'']\<rparr>"

lemma sds_ab_rep: "sds_rep sds_ab ''ab''"
  by (simp add: sds_rep_def sdsalloc_def len_bits_def)

text \<open>
  Appending any number of byte strings to an sds string, growing and changing its header
  type as needed, never writes outside its buffer and never fails an assertion; unless an
  allocation fails, the result holds the old bytes followed by all the new ones, NULs
  included.
\<close>

theorem sdscatlen_appends:
  assumes "sds_rep s str" and "length str + length (concat ts) < 2 ^ 62"
  shows "\<exists>r. append_all (\<lambda>s t. sdscatlen A s t (length t)) s ts = Some r \<and>
    (\<forall>s'. r = Some s' \<longrightarrow> sds_rep s' (str @ concat ts))"
  using sds.append_all_law [OF assms] .

theorem sdscatlen_appends_witness:
  "\<exists>r. append_all (\<lambda>s t. sdscatlen std_alloc s t (length t)) sds_ab [''cd'', [NUL], ''ef''] = Some r \<and>
    (\<forall>s'. r = Some s' \<longrightarrow> sds_rep s' (''abcd'' @ [NUL] @ ''ef''))"
  using sdscatlen_appends [OF sds_ab_rep, of "[''cd'', [NUL], ''ef'']" std_alloc] by simp

text \<open>
  The schema the receiver uses: after \<open>sdsMakeRoomFor (s, n)\<close> succeeds there are at least
  \<open>n\<close> free bytes, and when any \<open>t\<close> that fits the free space has been written behind the
  string, \<open>sdsIncrLen\<close> passes its assertion and the string holds the old bytes followed by
  \<open>t\<close>.
\<close>

theorem sds_make_room_incr:
  assumes rep: "sds_rep s str" and "0 < n" and "length str + n < 2 ^ 62"
    and room: "sdsMakeRoomFor A s n = Some (Some s')"
    and t: "length t \<le> sdsavail s'" "length t < 2 ^ 32"
  shows "n \<le> sdsavail s' \<and> (\<exists>buf s''. mem_write (sd_buf s') (sdslen s') t = Some buf \<and>
    sdsIncrLen (s'\<lparr>sd_buf := buf\<rparr>) (int (length t)) = Some s'' \<and> sds_rep s'' (str @ t))"
proof -
  have rep': "sds_rep s' str" and cap: "length str + n \<le> sdsalloc s'"
    using sdsMakeRoomFor_spec [OF rep assms(3), of A] room by auto
  have avail: "sdsavail s' = sdsalloc s' - length str" by (rule sds_rep_avail [OF rep'])
  have type: "sd_type s' \<noteq> SDS_TYPE_5" using avail cap \<open>0 < n\<close> by (auto simp: sdsavail_def)
  have fit: "length str + length t \<le> sdsalloc s'" using avail t(1) cap by linarith
  then obtain buf where buf: "mem_write (sd_buf s') (length str) t = Some buf"
    using rep' by (auto simp: mem_write_def sds_rep_def)
  from sdsIncrLen_spec [OF rep' fit _ t(2) buf] type buf rep' avail cap show ?thesis by auto
qed

theorem sds_make_room_incr_witness:
  "\<exists>s' buf s''. sdsMakeRoomFor std_alloc sds_ab 3 = Some (Some s') \<and>
    mem_write (sd_buf s') (sdslen s') ''cde'' = Some buf \<and>
    sdsIncrLen (s'\<lparr>sd_buf := buf\<rparr>) 3 = Some s'' \<and> sds_rep s'' ''abcde''"
proof -
  obtain s' where s': "sdsMakeRoomFor std_alloc sds_ab 3 = Some (Some s')" "sds_rep s' ''ab''"
    "5 \<le> sdsalloc s'"
    using sdsMakeRoomFor_spec [OF sds_ab_rep, of 3 std_alloc] by auto
  then have "3 \<le> sdsavail s'" by (simp add: sds_rep_avail)
  with sds_make_room_incr [OF sds_ab_rep _ _ s'(1), of "''cde''"] s' show ?thesis by auto
qed

text \<open>
  \<open>sdsrange\<close>, with which a partly sent buffer is advanced, keeps exactly the inclusive
  range of bytes its indices select, negative ones counting from the end and anything out of
  range clipped, without ever leaving the buffer.
\<close>

theorem sdsrange_selects:
  assumes "sds_rep s str"
  shows "\<exists>s'. sdsrange s a b = Some s' \<and> sds_rep s' (range_of str a b)"
  using assms by (rule sdsrange_spec)

theorem sdsrange_selects_witness:
  "\<exists>s'. sdsrange sds_ab 1 (- 1) = Some s' \<and> sds_rep s' ''b''"
  using sdsrange_selects [OF sds_ab_rep, of 1 "- 1"] by (simp add: range_of_def)

text \<open>Advancing by \<open>n\<close> bytes drops them.\<close>

lemma range_of_drop: "0 < n \<Longrightarrow> int n \<le> int (length str) \<Longrightarrow> range_of str (int n) (- 1) = drop n str"
  by (auto simp: range_of_def Let_def max_def min_def)

text \<open>
  The other operations that rewrite a string: each succeeds (up to failing allocations)
  without leaving the buffer, and the string then holds what the operation promises.
\<close>

theorem sds_rewrites:
  assumes "sds_rep s str" and "length str < 2 ^ 62" and "len < 2 ^ 62" and "len \<le> length t"
  shows "(\<exists>r. sdscpylen A s t len = Some r \<and> (\<forall>s'. r = Some s' \<longrightarrow> sds_rep s' (take len t)))
    \<and> (\<exists>r. sdsgrowzero A s len = Some r \<and> (\<forall>s'. r = Some s' \<longrightarrow> sds_rep s' (str @ replicate (len - length str) NUL)))
    \<and> (\<exists>r. sdsRemoveFreeSpace A s = Some r \<and> (\<forall>s'. r = Some s' \<longrightarrow> sds_rep s' str \<and> sdsavail s' = 0))
    \<and> (\<exists>r. sdsdup A s = Some r \<and> (\<forall>s'. r = Some s' \<longrightarrow> sds_rep s' str))
    \<and> (\<exists>s'. sdsmapchars s from to n = Some s' \<and> sds_rep s' (map (map_char (take n from) (take n to)) str))
    \<and> (\<exists>s'. sdstolower s = Some s' \<and> sds_rep s' (map c_tolower str))
    \<and> (\<exists>s'. sdstoupper s = Some s' \<and> sds_rep s' (map c_toupper str))"
proof (intro conjI)
  show "\<exists>r. sdscpylen A s t len = Some r \<and> (\<forall>s'. r = Some s' \<longrightarrow> sds_rep s' (take len t))"
    using sdscpylen_spec [OF assms(1,3,4), of A] by blast
  show "\<exists>r. sdsgrowzero A s len = Some r \<and> (\<forall>s'. r = Some s' \<longrightarrow> sds_rep s' (str @ replicate (len - length str) NUL))"
    using sdsgrowzero_spec [OF assms(1,3), of A] by blast
  show "\<exists>r. sdsRemoveFreeSpace A s = Some r \<and> (\<forall>s'. r = Some s' \<longrightarrow> sds_rep s' str \<and> sdsavail s' = 0)"
    using sdsRemoveFreeSpace_spec [OF assms(1,2), of A] by blast
  show "\<exists>r. sdsdup A s = Some r \<and> (\<forall>s'. r = Some s' \<longrightarrow> sds_rep s' str)"
    using sdsdup_spec [OF assms(1,2), of A] by blast
qed (simp_all add: sdsmapchars_def sdstolower_def sdstoupper_def map_bytes_spec [OF assms(1)])

theorem sds_rewrites_witness:
  "\<exists>s'. sdstoupper sds_ab = Some s' \<and> sds_rep s' (map c_toupper ''ab'')"
  using sds_rewrites [OF sds_ab_rep, of 1 "''x''"] by simp

end
