(* ===== verification/SdsNum.thy ===== *)
theory SdsNum
  imports Sds
begin

text \<open>
  Numbers as strings: \<open>sdsll2str\<close>, \<open>sdsull2str\<close> and \<open>sdsfromlonglong\<close> of
  \<open>core/vendor/sds.c\<close>, which prints the \<open>Content-Length\<close> of every file response.  The digits are
  produced backwards into the caller's buffer and then reversed in place; each access is
  checked against the buffer.
\<close>

section \<open>Operations\<close>

text \<open>The \<open>do ... while\<close> loop: digits of \<open>v\<close> written from \<open>p\<close> on, and the end.\<close>

function digit_loop :: "bytes \<Rightarrow> nat \<Rightarrow> u64 \<Rightarrow> (bytes \<times> nat) option" where
  "digit_loop s p v = do {
     s \<leftarrow> mem_write s p [char_of (48 + unat (v mod 10))];
     let v = v div 10;
     if v \<noteq> 0 then digit_loop s (p + 1) v else Some (s, p + 1)
   }"
  by pat_completeness auto
termination
proof (relation "measure (\<lambda>(s, p, v). unat v)")
  fix s s1 :: bytes and p and v v' :: u64
  assume "v' = v div 10" and "v' \<noteq> 0"
  then have "unat v' = unat v div 10" and "unat v' \<noteq> 0"
    unfolding unat_eq_zero by (simp_all add: unat_div)
  then have "unat v' < unat v" by (cases "unat v = 0") simp_all
  then show "((s1, p + 1, v'), s, p, v) \<in> measure (\<lambda>(s, p, v). unat v)" by simp
qed simp

declare digit_loop.simps [simp del]

text \<open>The reversal: \<open>i\<close> and \<open>j\<close> are the pointers \<open>s\<close> and \<open>p\<close>; \<open>j\<close> is one past the last byte.\<close>

function reverse_loop :: "bytes \<Rightarrow> nat \<Rightarrow> nat \<Rightarrow> bytes option" where
  "reverse_loop s i j =
     (if i + 1 < j then do {
        aux \<leftarrow> mem_read s i 1;
        c \<leftarrow> mem_read s (j - 1) 1;
        s \<leftarrow> mem_write s i c;
        s \<leftarrow> mem_write s (j - 1) aux;
        reverse_loop s (i + 1) (j - 1)
      }
      else Some s)"
  by pat_completeness auto
termination by (relation "measure (\<lambda>(s, i, j). j - i)") auto

declare reverse_loop.simps [simp del]

definition sdsull2str :: "bytes \<Rightarrow> u64 \<Rightarrow> (bytes \<times> nat) option" where
  "sdsull2str s v = do {
     (s, l) \<leftarrow> digit_loop s 0 v;
     s \<leftarrow> mem_write s l [NUL];
     s \<leftarrow> reverse_loop s 0 l;
     Some (s, l)
   }"

definition LLONG_MIN :: u64 where "LLONG_MIN = 2 ^ 63"

definition sdsll2str :: "bytes \<Rightarrow> u64 \<Rightarrow> (bytes \<times> nat) option" where
  "sdsll2str s value = do {
     let v = (if value <s 0 then (if value \<noteq> LLONG_MIN then - value else (2 ^ 63 - 1) + 1) else value);
     (s, p) \<leftarrow> digit_loop s 0 v;
     (s, p) \<leftarrow> (if value <s 0 then do { s \<leftarrow> mem_write s p [CHR ''-'']; Some (s, p + 1) } else Some (s, p));
     s \<leftarrow> mem_write s p [NUL];
     s \<leftarrow> reverse_loop s 0 p;
     Some (s, p)
   }"

definition SDS_LLSTR_SIZE :: nat where "SDS_LLSTR_SIZE = 21"

text \<open>\<open>buf\<close> is the content of the uninitialised local array.\<close>

definition sdsfromlonglong :: "allocator \<Rightarrow> bytes \<Rightarrow> u64 \<Rightarrow> sds option option" where
  "sdsfromlonglong A buf value = do {
     (buf, len) \<leftarrow> sdsll2str buf value;
     sdsnewlen A (Init_bytes buf) len
   }"

section \<open>What the loops compute\<close>

lemma digits_step: "digits n = (if n < 10 then [] else digits (n div 10)) @ [char_of (48 + n mod 10)]"
  by (subst digits.simps) simp

lemma digit_loop_spec:
  "p + length (digits (unat v)) \<le> length s \<Longrightarrow>
   digit_loop s p v = Some (take p s @ rev (digits (unat v)) @ drop (p + length (digits (unat v))) s,
     p + length (digits (unat v)))"
proof (induction s p v rule: digit_loop.induct)
  case (1 s p v)
  let ?c = "char_of (48 + unat v mod 10) :: char"
  have c: "char_of (48 + unat (v mod 10)) = ?c" by (simp add: unat_mod)
  have z: "v div 10 = 0 \<longleftrightarrow> unat v < 10"
    unfolding unat_eq_zero [symmetric] unat_div by (simp add: div_eq_0_iff)
  have le: "p < length s" using "1.prems" by (subst (asm) digits_step) auto
  define s1 where "s1 = take p s @ ?c # drop (Suc p) s"
  have w: "mem_write s p [char_of (48 + unat (v mod 10))] = Some s1"
    using le by (simp add: mem_write_def c s1_def)
  show ?case
  proof (cases "unat v < 10")
    case True
    with z w le show ?thesis
      by (subst digit_loop.simps) (simp add: digits.simps [of "unat v"] s1_def)
  next
    case False
    let ?d = "digits (unat v div 10)"
    have d: "digits (unat v) = ?d @ [?c]" "unat (v div 10) = unat v div 10"
      using False by (subst digits_step) (simp_all add: unat_div)
    have nz: "v div 10 \<noteq> 0" using z False by simp
    have "digit_loop s1 (p + 1) (v div 10) =
        Some (take (p + 1) s1 @ rev ?d @ drop (p + 1 + length ?d) s1, p + 1 + length ?d)"
      using "1.IH" [OF w refl nz] "1.prems" le d by (simp add: s1_def)
    moreover have "take (p + 1) s1 = take p s @ [?c]" "drop (p + 1 + length ?d) s1 = drop (p + Suc (length ?d)) s"
      using le by (simp_all add: s1_def add.commute)
    ultimately show ?thesis using w nz by (subst digit_loop.simps) (simp add: d)
  qed
qed

lemma reverse_loop_spec:
  "reverse_loop (a @ mid @ b) (length a) (length a + length mid) = Some (a @ rev mid @ b)"
proof (induction mid arbitrary: a b rule: length_induct)
  case (1 mid)
  show ?case
  proof (cases "Suc 0 < length mid")
    case False
    then have "rev mid = mid" by (cases mid) auto
    with False show ?thesis by (subst reverse_loop.simps) simp
  next
    case True
    then obtain x m y where mid: "mid = x # m @ [y]"
      by (cases mid; cases "tl mid" rule: rev_cases) auto
    have "reverse_loop ((a @ [y]) @ m @ (x # b)) (length (a @ [y])) (length (a @ [y]) + length m) =
        Some ((a @ [y]) @ rev m @ (x # b))"
      using "1.IH" [rule_format, of m "a @ [y]" "x # b"] mid by simp
    then show ?thesis
      by (subst reverse_loop.simps) (simp add: mid mem_read_def mem_write_def)
  qed
qed

section \<open>Properties\<close>

lemma digits_u64: "length (digits (unat (v :: u64))) \<le> 20"
proof -
  have "unat v < 10 ^ 20" using u64_less [of v] by simp
  then show ?thesis by (intro digits_length) simp_all
qed

lemma sint_range: "- (2 ^ 63) \<le> sint (w :: u64) \<and> sint w < 2 ^ 63"
  using sint_ge [of w] sint_lt [of w] by simp

lemma unat_magnitude: "unat (if sint w < 0 then - w else w :: u64) = nat \<bar>sint w\<bar>"
proof -
  let ?m = "if sint w < 0 then - w else w"
  have "?m = word_of_int \<bar>sint w\<bar>" by (simp add: abs_if wi_hom_neg [symmetric])
  then have "uint ?m = \<bar>sint w\<bar> mod 2 ^ 64" by (simp add: uint_word_of_int)
  also have "\<dots> = \<bar>sint w\<bar>" using sint_range [of w] by (intro mod_pos_pos_trivial) auto
  finally show ?thesis by (metis unat_eq_nat_uint)
qed

lemma sdsull2str_spec:
  assumes "21 \<le> length s"
  shows "\<exists>rest. sdsull2str s v = Some (digits (unat v) @ NUL # rest, length (digits (unat v)))"
proof -
  let ?d = "digits (unat v)"
  have d: "length ?d \<le> 20" by (rule digits_u64)
  have "digit_loop s 0 v = Some (rev ?d @ drop (length ?d) s, length ?d)"
    using digit_loop_spec [of 0 v s] d assms by simp
  moreover have "mem_write (rev ?d @ drop (length ?d) s) (length ?d) [NUL] =
      Some (rev ?d @ NUL # drop (Suc (length ?d)) s)"
    using d assms by (simp add: mem_write_def)
  ultimately show ?thesis
    using reverse_loop_spec [of "[]" "rev ?d" "NUL # drop (Suc (length ?d)) s"]
    by (simp add: sdsull2str_def)
qed

text \<open>
  \<open>sdsull2str\<close> writes the decimal digits of its argument, NUL-terminated, and returns their
  number; a buffer of 21 bytes (\<open>SDS_LLSTR_SIZE\<close>) is enough for every value.
\<close>

theorem sdsull2str_prints:
  assumes "21 \<le> length s"
  shows "\<exists>rest. sdsull2str s v = Some (digits (unat v) @ NUL # rest, length (digits (unat v)))"
  using assms by (rule sdsull2str_spec)

theorem sdsull2str_prints_witness:
  "\<exists>rest. sdsull2str (replicate 21 (CHR ''?'')) 65536 = Some (digits 65536 @ NUL # rest, length (digits 65536))"
  using sdsull2str_prints [of "replicate 21 (CHR ''?'')" 65536] by simp

lemma sdsll2str_spec:
  assumes "21 \<le> length s"
  shows "\<exists>rest. sdsll2str s value = Some (decimal (sint value) @ NUL # rest, length (decimal (sint value)))"
proof -
  define v where "v = (if value <s 0 then (if value \<noteq> LLONG_MIN then - value else (2 ^ 63 - 1) + 1) else value)"
  let ?d = "digits (unat v)" and ?neg = "sint value < 0"
  have neg: "value <s 0 \<longleftrightarrow> ?neg" by (simp add: word_sless_alt)
  have v: "v = (if ?neg then - value else value)" by (auto simp: v_def LLONG_MIN_def neg)
  have mag: "unat v = nat \<bar>sint value\<bar>" by (simp add: v unat_magnitude)
  have "\<bar>sint value\<bar> < 10 ^ 19" using sint_range [of "value"] by (simp add: abs_if)
  then have "unat v < 10 ^ 19" unfolding mag by (simp add: nat_less_iff)
  then have d: "length ?d \<le> 19" by (intro digits_length) simp_all
  define sign where "sign = (if ?neg then [CHR ''-''] else [])"
  let ?out = "sign @ ?d"
  have out: "?out = decimal (sint value)" by (simp add: sign_def decimal_def mag)
  have len: "length ?out \<le> 20" using d by (simp add: sign_def)
  have w1: "digit_loop s 0 v = Some (rev ?d @ drop (length ?d) s, length ?d)"
    using digit_loop_spec [of 0 v s] d assms by simp
  have w2: "(if value <s 0 then do { s \<leftarrow> mem_write (rev ?d @ drop (length ?d) s) (length ?d) [CHR ''-''];
        Some (s, length ?d + 1) } else Some (rev ?d @ drop (length ?d) s, length ?d)) =
      Some (rev ?out @ drop (length ?out) s, length ?out)"
    using d assms by (simp add: neg sign_def mem_write_def)
  have w3: "mem_write (rev ?out @ drop (length ?out) s) (length ?out) [NUL] =
      Some (rev ?out @ NUL # drop (Suc (length ?out)) s)"
    using len assms by (simp add: mem_write_def)
  have w4: "reverse_loop (rev ?out @ NUL # drop (Suc (length ?out)) s) 0 (length ?out) =
      Some (?out @ NUL # drop (Suc (length ?out)) s)"
    using reverse_loop_spec [of "[]" "rev ?out" "NUL # drop (Suc (length ?out)) s"] by (simp add: add.commute)
  show ?thesis
    unfolding sdsll2str_def Let_def v_def [symmetric] out [symmetric]
    by (simp only: w1 w2 w3 w4 Option.bind.bind_lunit prod.case) blast
qed

text \<open>The string a number is made into.\<close>

lemma length_decimal_u64: "length (decimal (sint (v :: u64))) \<le> 20"
proof -
  have "nat \<bar>sint v\<bar> < 10 ^ 19" using sint_range [of v] by (simp add: abs_if nat_less_iff)
  from digits_length [OF this] show ?thesis by (auto simp: decimal_def abs_if split: if_splits)
qed

lemma sdsfromlonglong_spec:
  assumes "length buf = SDS_LLSTR_SIZE" and "\<forall>n. al_ok A n"
  shows "\<exists>s. sdsfromlonglong A buf value = Some (Some s) \<and> sds_rep s (decimal (sint value))"
proof -
  obtain rest where r: "sdsll2str buf value = Some (decimal (sint value) @ NUL # rest, length (decimal (sint value)))"
    using sdsll2str_spec [of buf "value"] assms(1) by (auto simp: SDS_LLSTR_SIZE_def)
  have "length (decimal (sint value)) < 2 ^ 62" using length_decimal_u64 [of "value"] by simp
  from sdsnewlen_spec [OF this, of "Init_bytes (decimal (sint value) @ NUL # rest)" A] r assms(2) show ?thesis
    by (auto simp: sdsfromlonglong_def init_holds_def)
qed

text \<open>
  \<open>sdsll2str\<close> prints every signed 64-bit value in decimal, the most negative one included,
  and never leaves a buffer of 21 bytes (\<open>SDS_LLSTR_SIZE\<close>), the terminating NUL included.
\<close>

theorem sdsll2str_prints:
  assumes "21 \<le> length s"
  shows "\<exists>rest. sdsll2str s value = Some (decimal (sint value) @ NUL # rest, length (decimal (sint value)))"
  using assms by (rule sdsll2str_spec)

theorem sdsll2str_prints_witness:
  "\<exists>rest. sdsll2str (replicate 21 (CHR ''?'')) LLONG_MIN =
    Some (decimal (- (2 ^ 63)) @ NUL # rest, length (decimal (- (2 ^ 63))))"
  using sdsll2str_prints [of "replicate 21 (CHR ''?'')" LLONG_MIN] by (simp add: LLONG_MIN_def)

end
