(* ===== verification/Router.thy ===== *)
theory Router
  imports Request Response RouteTrie Hashmap FileList SdsNum
begin

text \<open>
  The router, \<open>network/routing/router.c\<close>: the table of public files, the trie of registered
  routes, and what is started for a request.  A handler is a value of type \<open>'cb\<close>.
\<close>

section \<open>Creation\<close>

record 'cb router_t =
  routing_table :: "'cb trie_t"
  public_directory_hmap :: "unit hashmap"

text \<open>Storing the listed paths; the results of \<open>hashmap_set\<close> are ignored.\<close>

fun set_public :: "unit hashmap \<Rightarrow> bytes list \<Rightarrow> unit hashmap option" where
  "set_public hm [] = Some hm"
| "set_public hm (f # fs) = do { (hm, ok) \<leftarrow> hashmap_set hm f (); set_public hm fs }"

text \<open>The elements the loop reads: as many as the length the array reports.\<close>

definition read_paths :: "bytes darray_heap \<Rightarrow> addr \<Rightarrow> bytes list option" where
  "read_paths h darr = do {
     len \<leftarrow> darray_get_length h darr;
     hdr \<leftarrow> header_from_darray h darr;
     mem_read (dh_data hdr) 0 len
   }"

lemma read_paths_rep: "darray_rep 1 cap h a (map (\<lambda>f. [f]) fs) \<Longrightarrow> read_paths h a = Some fs"
  by (auto simp: read_paths_def darray_rep_def darray_get_length_def header_from_darray_def mem_read_def)

lemma read_paths_dangling: "da_cells h a = None \<Longrightarrow> read_paths h a = None"
  by (simp add: read_paths_def darray_get_length_def header_from_darray_def)

text \<open>\<open>dir\<close> is the directory \<open>assets/public\<close>, read when the router is made.\<close>

definition router_create :: "dirent list option \<Rightarrow> 'cb router_t option" where
  "router_create dir = do {
     (public_files_darr, h) \<leftarrow> list_files dir empty_darrays;
     files \<leftarrow> read_paths h public_files_darr;
     hm \<leftarrow> hashmap_create (of_nat (length files)) double_67 0 None;
     hm \<leftarrow> set_public hm files;
     h \<leftarrow> darray_destroy h public_files_darr;
     Some \<lparr>routing_table = trie_create, public_directory_hmap = hm\<rparr>
   }"

text \<open>The keys and strings that \<open>router_destroy\<close> frees.\<close>

definition router_destroy :: "'cb router_t \<Rightarrow> (bytes option list \<times> bytes list) option" where
  "router_destroy rtr = do {
     freed \<leftarrow> trie_destroy (routing_table rtr);
     ks \<leftarrow> hashmap_destroy (public_directory_hmap rtr);
     Some (ks, freed)
   }"

definition router_add_route :: "'cb router_t \<Rightarrow> 'cb route_t \<Rightarrow> 'cb router_t option" where
  "router_add_route rtr rt = do {
     t \<leftarrow> trie_add_route (routing_table rtr) rt;
     Some (rtr\<lparr>routing_table := t\<rparr>)
   }"

section \<open>Dispatching a request\<close>

text \<open>
  The protothreads started, in order: \<open>prep_route_callback_send_file\<close> with a path, or a
  registered handler.  Nothing returns after the first two, and nothing is started at the
  place where the comment announces a 404.
\<close>

datatype 'cb action = Send_file bytes | Run_handler 'cb

abbreviation INDEX_PATH :: bytes where "INDEX_PATH \<equiv> ''assets/public/index.html''"
abbreviation PUBLIC_DIR :: bytes where "PUBLIC_DIR \<equiv> ''assets/public''"

definition router_handle_request :: "'cb router_t \<Rightarrow> request_t \<Rightarrow> 'cb action list option" where
  "router_handle_request rtr request = do {
     uri \<leftarrow> view (rq_raw request) (rq_URI request);
     let index = (if sv_eq uri ''/'' then [Send_file INDEX_PATH] else []);
     public \<leftarrow> (if rq_method request = http_method_get
       then (case memchr uri (CHR ''.'') of
           None \<Rightarrow> Some []
         | Some ext \<Rightarrow> do {
             slot \<leftarrow> hashmap_get (public_directory_hmap rtr) uri;
             Some (case slot of None \<Rightarrow> [] | Some s \<Rightarrow> [Send_file (PUBLIC_DIR @ uri)])
           })
       else Some []);
     handler \<leftarrow> trie_find_handler (routing_table rtr) (rq_method request) uri;
     Some (index @ public @ (case handler of None \<Rightarrow> [] | Some f \<Rightarrow> [Run_handler f]))
   }"

section \<open>The response header of a file\<close>

text \<open>
  The bytes \<open>route_callback_send_file\<close> sends before a file, from the file's name and size.  A
  name without a dot leaves a null pointer in \<open>dot\<close>, to which 1 is added: a fault.
  \<open>buf\<close> is the uninitialised buffer of the number conversion.
\<close>

definition send_file_head :: "allocator \<Rightarrow> bytes \<Rightarrow> bytes \<Rightarrow> u64 \<Rightarrow> bytes option" where
  "send_file_head A buf name stx_size = do {
     let res = response_create\<lparr>rs_version := http_version_1p1, rs_status_code := 200,
       rs_reason_phrase := Some ''OK''\<rparr>;
     dot \<leftarrow> memrchr name (CHR ''.'');
     let type = drop (dot + 1) name;
     let res = response_add_header res
       \<lparr>hs_name = ''Content-Type'', hs_value = content_type_val_helper type\<rparr>;
     num \<leftarrow> sdsfromlonglong A buf stx_size;
     num \<leftarrow> num;
     let res = response_add_header res \<lparr>hs_name = ''Content-Length'', hs_value = sds_bytes num\<rparr>;
     response_serialize res
   }"

text \<open>The bytes of the 404 response that \<open>route_callback_send_404\<close> would send.\<close>

definition send_404_head :: "bytes option" where
  "send_404_head =
     response_serialize (response_create\<lparr>rs_version := http_version_1p1, rs_status_code := 404,
       rs_reason_phrase := Some ''Not Found''\<rparr>)"

section \<open>The table of public files\<close>

lemma set_public_spec:
  "hm_inv hm \<Longrightarrow> length fs \<le> hm_unused hm \<Longrightarrow>
   \<exists>hm'. set_public hm fs = Some hm' \<and> hm_inv hm' \<and> dom (hm_map hm') = dom (hm_map hm) \<union> set fs"
proof (induction fs arbitrary: hm)
  case (Cons f fs)
  then obtain hm1 where hm1: "hashmap_set hm f () = Some (hm1, True)" "hm_inv hm1"
    "hm_map hm1 = (hm_map hm)(f \<mapsto> ())" "hm_unused hm - 1 \<le> hm_unused hm1"
    using hashmap_set_room [of hm f "()"] by fastforce
  have "length fs \<le> hm_unused hm1" using Cons.prems(2) hm1(4) by simp
  from Cons.IH [OF hm1(2) this] obtain hm' where "set_public hm1 fs = Some hm'" "hm_inv hm'"
    "dom (hm_map hm') = dom (hm_map hm1) \<union> set fs" by auto
  with hm1(1,3) show ?case by (simp add: dom_fun_upd)
qed simp

text \<open>The table for at most seven files: its slots, and that it starts empty.\<close>

lemma public_table:
  assumes "n \<le> 7"
  shows "\<exists>hm :: unit hashmap. hashmap_create (of_nat n) double_67 0 None = Some hm \<and>
    (n = 0 \<longrightarrow> hm_size hm = 0) \<and>
    (0 < n \<longrightarrow> hm_inv hm \<and> hm_map hm = Map.empty \<and> n \<le> hm_unused hm)"
proof -
  have "unat (of_nat n :: u64) = n" using assms by (intro unat_of_nat_u64) simp
  with assms obtain s where s: "size_quotient (of_nat n) double_67 = Some s" "n \<le> s" "s \<le> 2 * n"
    using size_quotient_67 [of "of_nat n"] by auto
  then obtain hm :: "unit hashmap" where hm: "hashmap_create (of_nat n) double_67 0 None = Some hm"
    "hm_size hm = s" by (auto simp: hashmap_create_def Let_def)
  have "hm_inv hm \<and> hm_map hm = Map.empty \<and> n \<le> hm_unused hm" if "0 < n"
    using hashmap_create_fresh [OF hm(1)] hm(2) s assms that by simp
  with hm s show ?thesis by auto
qed

lemma hashmap_get_dom: "hm_inv hm \<Longrightarrow> \<exists>r. hashmap_get hm k = Some r \<and> (r = None \<longleftrightarrow> k \<notin> dom (hm_map hm))"
  using hashmap_get_None [of hm k] hashmap_get_Some [of hm k] by (cases "hm_map hm k") (auto simp: domIff)

text \<open>A router that was made knows exactly the files of the directory, and they are few.\<close>

lemma router_create_spec:
  assumes "router_create (Some es) = Some rtr"
  shows "length (files_under es ''/'') \<le> 7" and "routing_table rtr = trie_create"
    and "files_under es ''/'' \<noteq> [] \<Longrightarrow> hm_inv (public_directory_hmap rtr) \<and>
      dom (hm_map (public_directory_hmap rtr)) = set (files_under es ''/'')"
    and "files_under es ''/'' = [] \<Longrightarrow> hm_size (public_directory_hmap rtr) = 0"
proof -
  let ?fs = "files_under es ''/''"
  from assms obtain a h where l: "list_files (Some es) empty_darrays = Some (a, h)"
    by (cases "list_files (Some es) empty_darrays") (auto simp: router_create_def)
  with assms obtain files where f: "read_paths h a = Some files"
    by (cases "read_paths h a") (auto simp: router_create_def)
  with assms l obtain hm :: "unit hashmap" where hm: "hashmap_create (of_nat (length files)) double_67 0 None = Some hm"
    by (cases "hashmap_create (of_nat (length files)) double_67 0 None :: unit hashmap option") (auto simp: router_create_def)
  with assms l f obtain hm' where hm': "set_public hm files = Some hm'"
    by (cases "set_public hm files") (auto simp: router_create_def)
  with assms l f hm have rtr: "routing_table rtr = trie_create" "public_directory_hmap rtr = hm'"
    by (auto simp: router_create_def fault_simps)
  from l obtain h0 where c: "darray_create ([] :: bytes) empty_darrays 8 1 = (a, h0)" and
    w: "recursive_walk es ''/'' h0 a = Some h"
    by (auto simp: list_files_def fault_simps split: prod.splits)
  from darray_create_rep [OF _ c] have "darray_rep 1 8 h0 a []" by auto
  from walk_any [OF this w] have walk:
    "if length ?fs < 8 then darray_rep 1 8 h a (map (\<lambda>f. [f]) ?fs) else da_cells h a = None"
    by (simp del: One_nat_def split: if_splits)
  have small: "length ?fs < 8" using walk f read_paths_dangling [of h a] by (simp split: if_splits)
  with walk f read_paths_rep [of 8 h a ?fs] have files: "files = ?fs" by simp
  show "length ?fs \<le> 7" using small by simp
  show "routing_table rtr = trie_create" by (fact rtr(1))
  have table: "(?fs = [] \<longrightarrow> hm_size hm = 0) \<and>
      (?fs \<noteq> [] \<longrightarrow> hm_inv hm \<and> hm_map hm = Map.empty \<and> length ?fs \<le> hm_unused hm)"
    using public_table [of "length ?fs"] hm small files by auto
  show "hm_inv (public_directory_hmap rtr) \<and> dom (hm_map (public_directory_hmap rtr)) = set ?fs"
    if "?fs \<noteq> []"
    using set_public_spec [of hm ?fs] table that hm' rtr(2) files by auto
  show "hm_size (public_directory_hmap rtr) = 0" if "?fs = []"
    using that hm' rtr(2) table files by simp
qed

lemma router_create_total:
  assumes "readable es" and "length (files_under es ''/'') \<le> 7"
  shows "\<exists>rtr :: 'cb router_t. router_create (Some es) = Some rtr"
proof -
  let ?fs = "files_under es ''/''"
  obtain a h where l: "list_files (Some es) empty_darrays = Some (a, h)"
    and rep: "darray_rep 1 8 h a (map (\<lambda>f. [f]) ?fs)"
    using list_files_spec [OF assms] by blast
  from read_paths_rep [OF rep] have r: "read_paths h a = Some ?fs" .
  obtain hm :: "unit hashmap" where hm: "hashmap_create (of_nat (length ?fs)) double_67 0 None = Some hm"
    "?fs \<noteq> [] \<Longrightarrow> hm_inv hm \<and> length ?fs \<le> hm_unused hm"
    using public_table [OF assms(2)] by auto
  have "\<exists>hm'. set_public hm ?fs = Some hm'"
    using set_public_spec [of hm ?fs] hm(2) by (cases "?fs = []") auto
  moreover have "\<exists>h'. darray_destroy h a = Some h'"
    using rep by (auto simp: darray_rep_def darray_destroy_def header_from_darray_def)
  ultimately show ?thesis using l r hm(1) by (auto simp: router_create_def)
qed

text \<open>Setting the router up as \<open>main\<close> does: create it, then create and add each route.\<close>

fun add_routes :: "'cb router_t \<Rightarrow> (http_method \<times> bytes \<times> 'cb option) list \<Rightarrow> 'cb router_t option" where
  "add_routes rtr [] = Some rtr"
| "add_routes rtr ((m, uri, cb) # specs) = do {
     rt \<leftarrow> route_create m uri cb;
     rtr \<leftarrow> router_add_route rtr rt;
     add_routes rtr specs
   }"

definition router_setup ::
  "dirent list option \<Rightarrow> (http_method \<times> bytes \<times> 'cb option) list \<Rightarrow> 'cb router_t option" where
  "router_setup dir specs = do { rtr \<leftarrow> router_create dir; add_routes rtr specs }"

lemma add_routes_register:
  "add_routes rtr specs = Some rtr' \<Longrightarrow>
   register_all (routing_table rtr) specs = Some (routing_table rtr') \<and>
   public_directory_hmap rtr' = public_directory_hmap rtr"
proof (induction specs arbitrary: rtr)
  case (Cons s specs)
  obtain m u cb where s: "s = (m, u, cb)" by (cases s)
  from Cons.prems obtain rt t where t: "route_create m u cb = Some rt" "trie_add_route (routing_table rtr) rt = Some t"
    "add_routes (rtr\<lparr>routing_table := t\<rparr>) specs = Some rtr'"
    by (auto simp: s router_add_route_def fault_simps)
  from Cons.IH [OF t(3)] t(1,2) show ?case by (simp add: s)
qed simp

lemma router_setup_parts:
  fixes rtr :: "'cb router_t"
  assumes "router_setup (Some es) specs = Some rtr"
  obtains rtr0 :: "'cb router_t" where "router_create (Some es) = Some rtr0" "register_all trie_create specs = Some (routing_table rtr)"
    "public_directory_hmap rtr = public_directory_hmap rtr0"
proof -
  from assms obtain rtr0 where c: "router_create (Some es) = Some rtr0" "add_routes rtr0 specs = Some rtr"
    by (auto simp: router_setup_def fault_simps)
  from add_routes_register [OF c(2)] router_create_spec(2) [OF c(1)] that c(1) show thesis by metis
qed

lemma router_setup_files:
  assumes "router_setup (Some es) specs = Some rtr"
  shows "length (files_under es ''/'') \<le> 7" and "register_all trie_create specs = Some (routing_table rtr)"
    and "files_under es ''/'' \<noteq> [] \<Longrightarrow> hm_inv (public_directory_hmap rtr) \<and>
      dom (hm_map (public_directory_hmap rtr)) = set (files_under es ''/'')"
    and "files_under es ''/'' = [] \<Longrightarrow> hm_size (public_directory_hmap rtr) = 0"
proof -
  obtain rtr0 :: "'a router_t" where r: "router_create (Some es) = Some rtr0"
    "register_all trie_create specs = Some (routing_table rtr)"
    "public_directory_hmap rtr = public_directory_hmap rtr0" by (rule router_setup_parts [OF assms])
  note c = router_create_spec [OF r(1)]
  show "length (files_under es ''/'') \<le> 7" by (rule c(1))
  show "register_all trie_create specs = Some (routing_table rtr)" by (rule r(2))
  show "files_under es ''/'' \<noteq> [] \<Longrightarrow> hm_inv (public_directory_hmap rtr) \<and>
      dom (hm_map (public_directory_hmap rtr)) = set (files_under es ''/'')" unfolding r(3) by (rule c(3))
  show "files_under es ''/'' = [] \<Longrightarrow> hm_size (public_directory_hmap rtr) = 0" unfolding r(3) by (rule c(4))
qed

section \<open>Dispatch\<close>

text \<open>What a request should start, given the public files and the handler of its route.\<close>

definition public_hit :: "bytes list \<Rightarrow> http_method \<Rightarrow> bytes \<Rightarrow> bool" where
  "public_hit files m uri \<longleftrightarrow> m = http_method_get \<and> CHR ''.'' \<in> set uri \<and> uri \<in> set files"

definition dispatch :: "bytes list \<Rightarrow> 'cb option \<Rightarrow> http_method \<Rightarrow> bytes \<Rightarrow> 'cb action list" where
  "dispatch files handler m uri =
     (if uri = ''/'' then [Send_file INDEX_PATH] else []) @
     (if public_hit files m uri then [Send_file (PUBLIC_DIR @ uri)] else []) @
     (case handler of None \<Rightarrow> [] | Some f \<Rightarrow> [Run_handler f])"

lemma memchr_Some_mem: "memchr s c = Some i \<Longrightarrow> c \<in> set s"
  using memchr_None [of s c] by fastforce

text \<open>
  At most one file and one handler are started: the target of the index page has no dot.
\<close>

lemma router_starts_few:
  assumes "router_handle_request rtr req = Some acts"
  obtains sends handler where "acts = map Send_file sends @ map Run_handler handler" "length sends \<le> 1" "length handler \<le> 1"
proof -
  obtain uri where uri: "view (rq_raw req) (rq_URI req) = Some uri"
    using assms by (cases "view (rq_raw req) (rq_URI req)") (auto simp: router_handle_request_def)
  define index where "index = (if sv_eq uri ''/'' then [INDEX_PATH] else [])"
  from assms uri obtain public handler where
    acts: "acts = map Send_file index @ public @ (case handler of None \<Rightarrow> [] | Some f \<Rightarrow> [Run_handler f])"
    and public: "(if rq_method req = http_method_get
       then (case memchr uri (CHR ''.'') of
           None \<Rightarrow> Some []
         | Some ext \<Rightarrow> do {
             slot \<leftarrow> hashmap_get (public_directory_hmap rtr) uri;
             Some (case slot of None \<Rightarrow> [] | Some s \<Rightarrow> [Send_file (PUBLIC_DIR @ uri)])
           })
       else Some []) = Some public"
    by (auto simp: router_handle_request_def index_def fault_simps Let_def)
  define sends where "sends = (if public = [] then [] else [PUBLIC_DIR @ uri])"
  have "public = [] \<or> public = [Send_file (PUBLIC_DIR @ uri)] \<and> CHR ''.'' \<in> set uri"
    using public by (auto simp: fault_simps split: if_splits option.splits dest: memchr_Some_mem)
  then have sends: "public = map Send_file sends" "length sends \<le> (if CHR ''.'' \<in> set uri then 1 else 0)"
    by (auto simp: sends_def)
  have few: "length (index @ sends) \<le> 1"
  proof (cases "sv_eq uri ''/''")
    case True
    then have "uri = ''/''" by (simp add: sv_eq_iff)
    with sends(2) show ?thesis by (simp add: index_def)
  next
    case False
    with sends(2) show ?thesis by (simp add: index_def split: if_splits)
  qed
  have "acts = map Send_file (index @ sends) @ map Run_handler (case handler of None \<Rightarrow> [] | Some f \<Rightarrow> [f])"
    using acts sends(1) by (simp split: option.split)
  with that [OF this few] show thesis by (simp split: option.splits)
qed

text \<open>The lookup among the public files, in the cases in which it succeeds.\<close>

lemma public_lookup:
  assumes "router_setup (Some es) specs = Some rtr" and "files_under es ''/'' \<noteq> []"
  shows "(if m = http_method_get
       then (case memchr uri (CHR ''.'') of
           None \<Rightarrow> Some []
         | Some ext \<Rightarrow> do {
             slot \<leftarrow> hashmap_get (public_directory_hmap rtr) uri;
             Some (case slot of None \<Rightarrow> [] | Some s \<Rightarrow> [Send_file (PUBLIC_DIR @ uri)])
           })
       else Some []) =
    Some (if public_hit (files_under es ''/'') m uri then [Send_file (PUBLIC_DIR @ uri)] else [])"
proof -
  obtain r where "hashmap_get (public_directory_hmap rtr) uri = Some r"
    "r = None \<longleftrightarrow> uri \<notin> set (files_under es ''/'')"
    using hashmap_get_dom [of "public_directory_hmap rtr" uri] router_setup_files(3) [OF assms] by auto
  then show ?thesis
    by (auto simp: public_hit_def split: option.splits dest: memchr_Some_mem)
qed

lemma router_dispatch:
  assumes made: "router_setup (Some es) specs = Some rtr" and "files_under es ''/'' \<noteq> []"
    and uri: "view (rq_raw req) (rq_URI req) = Some uri" and "rq_method req \<noteq> http_method_unknown"
  shows "\<exists>handler. trie_find_handler (routing_table rtr) (rq_method req) uri = Some handler \<and>
    router_handle_request rtr req = Some (dispatch (files_under es ''/'') handler (rq_method req) uri)"
proof -
  obtain handler where h: "trie_find_handler (routing_table rtr) (rq_method req) uri = Some handler"
    using find_handler_root [OF router_setup_files(2) [OF made] assms(4)] by blast
  show ?thesis
    unfolding router_handle_request_def uri Option.bind.bind_lunit Let_def public_lookup [OF made assms(2)] h
    by (simp add: dispatch_def)
qed

section \<open>Properties\<close>

text \<open>The request for a target, as the parser leaves it in a buffer that starts with the target.\<close>

abbreviation target_request :: "http_method \<Rightarrow> bytes \<Rightarrow> request_t" where
  "target_request m uri \<equiv> \<lparr>rq_raw = uri, rq_method = m, rq_URI = \<lparr>sv_ptr = 0, sv_len = length uri\<rparr>,
     rq_version = http_version_1p1, rq_headers = [], rq_body = \<lparr>sv_ptr = 0, sv_len = 0\<rparr>\<rparr>"

lemma view_target [simp]: "view uri \<lparr>sv_ptr = 0, sv_len = length uri\<rparr> = Some uri"
  by (simp add: view_def mem_read_def)

abbreviation example_dir :: "dirent list" where
  "example_dir \<equiv> [DT_REG ''index.html'', DT_REG ''.env'', DT_DIR ''test'' (Some [DT_REG ''a.html''])]"

lemma example_files: "files_under example_dir ''/'' = [''/index.html'', ''/test/a.html'']"
  by (simp add: hidden_def)

lemma example_router: "\<exists>rtr. router_setup (Some example_dir) main_routes = Some rtr"
proof -
  have "readable example_dir" "length (files_under example_dir ''/'') \<le> 7" by (simp_all add: hidden_def)
  from router_create_total [OF this] obtain rtr0 :: "handler router_t" where
    r0: "router_create (Some example_dir) = Some rtr0" by blast
  obtain t where t: "register_all trie_create main_routes = Some t" using main_table by blast
  from router_create_spec(2) [OF r0] t show ?thesis
    by (auto simp: router_setup_def r0 router_add_route_def fault_simps)
qed

text \<open>
  C22. Dispatch: when the public directory is not empty, a request with a known method starts
  exactly the index file for the target \<open>/\<close>, then the public file of that name if it is a GET
  of a listed file with a dot, then the handler the route trie finds; nothing else, and without
  a fault.
\<close>

theorem router_dispatch_exact:
  assumes "router_setup (Some es) specs = Some rtr" and "files_under es ''/'' \<noteq> []"
    and "view (rq_raw req) (rq_URI req) = Some uri" and "rq_method req \<noteq> http_method_unknown"
  shows "\<exists>handler. trie_find_handler (routing_table rtr) (rq_method req) uri = Some handler \<and>
    router_handle_request rtr req = Some (dispatch (files_under es ''/'') handler (rq_method req) uri)"
  using assms by (rule router_dispatch)

theorem router_dispatch_exact_witness:
  "\<exists>rtr handler. router_setup (Some example_dir) main_routes = Some rtr \<and>
     router_handle_request rtr (target_request http_method_get ''/index.html'') =
       Some (Send_file ''assets/public/index.html'' # (case handler of None \<Rightarrow> [] | Some f \<Rightarrow> [Run_handler f]))"
proof -
  obtain rtr where r: "router_setup (Some example_dir) main_routes = Some rtr" using example_router by blast
  from router_dispatch_exact [OF r, of "target_request http_method_get ''/index.html''" "''/index.html''"] r
  show ?thesis by (auto simp: hidden_def dispatch_def public_hit_def view_def mem_read_def)
qed

lemma router_paths:
  assumes "router_setup (Some es) specs = Some rtr" and "router_handle_request rtr req = Some acts"
    and "Send_file p \<in> set acts"
  shows "p = INDEX_PATH \<or> (\<exists>f\<in>set (files_under es ''/''). p = PUBLIC_DIR @ f)"
proof -
  obtain uri where uri: "view (rq_raw req) (rq_URI req) = Some uri"
    using assms(2) by (auto simp: router_handle_request_def fault_simps)
  then obtain handler where h: "trie_find_handler (routing_table rtr) (rq_method req) uri = Some handler"
    using assms(2) by (auto simp: router_handle_request_def fault_simps Let_def)
  have m: "rq_method req \<noteq> http_method_unknown"
    using h registered_root(1) [OF router_setup_files(2) [OF assms(1)], of http_method_get]
    by (auto simp: trie_find_handler_def Let_def fault_simps method_index_def)
  show ?thesis
  proof (cases "files_under es ''/'' = []")
    case True
    have "hashmap_get (public_directory_hmap rtr) uri = None"
      using router_setup_files(4) [OF assms(1) True] by (simp add: hashmap_get_def probe_def)
    with assms(2,3) uri h show ?thesis
      by (auto simp: router_handle_request_def fault_simps Let_def split: if_splits option.splits)
  next
    case False
    from router_dispatch [OF assms(1) False uri m] assms(2,3) show ?thesis
      by (auto simp: dispatch_def public_hit_def split: if_splits option.splits)
  qed
qed

text \<open>
  Confinement: the only paths the router ever hands to the file server are that of the
  index page and the public directory followed by a path the directory walk listed, so no
  target, however many \<open>..\<close> it contains, reaches a file outside.
\<close>

theorem router_confined:
  assumes "router_setup (Some es) specs = Some rtr" and "router_handle_request rtr req = Some acts"
    and "Send_file p \<in> set acts"
  shows "p = INDEX_PATH \<or> (\<exists>f\<in>set (files_under es ''/''). p = PUBLIC_DIR @ f)"
  using assms by (rule router_paths)

theorem router_confined_witness:
  "\<exists>rtr. router_setup (Some example_dir) main_routes = Some rtr \<and>
     (\<forall>acts p. router_handle_request rtr (target_request http_method_get ''/../../etc/passwd.'') = Some acts \<longrightarrow>
       Send_file p \<in> set acts \<longrightarrow>
       p \<in> {''assets/public/index.html'', ''assets/public/test/a.html''})"
proof -
  obtain rtr where r: "router_setup (Some example_dir) main_routes = Some rtr" using example_router by blast
  from router_confined [OF r] r show ?thesis by (fastforce simp: hidden_def)
qed

text \<open>
  C30. The responses of the server \<open>main\<close> sets up.  A request can start up to two of them
  on the same connection (a public file below \<open>/test/\<close> is sent and the test handler runs as
  well), and one that matches nothing starts none: the 404 page is never sent.
\<close>

theorem router_main_responses:
  assumes "router_setup (Some es) main_routes = Some rtr" and "files_under es ''/'' \<noteq> []"
    and "view (rq_raw req) (rq_URI req) = Some uri" and "rq_method req \<noteq> http_method_unknown"
  shows "\<exists>acts. router_handle_request rtr req = Some acts \<and>
    length acts = of_bool (uri = ''/'') + of_bool (public_hit (files_under es ''/'') (rq_method req) uri) +
      of_bool (rq_method req = http_method_get \<and> (\<exists>rest. uri_segs uri = '''' # ''test'' # rest))"
  using router_dispatch [OF assms] main_handler [OF router_setup_files(2) [OF assms(1)] assms(4), of uri]
  by (auto simp: dispatch_def)

lemma uri_segs_example: "uri_segs ''/test/a.html'' = ['''', ''test'', ''a.html'']"
proof -
  have "uri_segs (join_with ''/'' ['''', ''test'', ''a.html'']) = ['''', ''test'', ''a.html'']"
    unfolding uri_segs_def by (subst split_join) simp_all
  then show ?thesis by simp
qed

theorem router_main_responses_witness:
  "\<exists>rtr acts. router_setup (Some example_dir) main_routes = Some rtr \<and>
     router_handle_request rtr (target_request http_method_get ''/test/a.html'') = Some acts \<and> length acts = 2"
proof -
  obtain rtr where r: "router_setup (Some example_dir) main_routes = Some rtr" using example_router by blast
  from router_main_responses [OF r, of "target_request http_method_get ''/test/a.html''" "''/test/a.html''"] r
  show ?thesis
    by (auto simp: hidden_def public_hit_def uri_segs_example view_def mem_read_def)
qed

text \<open>
  The number of public files must be between one and seven: with eight or more the
  router cannot be made without using a freed array, and with none every GET whose target has
  a dot divides by zero.
\<close>

theorem router_file_count:
  "(8 \<le> length (files_under es ''/'') \<longrightarrow> router_create (Some es) = (None :: 'cb router_t option)) \<and>
   (files_under es ''/'' = [] \<and> router_setup (Some es) specs = Some rtr \<and>
      rq_method req = http_method_get \<and> view (rq_raw req) (rq_URI req) = Some uri \<and>
      CHR ''.'' \<in> set uri \<longrightarrow> router_handle_request rtr req = None)"
proof (intro conjI impI; (elim conjE)?)
  show "router_create (Some es) = (None :: 'cb router_t option)" if "8 \<le> length (files_under es ''/'')"
    using that router_create_spec(1) [of es] by (cases "router_create (Some es) :: 'cb router_t option") fastforce+
  assume a: "files_under es ''/'' = []" "router_setup (Some es) specs = Some rtr"
    "rq_method req = http_method_get" "view (rq_raw req) (rq_URI req) = Some uri" "CHR ''.'' \<in> set uri"
  have "hashmap_get (public_directory_hmap rtr) uri = None"
    using router_setup_files(4) [OF a(2,1)] by (simp add: hashmap_get_def probe_def)
  moreover obtain i where "memchr uri (CHR ''.'') = Some i" using a(5) by (cases "memchr uri (CHR ''.'')") auto
  ultimately show "router_handle_request rtr req = None"
    using a(3,4) by (simp add: router_handle_request_def Let_def)
qed

theorem router_file_count_witness:
  "router_create (Some eight_files) = (None :: handler router_t option) \<and>
   (\<exists>rtr. router_setup (Some []) ([] :: (http_method \<times> bytes \<times> handler option) list) = Some rtr \<and>
      router_handle_request rtr (target_request http_method_get ''/a.b'') = None)"
proof -
  obtain rtr :: "handler router_t" where r: "router_setup (Some []) [] = Some rtr"
    using router_create_total [of "[]"] by (auto simp: router_setup_def)
  have "length (files_under eight_files ''/'') = 8" by (simp add: hidden_def)
  with r router_file_count [where es = eight_files and specs = "[]" and 'a = handler]
    router_file_count [where es = "[]" and specs = "[]" and rtr = rtr
      and req = "target_request http_method_get ''/a.b''" and uri = "''/a.b''"]
  show ?thesis by (auto simp: view_def mem_read_def)
qed

lemma send_file_head_spec:
  assumes "\<forall>n. al_ok A n" and "length buf = SDS_LLSTR_SIZE"
  shows "(CHR ''.'' \<notin> set ext \<longrightarrow> send_file_head A buf (base @ CHR ''.'' # ext) stx_size =
      Some (''HTTP/1.1 200 OK'' @ CRLF @ ''Content-Type: '' @ content_type_val_helper ext @ CRLF @
        ''Content-Length: '' @ decimal (sint stx_size) @ CRLF @ CRLF)) \<and>
    (CHR ''.'' \<notin> set name \<longrightarrow> send_file_head A buf name stx_size = None)"
proof -
  obtain s where s: "sdsfromlonglong A buf stx_size = Some (Some s)" "sds_rep s (decimal (sint stx_size))"
    using sdsfromlonglong_spec [OF assms(2,1)] by blast
  have "decimal 200 = ''200''" by (simp add: decimal_def digits.simps char_of_def bit_0)
  moreover have "c_str (content_type_val_helper ext) = content_type_val_helper ext"
    using content_type_printable [of NUL ext] by (intro c_str_no_NUL) auto
  moreover have "c_str (decimal (sint stx_size)) = decimal (sint stx_size)"
    by (rule c_str_no_NUL [OF decimal_chars(3)])
  moreover have "memrchr name (CHR ''.'') = None" if "CHR ''.'' \<notin> set name" using that by simp
  ultimately show ?thesis
    using s by (auto simp: send_file_head_def response_create_def response_add_header_def memrchr_skip
        response_serialize_def serialize_http_version_def serialize_header_def c_str_def [of "''OK''"]
        c_str_def [of "''Content-Type''"] c_str_def [of "''Content-Length''"] simp del: memrchr_None)
qed

text \<open>The header of a file, and that it is short.\<close>

definition file_head :: "bytes \<Rightarrow> u64 \<Rightarrow> bytes" where
  "file_head name stx_size =
     ''HTTP/1.1 200 OK'' @ CRLF @ ''Content-Type: '' @
     content_type_val_helper (rev (takeWhile (\<lambda>c. c \<noteq> CHR ''.'') (rev name))) @ CRLF @
     ''Content-Length: '' @ decimal (sint stx_size) @ CRLF @ CRLF"

lemma send_file_head_dotted:
  assumes "\<forall>n. al_ok A n" and "length buf = SDS_LLSTR_SIZE" and "CHR ''.'' \<in> set name"
  shows "send_file_head A buf name stx_size = Some (file_head name stx_size)"
proof -
  obtain base ext where n: "name = base @ CHR ''.'' # ext" "CHR ''.'' \<notin> set ext"
    using split_list_last [OF assms(3)] by blast
  then have "takeWhile (\<lambda>c. c \<noteq> CHR ''.'') (rev name) = rev ext" by (simp add: takeWhile_append)
  with send_file_head_spec [OF assms(1,2), of ext base stx_size] n show ?thesis by (simp add: file_head_def)
qed

lemma length_file_head: "length (file_head name stx_size) < 2 ^ 31"
proof -
  have "length (content_type_val_helper ext) \<le> 100" for ext by (simp add: content_type_val_helper_def)
  from this [of "rev (takeWhile (\<lambda>c. c \<noteq> CHR ''.'') (rev name))"] length_decimal_u64 [of stx_size]
  show ?thesis by (simp add: file_head_def)
qed

text \<open>
  C31. The header sent before a file: a status line, the content type of the part of the name
  after its last dot, and the size in decimal; a name without a dot is a fault.
\<close>

theorem send_file_head_exact:
  assumes "\<forall>n. al_ok A n" and "length buf = SDS_LLSTR_SIZE"
  shows "(CHR ''.'' \<notin> set ext \<longrightarrow> send_file_head A buf (base @ CHR ''.'' # ext) stx_size =
      Some (''HTTP/1.1 200 OK'' @ CRLF @ ''Content-Type: '' @ content_type_val_helper ext @ CRLF @
        ''Content-Length: '' @ decimal (sint stx_size) @ CRLF @ CRLF)) \<and>
    (CHR ''.'' \<notin> set name \<longrightarrow> send_file_head A buf name stx_size = None)"
  using assms by (rule send_file_head_spec)

theorem send_file_head_exact_witness:
  "send_file_head std_alloc (replicate 21 NUL) ''a.min.css'' 1024 =
     Some (''HTTP/1.1 200 OK'' @ CRLF @ ''Content-Type: text/css'' @ CRLF @ ''Content-Length: '' @
       decimal 1024 @ CRLF @ CRLF) \<and>
   send_file_head std_alloc (replicate 21 NUL) ''LICENSE'' 1024 = None"
  using send_file_head_exact [of std_alloc "replicate 21 NUL" "''css''" "''a.min''" 1024 "''LICENSE''"]
  by (simp add: SDS_LLSTR_SIZE_def content_type_val_helper_def)

end
