(* ===== verification/AsyncIo.thy ===== *)
theory AsyncIo
  imports Request Sds
begin

text \<open>
  The operations of \<open>network/IO/async_io.c\<close> that move data: receiving a request, sending a
  buffer, and sending a file through a pipe.  Each is a pair of a submission, which builds the
  context and the submission queue entry, and a completion, which looks at the result and
  either submits again or finishes.  The kernel is the environment: it chooses how many bytes
  each operation moves.
\<close>

section \<open>Submission queue entries\<close>

type_synonym u32 = "32 word"

text \<open>The entries the program prepares, with the arguments it passes.\<close>

datatype sqe =
    Sq_accept int
  | Sq_recv int nat
  | Sq_openat bytes
  | Sq_statx int
  | Sq_send int bytes
  | Sq_splice int u64 int u64 u32
  | Sq_close int

definition SPLICE_MAX_SIZE :: u32 where "SPLICE_MAX_SIZE = 64 * 1024"
definition RECV_CHUNK :: nat where "RECV_CHUNK = 4 * 1024"
definition MAX_REQUEST :: nat where "MAX_REQUEST = 16 * 1024"

section \<open>Receiving\<close>

text \<open>The field \<open>offset\<close> of the C structure is never read or written, and is left out.\<close>

record recv_context =
  rc_client_fd :: int
  rc_buffer :: sds
  rc_request :: request_t

text \<open>The zero-initialised request of a fresh context.\<close>

definition zero_request :: request_t where
  "zero_request = \<lparr>rq_raw = [], rq_method = http_method_get, rq_URI = \<lparr>sv_ptr = 0, sv_len = 0\<rparr>,
     rq_version = http_version_1p1, rq_headers = [], rq_body = \<lparr>sv_ptr = 0, sv_len = 0\<rparr>\<rparr>"

text \<open>A null string returned by a failing allocation is dereferenced: a fault.\<close>

definition handle_recv_submission ::
  "allocator \<Rightarrow> int \<Rightarrow> recv_context option \<Rightarrow> (recv_context \<times> sqe) option" where
  "handle_recv_submission A client_fd recv_ctx = do {
     ctx \<leftarrow> (case recv_ctx of
        Some c \<Rightarrow> Some c
      | None \<Rightarrow> do {
          r \<leftarrow> sdsempty A;
          b \<leftarrow> r;
          Some \<lparr>rc_client_fd = client_fd, rc_buffer = b, rc_request = zero_request\<rparr>
        });
     r \<leftarrow> sdsMakeRoomFor A (rc_buffer ctx) RECV_CHUNK;
     b \<leftarrow> r;
     Some (ctx\<lparr>rc_buffer := b\<rparr>, Sq_recv (rc_client_fd ctx) (sdsavail b))
   }"

text \<open>
  The ways a completion ends: the context is freed (the peer closed, or the request was
  refused), another receive is submitted, or the request goes to the router.
\<close>

datatype recv_outcome =
    Recv_dropped
  | Recv_refused
  | Recv_more recv_context sqe
  | Recv_request request_t int

text \<open>\<open>data\<close> is what the kernel wrote at \<open>buffer + len\<close>; its length is the result \<open>res\<close>.\<close>

definition handle_recv_completion ::
  "allocator \<Rightarrow> int \<Rightarrow> bytes \<Rightarrow> recv_context \<Rightarrow> recv_outcome option" where
  "handle_recv_completion A res data ctx =
     (if res \<le> 0 then Some Recv_dropped
      else do {
        let b = rc_buffer ctx;
        buf \<leftarrow> mem_write (sd_buf b) (sdslen b) data;
        b \<leftarrow> sdsIncrLen (b\<lparr>sd_buf := buf\<rparr>) res;
        let req = (rc_request ctx)\<lparr>rq_raw := sds_bytes b\<rparr>;
        (req, parse_result) \<leftarrow> request_parse req;
        let ctx = ctx\<lparr>rc_buffer := b, rc_request := req\<rparr>;
        if parse_result < 0 \<or> sdslen b > MAX_REQUEST then Some Recv_refused
        else if parse_result = 0 then do {
          (ctx, sqe) \<leftarrow> handle_recv_submission A (rc_client_fd ctx) (Some ctx);
          Some (Recv_more ctx sqe)
        }
        else Some (Recv_request req (rc_client_fd ctx))
      })"

text \<open>The receive loop on a connection whose peer's bytes arrive in the given pieces.\<close>

fun recv_loop :: "allocator \<Rightarrow> recv_context \<Rightarrow> bytes list \<Rightarrow> recv_outcome option" where
  "recv_loop A ctx [] = Some (Recv_more ctx (Sq_recv (rc_client_fd ctx) (sdsavail (rc_buffer ctx))))"
| "recv_loop A ctx (d # ds) = do {
     r \<leftarrow> handle_recv_completion A (int (length d)) d ctx;
     (case r of Recv_more ctx' sqe \<Rightarrow> recv_loop A ctx' ds | _ \<Rightarrow> Some r)
   }"

text \<open>The whole reception: the first submission of an accepted connection, then the loop.\<close>

definition recv_all :: "allocator \<Rightarrow> int \<Rightarrow> bytes list \<Rightarrow> recv_outcome option" where
  "recv_all A client_fd ds = do {
     (ctx, sqe) \<leftarrow> handle_recv_submission A client_fd None;
     recv_loop A ctx ds
   }"

section \<open>Sending a buffer\<close>

record send_context =
  sc_client_fd :: int
  sc_buffer :: sds

definition handle_send_submission :: "sds \<Rightarrow> int \<Rightarrow> send_context \<times> sqe" where
  "handle_send_submission buffer client_fd =
     (\<lparr>sc_client_fd = client_fd, sc_buffer = buffer\<rparr>, Sq_send client_fd (sds_bytes buffer))"

text \<open>\<^const>\<open>Inl\<close>: the send is over and the waiting protothread resumes; \<^const>\<open>Inr\<close>: the rest is sent.\<close>

definition handle_send_completion :: "int \<Rightarrow> send_context \<Rightarrow> (unit + send_context \<times> sqe) option" where
  "handle_send_completion res ctx =
     (if res < 0 then Some (Inl ())
      else do {
        b \<leftarrow> sdsrange (sc_buffer ctx) res (- 1);
        if sdslen b > 0 then Some (Inr (handle_send_submission b (sc_client_fd ctx)))
        else Some (Inl ())
      })"

text \<open>
  A run of the send loop: the kernel takes the given numbers of bytes; the result is what it
  took, in order, and whether the loop has finished.
\<close>

fun send_loop :: "send_context \<times> sqe \<Rightarrow> nat list \<Rightarrow> (bytes \<times> bool) option" where
  "send_loop (ctx, q) [] = Some ([], False)"
| "send_loop (ctx, q) (k # ks) = do {
     let taken = (case q of Sq_send fd b \<Rightarrow> take k b | _ \<Rightarrow> []);
     r \<leftarrow> handle_send_completion (int k) ctx;
     (case r of
        Inl u \<Rightarrow> Some (taken, True)
      | Inr cq \<Rightarrow> do { (more, fin) \<leftarrow> send_loop cq ks; Some (taken @ more, fin) })
   }"

section \<open>Sending a file through a pipe\<close>

record splice_all_context =
  sp_fd_in :: int
  sp_fd_out :: int
  sp_off_in :: u64
  sp_pipe :: "int \<times> int"
  sp_nbytes :: u32
  sp_in_pipe :: u64
  sp_is_draining :: bool

definition handle_splice_all_submission :: "splice_all_context \<Rightarrow> sqe" where
  "handle_splice_all_submission c =
     (if sp_is_draining c
      then Sq_splice (fst (sp_pipe c)) (- 1) (sp_fd_out c) (- 1) (ucast (sp_in_pipe c))
      else Sq_splice (sp_fd_in c) (sp_off_in c) (snd (sp_pipe c)) (- 1)
        (ucast (ucast (if sp_nbytes c < SPLICE_MAX_SIZE then sp_nbytes c else SPLICE_MAX_SIZE) - sp_in_pipe c)))"

text \<open>\<^const>\<open>None\<close>: finished (or failed), the waiting protothread resumes.\<close>

definition handle_splice_all_completion ::
  "int \<Rightarrow> splice_all_context \<Rightarrow> (splice_all_context \<times> sqe) option" where
  "handle_splice_all_completion res c =
     (if res < 0 then None
      else if sp_is_draining c then
        (let c = c\<lparr>sp_in_pipe := sp_in_pipe c - word_of_int res\<rparr>
         in if sp_in_pipe c = 0 \<and> sp_nbytes c = 0 then None
            else (let c = c\<lparr>sp_is_draining := False\<rparr> in Some (c, handle_splice_all_submission c)))
      else
        (let c = c\<lparr>sp_nbytes := sp_nbytes c - word_of_int res,
             sp_in_pipe := sp_in_pipe c + word_of_int res, sp_is_draining := True\<rparr>
         in Some (c, handle_splice_all_submission c)))"

text \<open>
  The context \<open>async_io_sendfile\<close> starts with; \<open>stx_size\<close> has 64 bits, \<open>nbytes\<close> 32, and the
  fields the initialiser does not name are zero.
\<close>

definition sendfile_context :: "int \<Rightarrow> int \<Rightarrow> u64 \<Rightarrow> int \<times> int \<Rightarrow> splice_all_context" where
  "sendfile_context fd client_fd stx_size pipes =
     \<lparr>sp_fd_in = fd, sp_fd_out = client_fd, sp_off_in = 0, sp_pipe = pipes,
      sp_nbytes = ucast stx_size, sp_in_pipe = 0, sp_is_draining = False\<rparr>"

text \<open>
  What the kernel does with a splice of which it moves \<open>k\<close> bytes: from the file at the
  given offset into the pipe, or from the pipe to the socket.
\<close>

record transfer =
  tr_ctx :: splice_all_context
  tr_sqe :: sqe
  tr_pipe :: bytes
  tr_sent :: bytes

definition kernel_splice :: "bytes \<Rightarrow> nat \<Rightarrow> transfer \<Rightarrow> transfer" where
  "kernel_splice content k t =
     (case tr_sqe t of
        Sq_splice fd_in off fd_out off_out n \<Rightarrow>
          if sp_is_draining (tr_ctx t)
          then t\<lparr>tr_pipe := drop k (tr_pipe t), tr_sent := tr_sent t @ take k (tr_pipe t)\<rparr>
          else t\<lparr>tr_pipe := tr_pipe t @ take k (drop (unat off) content)\<rparr>
      | _ \<Rightarrow> t)"

text \<open>
  The transfer of a file with the given numbers of bytes moved; the second result says
  whether it has finished.
\<close>

fun splice_loop :: "bytes \<Rightarrow> transfer \<Rightarrow> nat list \<Rightarrow> transfer \<times> bool" where
  "splice_loop content t [] = (t, False)"
| "splice_loop content t (k # ks) =
     (let t = kernel_splice content k t
      in case handle_splice_all_completion (int k) (tr_ctx t) of
        None \<Rightarrow> (t, True)
      | Some (c, q) \<Rightarrow> splice_loop content (t\<lparr>tr_ctx := c, tr_sqe := q\<rparr>) ks)"

definition start_transfer :: "int \<Rightarrow> int \<Rightarrow> u64 \<Rightarrow> int \<times> int \<Rightarrow> transfer" where
  "start_transfer fd client_fd stx_size pipes =
     (let c = sendfile_context fd client_fd stx_size pipes
      in \<lparr>tr_ctx = c, tr_sqe = handle_splice_all_submission c, tr_pipe = [], tr_sent = []\<rparr>)"

section \<open>Receiving a request in pieces\<close>

lemma sdsempty_spec:
  assumes "\<forall>n. al_ok A n"
  shows "\<exists>s. sdsempty A = Some (Some s) \<and> sds_rep s [] \<and> sdsavail s = 0"
proof -
  have "\<exists>s. sdsempty A = Some (Some s) \<and> sdsavail s = 0"
    using assms by (auto simp: sdsempty_def sdsnewlen_def sdsReqType_def sdsHdrSize_def mem_write_def
        sdsavail_def s_malloc_def Let_def)
  moreover obtain r where "sdsempty A = Some r" "\<forall>s. r = Some s \<longrightarrow> sds_rep s []"
    using sdsnewlen_spec [of 0 "Init_bytes []" A] by (auto simp: sdsempty_def init_holds_def)
  ultimately show ?thesis by auto
qed

text \<open>Room for at least one chunk, and for exactly two in a fresh string.\<close>

lemma recv_room:
  assumes "\<forall>n. al_ok A n" and "sds_rep s str" and "length str \<le> MAX_REQUEST"
  shows "\<exists>b. sdsMakeRoomFor A s RECV_CHUNK = Some (Some b) \<and> sds_rep b str \<and>
    length str + RECV_CHUNK \<le> sdsalloc b \<and>
    (sdsavail s < RECV_CHUNK \<longrightarrow> sdsalloc b = 2 * (length str + RECV_CHUNK))"
proof -
  have small: "length str + RECV_CHUNK < 2 ^ 62" "length str + RECV_CHUNK < SDS_MAX_PREALLOC"
    using assms(3) by (simp_all add: RECV_CHUNK_def MAX_REQUEST_def SDS_MAX_PREALLOC_def)
  then have "prealloc_len (length str + RECV_CHUNK) = 2 * (length str + RECV_CHUNK)"
    by (simp add: prealloc_len_def)
  with sdsMakeRoomFor_full [OF assms(2) small(1), of A] assms(1) show ?thesis by auto
qed

lemma recv_append:
  assumes rep: "sds_rep b str" and "length str + length d \<le> sdsalloc b" and "d \<noteq> []"
    and "length d < 2 ^ 32"
  shows "\<exists>buf b'. mem_write (sd_buf b) (length str) d = Some buf \<and>
    sdsIncrLen (b\<lparr>sd_buf := buf\<rparr>) (int (length d)) = Some b' \<and> sds_rep b' (str @ d)"
proof -
  from assms(1,2) obtain buf where buf: "mem_write (sd_buf b) (length str) d = Some buf"
    by (auto simp: mem_write_def sds_rep_def)
  with sdsIncrLen_spec [OF rep assms(2) _ assms(4) buf] assms(3) show ?thesis by auto
qed

text \<open>What a completion does with a piece, from the result of the parser.\<close>

lemma handle_recv_completion_spec:
  assumes ok: "\<forall>n. al_ok A n" and rep: "sds_rep (rc_buffer ctx) str" and d: "d \<noteq> []"
    and room: "length str + length d \<le> sdsalloc (rc_buffer ctx)" and small: "length (str @ d) \<le> MAX_REQUEST"
    and parse: "request_parse ((rc_request ctx)\<lparr>rq_raw := str @ d\<rparr>) = Some (req, r)"
  shows "r < 0 \<Longrightarrow> handle_recv_completion A (int (length d)) d ctx = Some Recv_refused"
    and "0 < r \<Longrightarrow> handle_recv_completion A (int (length d)) d ctx =
      Some (Recv_request req (rc_client_fd ctx))"
    and "r = 0 \<Longrightarrow> \<exists>ctx' sqe. handle_recv_completion A (int (length d)) d ctx = Some (Recv_more ctx' sqe) \<and>
      sds_rep (rc_buffer ctx') (str @ d) \<and> rc_client_fd ctx' = rc_client_fd ctx \<and>
      length (str @ d) + RECV_CHUNK \<le> sdsalloc (rc_buffer ctx')"
proof -
  have "length d < 2 ^ 32" using small by (simp add: MAX_REQUEST_def)
  from recv_append [OF rep room d this] obtain buf b' where b':
    "mem_write (sd_buf (rc_buffer ctx)) (length str) d = Some buf"
    "sdsIncrLen ((rc_buffer ctx)\<lparr>sd_buf := buf\<rparr>) (int (length d)) = Some b'" "sds_rep b' (str @ d)" by blast
  from recv_room [OF ok b'(3) small] obtain b where b: "sdsMakeRoomFor A b' RECV_CHUNK = Some (Some b)"
    "sds_rep b (str @ d)" "length (str @ d) + RECV_CHUNK \<le> sdsalloc b" by blast
  note run = handle_recv_completion_def handle_recv_submission_def
  show "r < 0 \<Longrightarrow> handle_recv_completion A (int (length d)) d ctx = Some Recv_refused"
    using b' rep d parse by (simp add: run)
  show "0 < r \<Longrightarrow> handle_recv_completion A (int (length d)) d ctx =
      Some (Recv_request req (rc_client_fd ctx))"
    using b' rep d parse small by (simp add: run)
  show "r = 0 \<Longrightarrow> \<exists>ctx' sqe. handle_recv_completion A (int (length d)) d ctx = Some (Recv_more ctx' sqe) \<and>
      sds_rep (rc_buffer ctx') (str @ d) \<and> rc_client_fd ctx' = rc_client_fd ctx \<and>
      length (str @ d) + RECV_CHUNK \<le> sdsalloc (rc_buffer ctx')"
    using b' rep d parse small b by (simp add: run)
qed

text \<open>The terminator of a printed request is at its end, so no proper prefix contains it.\<close>

lemma print_request_hdr_end:
  assumes "wf_request m u fs"
  shows "memmem (print_request m u fs @ rest) HDR_END = Some (length (print_request m u fs) - 4)"
proof -
  let ?ls = "request_line m u # map print_line fs"
  have ok: "\<forall>l\<in>set ?ls. no_crlf l" "\<forall>l\<in>set (map print_line fs). l \<noteq> []"
    using assms by (auto simp: wf_request_def print_line_def split: prod.splits)
  show ?thesis
    using memmem_hdr_end_lines [OF ok, of rest] by (simp add: print_request_def length_print_request)
qed

lemma length_print_request_ge: "4 \<le> length (print_request m u fs)"
  by (simp add: length_print_request)

lemma proper_prefix_incomplete:
  assumes "wf_request m u fs" and "str @ t = print_request m u fs @ rest"
    and "length str < length (print_request m u fs)"
  shows "memmem str HDR_END = None"
proof (rule ccontr)
  assume "memmem str HDR_END \<noteq> None"
  then obtain i where i: "memmem str HDR_END = Some i" by blast
  from memmem_append_left [OF i, of t] have "memmem (print_request m u fs @ rest) HDR_END = Some i"
    by (simp flip: assms(2))
  with print_request_hdr_end [OF assms(1), of rest] have "i = length (print_request m u fs) - 4" by simp
  with memmem_bound [OF i] assms(3) length_print_request_ge [of m u fs] show False by simp
qed

text \<open>The loop, from any context whose buffer holds the bytes received so far.\<close>

lemma recv_loop_request:
  assumes ok: "\<forall>n. al_ok A n" and wf: "wf_request m u fs"
    and small: "length (print_request m u fs) \<le> RECV_CHUNK"
  shows "sds_rep (rc_buffer ctx) str \<Longrightarrow> length str + RECV_CHUNK \<le> sdsalloc (rc_buffer ctx) \<Longrightarrow>
    str @ concat ds = print_request m u fs @ rest \<Longrightarrow>
    length (str @ concat (butlast ds)) < length (print_request m u fs) \<Longrightarrow> ds \<noteq> [] \<Longrightarrow>
    \<forall>d\<in>set ds. d \<noteq> [] \<and> length d \<le> RECV_CHUNK \<Longrightarrow>
    \<exists>req. recv_loop A ctx ds = Some (Recv_request req (rc_client_fd ctx)) \<and> request_shows req m u fs"
proof (induction ds arbitrary: ctx str)
  case (Cons d ds)
  have d: "d \<noteq> []" "length str + length d \<le> sdsalloc (rc_buffer ctx)" using Cons.prems by auto
  have raw: "(str @ d) @ concat ds = print_request m u fs @ rest" using Cons.prems(3) by simp
  have "length str < RECV_CHUNK" using Cons.prems(4) small by auto
  then have len: "length (str @ d) \<le> MAX_REQUEST" using Cons.prems(6)
    by (auto simp: RECV_CHUNK_def MAX_REQUEST_def)
  note step = handle_recv_completion_spec [OF ok Cons.prems(1) d len]
  show ?case
  proof (cases "ds = []")
    case True
    let ?req = "(rc_request ctx)\<lparr>rq_raw := str @ d\<rparr>"
    have "rq_raw ?req = print_request m u fs @ rest" using raw True by simp
    moreover have "length (print_request m u fs) < 2 ^ 31" using small by (simp add: RECV_CHUNK_def)
    ultimately obtain req where req: "request_parse ?req = Some (req, int (length (print_request m u fs)))"
      "request_shows req m u fs" using request_parse_whole [OF wf] by blast
    have "0 < int (length (print_request m u fs))" using length_print_request_ge [of m u fs] by linarith
    from step(2) [OF req(1) this] True req(2) show ?thesis by simp
  next
    case False
    then have short: "length ((str @ d) @ concat (butlast ds)) < length (print_request m u fs)"
      using Cons.prems(4) by simp
    then have "memmem (str @ d) HDR_END = None" using proper_prefix_incomplete [OF wf raw] by simp
    moreover have "length (str @ d) < MAX_HEADER_BYTES"
      using short small by (simp add: RECV_CHUNK_def MAX_HEADER_BYTES_def)
    ultimately have "request_parse ((rc_request ctx)\<lparr>rq_raw := str @ d\<rparr>) =
        Some ((rc_request ctx)\<lparr>rq_raw := str @ d\<rparr>, 0)"
      using request_parse_incomplete [of "(rc_request ctx)\<lparr>rq_raw := str @ d\<rparr>"] by simp
    from step(3) [OF this] obtain ctx' sqe where s:
      "handle_recv_completion A (int (length d)) d ctx = Some (Recv_more ctx' sqe)"
      "sds_rep (rc_buffer ctx') (str @ d)" "rc_client_fd ctx' = rc_client_fd ctx"
      "length (str @ d) + RECV_CHUNK \<le> sdsalloc (rc_buffer ctx')" by blast
    from Cons.IH [OF s(2,4) raw short False] Cons.prems(6) s(1,3) show ?thesis by auto
  qed
qed simp

lemma recv_start:
  assumes ok: "\<forall>n. al_ok A n"
  shows "\<exists>ctx sqe. handle_recv_submission A fd None = Some (ctx, sqe) \<and> sds_rep (rc_buffer ctx) [] \<and>
    rc_client_fd ctx = fd \<and> sdsalloc (rc_buffer ctx) = 2 * RECV_CHUNK \<and>
    sqe = Sq_recv fd (2 * RECV_CHUNK)"
proof -
  obtain s where s: "sdsempty A = Some (Some s)" "sds_rep s []" "sdsavail s = 0"
    using sdsempty_spec [OF ok] by blast
  obtain b where b: "sdsMakeRoomFor A s RECV_CHUNK = Some (Some b)" "sds_rep b []"
    "sdsalloc b = 2 * RECV_CHUNK"
    using recv_room [OF ok s(2)] s(3) by (auto simp: RECV_CHUNK_def)
  with s sds_rep_avail [OF b(2)] show ?thesis by (simp add: handle_recv_submission_def)
qed

text \<open>
  C6. A well-formed request of at most 4096 bytes is handed to the router, showing exactly
  its fields, however the network cuts it into pieces: no piece is empty or longer than the room
  that is always left for it, and the terminator arrives with the last of them.
\<close>

theorem recv_any_segmentation:
  assumes "\<forall>n. al_ok A n" and "wf_request m u fs" and "length (print_request m u fs) \<le> 4096"
    and "concat ds = print_request m u fs @ rest"
    and "length (concat (butlast ds)) < length (print_request m u fs)"
    and "\<forall>d\<in>set ds. d \<noteq> [] \<and> length d \<le> 4096"
  shows "\<exists>req. recv_all A fd ds = Some (Recv_request req fd) \<and> request_shows req m u fs"
proof -
  obtain ctx sqe where c: "handle_recv_submission A fd None = Some (ctx, sqe)" "sds_rep (rc_buffer ctx) []"
    "rc_client_fd ctx = fd" "sdsalloc (rc_buffer ctx) = 2 * RECV_CHUNK" using recv_start [OF assms(1)] by blast
  have "ds \<noteq> []" using assms(4) length_print_request_ge [of m u fs] by auto
  with recv_loop_request [OF assms(1,2) _ c(2), of ds rest] assms(3-6) c show ?thesis
    by (simp add: recv_all_def RECV_CHUNK_def)
qed

theorem recv_any_segmentation_witness:
  "\<exists>req. recv_all std_alloc 7
     [take 9 (print_request http_method_put ''/a'' example_fields),
      drop 9 (print_request http_method_put ''/a'' example_fields)] = Some (Recv_request req 7) \<and>
     request_shows req http_method_put ''/a'' example_fields"
proof -
  have len: "length (print_request http_method_put ''/a'' example_fields) = 41"
    by (simp add: print_request_def request_line_def method_name_def print_line_def)
  then show ?thesis
    by (intro recv_any_segmentation [OF _ example_wf, of _ _ "[]"])
      (auto simp: min_def simp flip: length_greater_0_conv)
qed

text \<open>
  C27. The header limit depends on the segmentation.  A well-formed request whose header has
  more than 4096 bytes (and at most 8192, the room of a fresh buffer) is served when it arrives in
  one piece, and refused when its first 4096 bytes arrive alone.
\<close>

theorem recv_limit_depends_on_segmentation:
  assumes "\<forall>n. al_ok A n" and "wf_request m u fs" and "4096 < length (print_request m u fs)"
    and "length (print_request m u fs) \<le> 8192"
  shows "(\<exists>req. recv_all A fd [print_request m u fs] = Some (Recv_request req fd) \<and>
      request_shows req m u fs) \<and>
    recv_all A fd [take 4096 (print_request m u fs), drop 4096 (print_request m u fs)] = Some Recv_refused"
proof -
  let ?raw = "print_request m u fs"
  obtain ctx sqe where c: "handle_recv_submission A fd None = Some (ctx, sqe)" "sds_rep (rc_buffer ctx) []"
    "rc_client_fd ctx = fd" "sdsalloc (rc_buffer ctx) = 2 * RECV_CHUNK" using recv_start [OF assms(1)] by blast
  have room: "length [] + length d \<le> sdsalloc (rc_buffer ctx)" "length ([] @ d) \<le> MAX_REQUEST"
    if "length d \<le> 8192" for d :: bytes using that c(4) by (simp_all add: RECV_CHUNK_def MAX_REQUEST_def)
  note step = handle_recv_completion_spec [OF assms(1) c(2) _ room]
  have ne: "?raw \<noteq> []" "take 4096 ?raw \<noteq> []" "0 < int (length ?raw)" using assms(3) by auto
  have whole: "\<exists>req. recv_all A fd [?raw] = Some (Recv_request req fd) \<and> request_shows req m u fs"
  proof -
    let ?req = "(rc_request ctx)\<lparr>rq_raw := [] @ ?raw\<rparr>"
    obtain req where req: "request_parse ?req = Some (req, int (length ?raw))" "request_shows req m u fs"
      using request_parse_whole [OF assms(2), of ?req "[]"] assms(4) by auto
    from step(2) [OF ne(1) assms(4) assms(4) req(1) ne(3)] req(2) c(1,3) show ?thesis
      by (simp add: recv_all_def)
  qed
  let ?d = "take 4096 ?raw"
  let ?req = "(rc_request ctx)\<lparr>rq_raw := [] @ ?d\<rparr>"
  have short: "length ?d \<le> 8192" by simp
  have "memmem ?d HDR_END = None"
    by (rule proper_prefix_incomplete [OF assms(2), of _ "drop 4096 ?raw" "[]"]) (use assms(3) in simp_all)
  then have "request_parse ?req = Some (?req, - 1)"
    using request_parse_incomplete [of ?req] assms(3) by (simp add: MAX_HEADER_BYTES_def)
  from step(1) [OF ne(2) short short this] have
    "handle_recv_completion A (int (length ?d)) ?d ctx = Some Recv_refused" by simp
  then have "recv_all A fd [?d, drop 4096 ?raw] = Some Recv_refused"
    using c(1) by (simp add: recv_all_def)
  with whole show ?thesis by blast
qed

abbreviation long_target :: bytes where "long_target \<equiv> CHR ''/'' # replicate 5000 (CHR ''a'')"

theorem recv_limit_depends_on_segmentation_witness:
  "(\<exists>req. recv_all std_alloc 7 [print_request http_method_get long_target []] = Some (Recv_request req 7)) \<and>
   recv_all std_alloc 7 [take 4096 (print_request http_method_get long_target []),
     drop 4096 (print_request http_method_get long_target [])] = Some Recv_refused"
proof -
  have "no_crlf (request_line http_method_get long_target)"
    by (intro no_crlf_without_CR) (auto simp: request_line_def method_name_def)
  then have wf: "wf_request http_method_get long_target []" by (simp add: wf_request_def)
  have len: "length (print_request http_method_get long_target []) = 5018"
    by (simp add: print_request_def request_line_def method_name_def)
  from recv_limit_depends_on_segmentation [OF _ wf, of std_alloc 7] len show ?thesis by auto
qed

section \<open>Delivering a buffer\<close>

lemma send_completion_rest:
  assumes rep: "sds_rep (sc_buffer ctx) str" and "k \<le> length str" and "0 < k"
  shows "\<exists>b. sds_rep b (drop k str) \<and> handle_send_completion (int k) ctx =
    Some (if drop k str = [] then Inl () else Inr (handle_send_submission b (sc_client_fd ctx)))"
proof -
  obtain b where b: "sdsrange (sc_buffer ctx) (int k) (- 1) = Some b" "sds_rep b (range_of str (int k) (- 1))"
    using sdsrange_spec [OF rep] by blast
  then have "sds_rep b (drop k str)" using assms(2,3) by (simp add: range_of_drop)
  with b(1) show ?thesis by (intro exI [of _ b]) (simp add: handle_send_completion_def)
qed

text \<open>
  C23. Whatever the numbers of bytes the kernel takes in the successive sends, what it has
  taken is always the beginning of the buffer, and the loop finishes exactly when it has taken all
  of it: no byte is lost, repeated or reordered.
\<close>

theorem send_loop_delivers:
  assumes "sds_rep buffer str" and "str \<noteq> []" and "\<forall>k\<in>set ks. 0 < k" and "sum_list ks \<le> length str"
  shows "send_loop (handle_send_submission buffer fd) ks =
    Some (take (sum_list ks) str, sum_list ks = length str)"
  using assms
proof (induction ks arbitrary: buffer str)
  case Nil
  then show ?case by (simp add: handle_send_submission_def)
next
  case (Cons k ks)
  let ?ctx = "fst (handle_send_submission buffer fd)"
  have c: "sds_rep (sc_buffer ?ctx) str" "sc_client_fd ?ctx = fd" "k \<le> length str" "0 < k"
    using Cons.prems by (simp_all add: handle_send_submission_def)
  from send_completion_rest [OF c(1,3,4)] obtain b where b: "sds_rep b (drop k str)"
    "handle_send_completion (int k) ?ctx =
       Some (if drop k str = [] then Inl () else Inr (handle_send_submission b fd))" using c(2) by auto
  show ?case
  proof (cases "drop k str = []")
    case True
    then have "length str = k" using c(3) by simp
    moreover from this have "sum_list ks = 0" using Cons.prems(4) by simp
    ultimately show ?thesis
      using b True Cons.prems(1) by (simp add: handle_send_submission_def)
  next
    case False
    then have "send_loop (handle_send_submission b fd) ks =
        Some (take (sum_list ks) (drop k str), sum_list ks = length (drop k str))"
      using Cons.prems by (intro Cons.IH [OF b(1)]) auto
    moreover have "take (k + sum_list ks) str = take k str @ take (sum_list ks) (drop k str)"
      by (rule take_add)
    ultimately show ?thesis
      using b False c(3) Cons.prems(1) by (auto simp: handle_send_submission_def)
  qed
qed

theorem send_loop_delivers_witness:
  "send_loop (handle_send_submission sds_ab 5) [1, 1] = Some (''ab'', True)"
  using send_loop_delivers [OF sds_ab_rep, of "[1, 1]" 5] by simp

section \<open>Delivering a file\<close>

lemma u64_of_nat_eq: "k < 2 ^ 32 \<Longrightarrow> j < 2 ^ 32 \<Longrightarrow> (of_nat k :: u64) = of_nat j \<longleftrightarrow> k = j"
  by (simp add: word_of_nat_eq_iff take_bit_nat_eq_self_iff take_bit_nat_eq_self)

lemma u32_of_u64: "(ucast (of_nat n :: u64) :: u32) = of_nat n"
  by (simp add: unsigned_of_nat word_of_nat_eq_iff)

text \<open>A state in which the next operation reads from the file: \<open>p\<close> bytes are in the pipe.\<close>

definition filling :: "int \<Rightarrow> int \<Rightarrow> int \<times> int \<Rightarrow> u32 \<Rightarrow> u64 \<Rightarrow> bytes \<Rightarrow> bytes \<Rightarrow> transfer" where
  "filling fd client_fd pipes left p pipe sent =
     (let c = \<lparr>sp_fd_in = fd, sp_fd_out = client_fd, sp_off_in = 0, sp_pipe = pipes,
        sp_nbytes = left, sp_in_pipe = p, sp_is_draining = False\<rparr>
      in \<lparr>tr_ctx = c, tr_sqe = handle_splice_all_submission c, tr_pipe = pipe, tr_sent = sent\<rparr>)"

lemma start_filling:
  "start_transfer fd client_fd (of_nat n) pipes = filling fd client_fd pipes (of_nat n) 0 [] []"
  by (simp add: start_transfer_def sendfile_context_def filling_def u32_of_u64)

lemma filling_sent [simp]: "tr_sent (filling fd client_fd pipes left p pipe sent) = sent"
  by (simp add: filling_def Let_def)

text \<open>A fill of \<open>k\<close> bytes followed by a drain of \<open>j\<close> bytes.\<close>

lemma splice_round:
  "splice_loop content (filling fd client_fd pipes left p pipe sent) (k # j # ks) =
    (let pipe' = pipe @ take k content; left' = left - of_nat k; p' = p + of_nat k - of_nat j
     in if p' = 0 \<and> left' = 0
        then ((filling fd client_fd pipes left p pipe sent)
          \<lparr>tr_ctx := \<lparr>sp_fd_in = fd, sp_fd_out = client_fd, sp_off_in = 0, sp_pipe = pipes,
              sp_nbytes = left', sp_in_pipe = p + of_nat k, sp_is_draining = True\<rparr>,
           tr_sqe := Sq_splice (fst pipes) (- 1) client_fd (- 1) (ucast (p + of_nat k)),
           tr_pipe := drop j pipe', tr_sent := sent @ take j pipe'\<rparr>, True)
        else splice_loop content (filling fd client_fd pipes left' p' (drop j pipe') (sent @ take j pipe')) ks)"
  by (simp add: filling_def Let_def kernel_splice_def handle_splice_all_completion_def
      handle_splice_all_submission_def)

declare splice_loop.simps [simp del]

lemma of_nat_u32_0: "n < 2 ^ 32 \<Longrightarrow> (of_nat n :: u32) = 0 \<longleftrightarrow> n = 0"
  by (auto simp: word_of_nat_eq_0_iff dest: dvd_imp_le)

abbreviation rounds :: "nat list \<Rightarrow> nat list" where
  "rounds ks \<equiv> concat (map (\<lambda>k. [k, k]) ks)"

lemma splice_rounds:
  "\<forall>k\<in>set ks. 0 < k \<Longrightarrow> ks \<noteq> [] \<Longrightarrow> sum_list ks < 2 ^ 32 \<Longrightarrow> (of_nat n :: u32) = of_nat (sum_list ks) \<Longrightarrow>
   \<exists>t. splice_loop content (filling fd client_fd pipes (of_nat n) 0 [] sent) (rounds ks) = (t, True) \<and>
     tr_sent t = sent @ concat (map (\<lambda>k. take k content) ks)"
proof (induction ks arbitrary: sent n)
  case (Cons k ks)
  have left: "(of_nat n :: u32) - of_nat k = of_nat (sum_list ks)" using Cons.prems(4) by simp
  have zero: "(of_nat (sum_list ks) :: u32) = 0 \<longleftrightarrow> ks = []"
    using Cons.prems of_nat_u32_0 [of "sum_list ks"] by (cases ks) auto
  show ?case
    using Cons.IH [OF _ _ _ refl, of "sent @ take k content"] Cons.prems(1-3) zero
    by (cases "ks = []") (simp_all add: splice_round Let_def left)
qed simp

lemma of_nat_u32_mod: "(of_nat n :: u32) = of_nat (n mod 2 ^ 32)"
  by (simp add: word_of_nat_eq_iff take_bit_eq_mod)

text \<open>
  How a file is delivered when every drain empties the pipe.  The offset of the reads
  never moves, so each round sends the beginning of the file again: with fills of \<open>ks\<close>
  bytes, which end when they add up to the size cut to 32 bits, the client receives the
  concatenation of the prefixes of those lengths.
\<close>

theorem sendfile_sends_prefixes:
  assumes "\<forall>k\<in>set ks. 0 < k \<and> k \<le> 65536" and "ks \<noteq> []" and "sum_list ks = n mod 2 ^ 32"
  shows "\<exists>t. splice_loop content (start_transfer fd client_fd (of_nat n) pipes) (rounds ks) = (t, True) \<and>
    tr_sent t = concat (map (\<lambda>k. take k content) ks)"
  using splice_rounds [of ks n content fd client_fd pipes "[]"] assms of_nat_u32_mod [of n]
  by (simp add: start_filling)

theorem sendfile_sends_prefixes_witness:
  "\<exists>t. splice_loop ''abcdef'' (start_transfer 3 4 6 (8, 9)) [4, 4, 2, 2] = (t, True) \<and>
   tr_sent t = ''abcdab''"
  using sendfile_sends_prefixes [of "[4, 2]" 6 "''abcdef''" 3 4 "(8, 9)"] by simp

text \<open>The fills of a pipe of 64 KiB that always takes as much as it can.\<close>

definition full_fills :: "nat \<Rightarrow> nat list" where
  "full_fills n = replicate (n div 65536) 65536 @ (if n mod 65536 = 0 then [] else [n mod 65536])"

lemma full_fills:
  "sum_list (full_fills n) = n" "k \<in> set (full_fills n) \<Longrightarrow> 0 < k \<and> k \<le> 65536" "full_fills n = [] \<longleftrightarrow> n = 0"
  using div_mult_mod_eq [of n 65536] by (auto simp: full_fills_def sum_list_replicate split: if_splits)

lemma nth_concat_replicate:
  "i < q * length xs \<Longrightarrow> concat (replicate q xs) ! i = xs ! (i mod length xs)"
proof (induction q arbitrary: i)
  case (Suc q)
  then show ?case by (cases "i < length xs") (auto simp: nth_append le_mod_geq)
qed simp

text \<open>The prefixes sent are the first 64 KiB over and over.\<close>

lemma full_fills_prefixes:
  "concat (map (\<lambda>k. take k content) (full_fills (length content))) =
     map (\<lambda>i. content ! (i mod 65536)) [0..<length content]"
proof (cases "length content < 65536")
  case True
  then have "concat (map (\<lambda>k. take k content) (full_fills (length content))) = content"
    by (simp add: full_fills_def)
  also have "content = map (\<lambda>i. content ! (i mod 65536)) [0..<length content]"
    using True by (intro nth_equalityI) simp_all
  finally show ?thesis .
next
  case False
  define W :: nat where "W = 65536"
  define q where "q = length content div W"
  let ?n = "length content" and ?xs = "take W content"
  have xs: "length ?xs = W" "0 < W" using False by (simp_all add: W_def)
  have n: "?n = q * W + ?n mod W" by (simp add: q_def W_def)
  have r: "?n mod W < W" using xs(2) by simp
  have len: "length (concat (replicate q ?xs)) = q * W"
    using xs(1) by (simp add: length_concat sum_list_replicate)
  have "(concat (replicate q ?xs) @ take (?n mod W) content) ! i = content ! (i mod W)" if i: "i < ?n" for i
  proof (cases "i < q * W")
    case True
    then show ?thesis using nth_concat_replicate [of i q ?xs] xs len by (simp add: nth_append)
  next
    case False
    then have "i - q * W < ?n mod W" using i n by linarith
    moreover from this have "i mod W = i - q * W"
      using False r by (metis le_add_diff_inverse less_trans linorder_not_less mod_less mod_mult_self3)
    ultimately show ?thesis using False len by (simp add: nth_append)
  qed
  moreover have "length (concat (replicate q ?xs) @ take (?n mod W) content) = ?n"
    using len n by simp
  ultimately have "concat (replicate q ?xs) @ take (?n mod W) content = map (\<lambda>i. content ! (i mod W)) [0..<?n]"
    by (intro nth_equalityI) simp_all
  then show ?thesis unfolding full_fills_def W_def [symmetric] q_def [symmetric]
    by (cases "?n mod W = 0") auto
qed

text \<open>The lengths the server asks for along a transfer: 0 for what is not a splice.\<close>

fun splice_length :: "sqe \<Rightarrow> nat" where
  "splice_length (Sq_splice fd_in off_in fd_out off_out n) = unat n"
| "splice_length q = 0"

fun asked_along :: "bytes \<Rightarrow> transfer \<Rightarrow> nat list \<Rightarrow> nat list" where
  "asked_along content t [] = []"
| "asked_along content t (k # ks) = splice_length (tr_sqe t) #
     (let t = kernel_splice content k t
      in case handle_splice_all_completion (int k) (tr_ctx t) of
        None \<Rightarrow> []
      | Some (c, q) \<Rightarrow> asked_along content (t\<lparr>tr_ctx := c, tr_sqe := q\<rparr>) ks)"

lemma asked_round:
  assumes "k \<le> n" and "n < 2 ^ 32"
  shows "asked_along content (filling fd client_fd pipes (of_nat n) 0 [] sent) (k # k # ks) =
    min n 65536 # k # (if n = k then []
      else asked_along content (filling fd client_fd pipes (of_nat (n - k)) 0 [] (sent @ take k content)) ks)"
proof -
  have k: "unat (of_nat k :: u64) = k" "unat (ucast (of_nat k :: u64) :: u32) = k" "unat (of_nat n :: u32) = n"
    "unat (ucast (ucast (of_nat n :: u32) :: u64) :: u32) = n" "unat (ucast (ucast (of_nat k :: u32) :: u64) :: u32) = k"
    using assms by (simp_all add: u32_of_u64 unsigned_of_nat take_bit_nat_eq_self)
  have "(of_nat n :: u32) < 65536 \<longleftrightarrow> n < 65536" by (simp add: word_less_nat_alt k)
  moreover have "(of_nat n :: u32) - of_nat k = of_nat (n - k)" using assms by (simp add: of_nat_diff)
  moreover have "(of_nat (n - k) :: u32) = 0 \<longleftrightarrow> n = k" using assms of_nat_u32_0 [of "n - k"] by auto
  ultimately show ?thesis
    using k by (simp add: filling_def Let_def kernel_splice_def handle_splice_all_completion_def
        handle_splice_all_submission_def SPLICE_MAX_SIZE_def min_def)
qed

lemma full_fills_step: "65536 < n \<Longrightarrow> full_fills n = 65536 # full_fills (n - 65536)"
  by (simp add: full_fills_def le_div_geq le_mod_geq)

lemma full_fills_small: "0 < n \<Longrightarrow> n \<le> 65536 \<Longrightarrow> full_fills n = [n]"
  by (cases "n = 65536") (auto simp: full_fills_def)

lemma asked_full:
  "0 < n \<Longrightarrow> n < 2 ^ 32 \<Longrightarrow>
   asked_along content (filling fd client_fd pipes (of_nat n) 0 [] sent) (rounds (full_fills n)) = rounds (full_fills n)"
proof (induction n arbitrary: sent rule: less_induct)
  case (less n)
  show ?case
  proof (cases "n \<le> 65536")
    case True
    with less.prems show ?thesis by (simp add: full_fills_small asked_round min_def del: asked_along.simps)
  next
    case False
    then have "asked_along content (filling fd client_fd pipes (of_nat (n - 65536)) 0 [] (sent @ take 65536 content))
      (rounds (full_fills (n - 65536))) = rounds (full_fills (n - 65536))"
      using less.prems by (intro less.IH) simp_all
    with False less.prems show ?thesis by (simp add: full_fills_step asked_round min_def del: asked_along.simps)
  qed
qed

text \<open>
  C24. A file of less than 4 GiB, on the schedule most favourable to the code: every splice moves
  exactly as many bytes as it asks for (fills of 64 KiB until the rest of the file is asked, and
  drains that empty the pipe).  The transfer then ends, and the client has received the file exactly when every byte of it equals the byte at its offset
  modulo 64 KiB; so every file of at most 64 KiB, and a larger one only if it repeats its first
  64 KiB.
\<close>

theorem sendfile_exact_iff:
  assumes "content \<noteq> []" and "length content < 2 ^ 32"
  shows "\<exists>t. splice_loop content (start_transfer fd client_fd (of_nat (length content)) pipes)
      (rounds (full_fills (length content))) = (t, True) \<and>
    asked_along content (start_transfer fd client_fd (of_nat (length content)) pipes)
      (rounds (full_fills (length content))) = rounds (full_fills (length content)) \<and>
    (tr_sent t = content \<longleftrightarrow> (\<forall>i<length content. content ! i = content ! (i mod 65536))) \<and>
    (length content \<le> 65536 \<longrightarrow> tr_sent t = content)"
proof -
  let ?ks = "full_fills (length content)"
  have ks: "\<forall>k\<in>set ?ks. 0 < k" "?ks \<noteq> []" "sum_list ?ks = length content"
    using full_fills(2) [of _ "length content"] full_fills(1,3) [of "length content"] assms by auto
  obtain t where t: "splice_loop content (start_transfer fd client_fd (of_nat (length content)) pipes) (rounds ?ks) = (t, True)"
    "tr_sent t = concat (map (\<lambda>k. take k content) ?ks)"
    using splice_rounds [OF ks(1,2), of "length content" content fd client_fd pipes "[]"] ks(3) assms(2)
    by (auto simp: start_filling)
  have "tr_sent t = content \<longleftrightarrow> (\<forall>i<length content. content ! i = content ! (i mod 65536))"
    unfolding t(2) full_fills_prefixes list_eq_iff_nth_eq length_map length_upt by (simp, metis)
  moreover have "\<forall>i<length content. content ! i = content ! (i mod 65536)" if "length content \<le> 65536"
    using that by simp
  moreover have "asked_along content (start_transfer fd client_fd (of_nat (length content)) pipes) (rounds ?ks) = rounds ?ks"
    unfolding start_filling using assms by (intro asked_full) simp_all
  ultimately show ?thesis using t(1) by blast
qed

text \<open>A file of 128 KiB that does not repeat itself.\<close>

abbreviation big_file :: bytes where
  "big_file \<equiv> replicate 65536 (CHR ''a'') @ replicate 65536 (CHR ''b'')"

theorem sendfile_exact_iff_witness:
  "\<exists>t. splice_loop big_file (start_transfer 3 4 131072 (8, 9)) [65536, 65536, 65536, 65536] = (t, True) \<and>
     tr_sent t \<noteq> big_file"
proof -
  have len: "length big_file = 131072" by simp
  then have ne: "big_file \<noteq> []" "length big_file < 2 ^ 32" by (metis list.size(3) zero_neq_numeral) (simp only: len, simp)
  obtain t where t: "splice_loop big_file (start_transfer 3 4 (of_nat 131072) (8, 9)) (rounds (full_fills 131072)) = (t, True)"
    "tr_sent t = big_file \<longleftrightarrow> (\<forall>i<131072. big_file ! i = big_file ! (i mod 65536))"
    using sendfile_exact_iff [OF ne, of 3 4 "(8, 9)"] unfolding len by blast
  have "big_file ! 65536 \<noteq> big_file ! (65536 mod 65536)" by (simp add: nth_append)
  then have "tr_sent t \<noteq> big_file" unfolding t(2) by (intro notI) (drule spec [of _ 65536], simp)
  moreover have "rounds (full_fills 131072) = [65536, 65536, 65536, 65536]" by (simp add: full_fills_def numeral_2_eq_2)
  ultimately show ?thesis using t(1) by (intro exI [of _ t]) simp
qed

text \<open>
  C26. When the last drain of a small file is partial, the transfer goes wrong: the program
  then asks to refill the pipe from offset 0 with a length that has wrapped around 32 bits, and
  once the pipe has taken \<open>k\<close> more bytes and been emptied, the client has received the file
  followed by its first \<open>k\<close> bytes and the transfer still is not over.
\<close>

theorem sendfile_partial_drain_overruns:
  assumes "length content = n" and "j < n" and "n \<le> 65536" and "0 < k" and "k < 2 ^ 31" and "k \<le> n"
  shows "\<exists>t t'. splice_loop content (start_transfer fd client_fd (of_nat n) pipes) [n, j] = (t, False) \<and>
    tr_sqe t = Sq_splice fd 0 (snd pipes) (- 1) (of_nat (2 ^ 32 - (n - j))) \<and>
    splice_loop content (start_transfer fd client_fd (of_nat n) pipes) [n, j, k, n - j + k] = (t', False) \<and>
    tr_sent t' = content @ take k content"
proof -
  have ne: "(of_nat n :: u64) - of_nat j \<noteq> 0" using u64_of_nat_eq [of n j] assms by simp
  have left: "(of_nat k :: u32) \<noteq> 0" using of_nat_u32_0 [of k] assms by simp
  have all: "take n content = content" "take j content @ drop j content = content" using assms(1) by simp_all
  let ?t = "filling fd client_fd pipes 0 (of_nat n - of_nat j) (drop j content) (take j content)"
  have more: "splice_loop content (start_transfer fd client_fd (of_nat n) pipes) (n # j # ks) =
      splice_loop content ?t ks" for ks
    using ne assms(2) by (simp add: start_filling splice_round all Let_def)
  have "(of_nat (2 ^ 32 - (n - j)) :: u32) = of_nat (2 ^ 32) - of_nat (n - j)"
    using assms by (intro of_nat_diff) simp
  also have "(of_nat (2 ^ 32) :: u32) = 0" by (simp add: word_of_nat_eq_0_iff)
  finally have wrap: "(of_nat (2 ^ 32 - (n - j)) :: u32) = of_nat j - of_nat n"
    using assms(2) by (simp add: of_nat_diff)
  have "(of_nat j - of_nat n :: u64) = of_nat (2 ^ 64 - (n - j))"
    and "(of_nat (2 ^ 64 - (n - j)) :: u32) = of_nat j - of_nat n"
    using assms word_of_nat_eq_0_iff [of "2 ^ 64", where ?'a = 64] word_of_nat_eq_0_iff [of "2 ^ 64", where ?'a = 32]
    by (simp_all add: of_nat_diff)
  then have "(ucast (of_nat j - of_nat n :: u64) :: u32) = of_nat j - of_nat n"
    by (simp only: u32_of_u64)
  then have "tr_sqe ?t = Sq_splice fd 0 (snd pipes) (- 1) (of_nat (2 ^ 32 - (n - j)))"
    unfolding wrap by (simp add: filling_def handle_splice_all_submission_def SPLICE_MAX_SIZE_def Let_def)
  moreover have "\<exists>t'. splice_loop content ?t [k, n - j + k] = (t', False) \<and> tr_sent t' = content @ take k content"
    using left assms by (simp add: splice_round splice_loop.simps(1) Let_def of_nat_diff flip: append_assoc)
  ultimately show ?thesis unfolding more by (auto simp: splice_loop.simps(1))
qed

theorem sendfile_partial_drain_overruns_witness:
  "\<exists>t'. splice_loop ''abc'' (start_transfer 3 4 3 (8, 9)) [3, 1, 2, 4] = (t', False) \<and>
     tr_sent t' = ''abcab''"
  using sendfile_partial_drain_overruns [of "''abc''" 3 1 2 3 4 "(8, 9)"] by auto

text \<open>Fills and drains that move nothing while something is left.\<close>

lemma splice_spins:
  assumes "left \<noteq> 0"
  shows "\<exists>t. splice_loop [] (filling fd client_fd pipes left 0 [] sent) (replicate m 0) = (t, False) \<and> tr_sent t = sent"
proof (induction m rule: nat_less_induct)
  case (1 m)
  consider "m = 0" | "m = 1" | k where "m = Suc (Suc k)" by (metis One_nat_def not0_implies_Suc)
  then show ?case
  proof cases
    case 3
    then show ?thesis using 1 assms by (simp add: splice_round Let_def)
  qed (simp_all add: splice_loop.simps filling_def kernel_splice_def handle_splice_all_completion_def
      handle_splice_all_submission_def Let_def)
qed

text \<open>
  C25. A file that has been emptied since its size was taken makes the transfer run for ever: every
  read from it moves nothing, every drain of the empty pipe moves nothing, and the program
  submits the next operation each time, without sending a byte.
\<close>

theorem sendfile_emptied_spins:
  assumes "0 < n" and "n < 2 ^ 32"
  shows "\<exists>t. splice_loop [] (start_transfer fd client_fd (of_nat n) pipes) (replicate m 0) = (t, False) \<and> tr_sent t = []"
  unfolding start_filling using assms of_nat_u32_0 [of n] by (intro splice_spins) simp

theorem sendfile_emptied_spins_witness:
  "\<forall>m. \<exists>t. splice_loop [] (start_transfer 3 4 10 (8, 9)) (replicate m 0) = (t, False) \<and> tr_sent t = []"
  using sendfile_emptied_spins [of 10 3 4 "(8, 9)"] by simp

end
