(* ===== verification/Dll.thy ===== *)
theory Dll
  imports Prelude
begin

text \<open>
  The doubly linked list of \<open>core/containers/doubly_linked_list.c\<close>, on an explicit heap.
  A heap maps addresses to nodes and hands out a fresh address for every allocation; reading
  or writing through a null or freed pointer is a fault.  The \<open>stride\<close> bytes of an element
  are one value of type \<open>'a\<close>, copied whole by \<open>cmem_mcpy\<close>.  The list header's \<open>length\<close> is a
  64-bit word, because \<open>doubly_linked_list_get\<close> compares it with a signed index.
\<close>

section \<open>Data\<close>

record 'a dll_node =
  n_prev :: ptr
  n_next :: ptr
  n_data :: 'a

record 'a dll_heap =
  cells :: "addr \<rightharpoonup> 'a dll_node"
  brk :: addr

record dll =
  d_length :: u64
  d_stride :: nat
  d_head :: ptr
  d_tail :: ptr

definition empty_heap :: "'a dll_heap" where
  "empty_heap = \<lparr>cells = Map.empty, brk = 0\<rparr>"

text \<open>Writing through a pointer, and \<open>free\<close>, which accepts the null pointer.\<close>

definition upd_cell :: "'a dll_heap \<Rightarrow> ptr \<Rightarrow> ('a dll_node \<Rightarrow> 'a dll_node) \<Rightarrow> 'a dll_heap option"
where
  "upd_cell h p f = do {
     a \<leftarrow> p;
     n \<leftarrow> cells h a;
     Some (h\<lparr>cells := (cells h)(a \<mapsto> f n)\<rparr>)
   }"

definition free_cell :: "'a dll_heap \<Rightarrow> ptr \<Rightarrow> 'a dll_heap option" where
  "free_cell h p =
     (case p of None \<Rightarrow> Some h
      | Some a \<Rightarrow> do { n \<leftarrow> cells h a; Some (h\<lparr>cells := (cells h)(a := None)\<rparr>) })"

section \<open>Operations\<close>

text \<open>The caller's \<open>cmem_mcpy\<close> fills the node's data right after its creation.\<close>

definition doubly_linked_list_node_create :: "'a dll_heap \<Rightarrow> 'a \<Rightarrow> addr \<times> 'a dll_heap" where
  "doubly_linked_list_node_create h data =
     (brk h, \<lparr>cells = (cells h)(brk h \<mapsto> \<lparr>n_prev = None, n_next = None, n_data = data\<rparr>),
              brk = Suc (brk h)\<rparr>)"

definition doubly_linked_list_create :: "nat \<Rightarrow> dll" where
  "doubly_linked_list_create stride =
     \<lparr>d_length = 0, d_stride = stride, d_head = None, d_tail = None\<rparr>"

text \<open>The loop of \<open>doubly_linked_list_destroy\<close>; \<^const>\<open>None\<close> also if it does not end.\<close>

partial_function (option) doubly_linked_list_destroy :: "'a dll_heap \<Rightarrow> ptr \<Rightarrow> 'a dll_heap option"
where
  "doubly_linked_list_destroy h curr_node =
     (if curr_node = None then Some h
      else do {
        n \<leftarrow> deref (cells h) curr_node;
        h1 \<leftarrow> free_cell h curr_node;
        doubly_linked_list_destroy h1 (n_next n)
      })"

definition doubly_linked_list_push_front ::
  "'a dll_heap \<Rightarrow> dll \<Rightarrow> 'a \<Rightarrow> ('a dll_heap \<times> dll \<times> addr) option" where
  "doubly_linked_list_push_front h dl data = do {
     let (a, h) = doubly_linked_list_node_create h data;
     h \<leftarrow> upd_cell h (Some a) (\<lambda>n. n\<lparr>n_next := d_head dl\<rparr>);
     (h, dl) \<leftarrow>
       (if d_head dl = None then Some (h, dl\<lparr>d_tail := Some a\<rparr>)
        else do {
          n \<leftarrow> cells h a;
          h \<leftarrow> upd_cell h (n_next n) (\<lambda>m. m\<lparr>n_prev := Some a\<rparr>);
          Some (h, dl)
        });
     h \<leftarrow> upd_cell h (Some a) (\<lambda>n. n\<lparr>n_prev := None\<rparr>);
     Some (h, dl\<lparr>d_head := Some a, d_length := d_length dl + 1\<rparr>, a)
   }"

definition doubly_linked_list_push_back ::
  "'a dll_heap \<Rightarrow> dll \<Rightarrow> 'a \<Rightarrow> ('a dll_heap \<times> dll \<times> addr) option" where
  "doubly_linked_list_push_back h dl data = do {
     let (a, h) = doubly_linked_list_node_create h data;
     h \<leftarrow> upd_cell h (Some a) (\<lambda>n. n\<lparr>n_prev := d_tail dl\<rparr>);
     (h, dl) \<leftarrow>
       (if d_tail dl = None then Some (h, dl\<lparr>d_head := Some a, d_tail := Some a\<rparr>)
        else do {
          n \<leftarrow> cells h a;
          h \<leftarrow> upd_cell h (n_prev n) (\<lambda>m. m\<lparr>n_next := Some a\<rparr>);
          Some (h, dl)
        });
     h \<leftarrow> upd_cell h (Some a) (\<lambda>n. n\<lparr>n_next := None\<rparr>);
     Some (h, dl\<lparr>d_tail := Some a, d_length := d_length dl + 1\<rparr>, a)
   }"

text \<open>\<open>want\<close> says whether the caller passed a buffer for the element.\<close>

definition pop_copy :: "'a dll_heap \<Rightarrow> bool \<Rightarrow> ptr \<Rightarrow> 'a option option" where
  "pop_copy h want p =
     (if want then do { n \<leftarrow> deref (cells h) p; Some (Some (n_data n)) } else Some None)"

definition doubly_linked_list_pop_head ::
  "'a dll_heap \<Rightarrow> dll \<Rightarrow> bool \<Rightarrow> ('a dll_heap \<times> dll \<times> 'a option) option" where
  "doubly_linked_list_pop_head h dl want =
     (if d_length dl = 0 then Some (h, dl, None)
      else do {
        out \<leftarrow> pop_copy h want (d_head dl);
        (h, dl) \<leftarrow>
          (if d_length dl > 1 then do {
             n \<leftarrow> deref (cells h) (d_head dl);
             let dl = dl\<lparr>d_head := n_next n\<rparr>;
             m \<leftarrow> deref (cells h) (d_head dl);
             h \<leftarrow> free_cell h (n_prev m);
             h \<leftarrow> upd_cell h (d_head dl) (\<lambda>m. m\<lparr>n_prev := None\<rparr>);
             Some (h, dl)
           } else do {
             h \<leftarrow> free_cell h (d_head dl);
             Some (h, dl\<lparr>d_head := None, d_tail := None\<rparr>)
           });
        Some (h, dl\<lparr>d_length := d_length dl - 1\<rparr>, out)
      })"

definition doubly_linked_list_pop_tail ::
  "'a dll_heap \<Rightarrow> dll \<Rightarrow> bool \<Rightarrow> ('a dll_heap \<times> dll \<times> 'a option) option" where
  "doubly_linked_list_pop_tail h dl want =
     (if d_length dl = 0 then Some (h, dl, None)
      else do {
        out \<leftarrow> pop_copy h want (d_tail dl);
        (h, dl) \<leftarrow>
          (if d_length dl > 1 then do {
             n \<leftarrow> deref (cells h) (d_tail dl);
             let dl = dl\<lparr>d_tail := n_prev n\<rparr>;
             m \<leftarrow> deref (cells h) (d_tail dl);
             h \<leftarrow> free_cell h (n_next m);
             h \<leftarrow> upd_cell h (d_tail dl) (\<lambda>m. m\<lparr>n_next := None\<rparr>);
             Some (h, dl)
           } else do {
             h \<leftarrow> free_cell h (d_tail dl);
             Some (h, dl\<lparr>d_head := None, d_tail := None\<rparr>)
           });
        Some (h, dl\<lparr>d_length := d_length dl - 1\<rparr>, out)
      })"

definition doubly_linked_list_move_to_front ::
  "'a dll_heap \<Rightarrow> dll \<Rightarrow> ptr \<Rightarrow> ('a dll_heap \<times> dll) option" where
  "doubly_linked_list_move_to_front h dl node =
     (if d_head dl = node then Some (h, dl)
      else do {
        n \<leftarrow> deref (cells h) node;
        h \<leftarrow> upd_cell h (n_prev n) (\<lambda>m. m\<lparr>n_next := n_next n\<rparr>);
        n \<leftarrow> deref (cells h) node;
        h \<leftarrow> (if n_next n \<noteq> None then upd_cell h (n_next n) (\<lambda>m. m\<lparr>n_prev := n_prev n\<rparr>)
             else Some h);
        h \<leftarrow> upd_cell h node (\<lambda>n. n\<lparr>n_next := d_head dl\<rparr>);
        h \<leftarrow> upd_cell h (d_head dl) (\<lambda>m. m\<lparr>n_prev := node\<rparr>);
        h \<leftarrow> upd_cell h node (\<lambda>n. n\<lparr>n_prev := None\<rparr>);
        Some (h, dl\<lparr>d_head := node\<rparr>)
      })"

text \<open>
  The two walks of \<open>doubly_linked_list_get\<close>.  Its \<open>int\<close> index is converted to \<open>size_t\<close> in
  every comparison with \<open>dll->length\<close> and with the loop counter \<open>i\<close>.
\<close>

function get_walk_back :: "'a dll_heap \<Rightarrow> u64 \<Rightarrow> u64 \<Rightarrow> ptr \<Rightarrow> ptr option" where
  "get_walk_back h i index curr_node =
     (if i < index
      then do { n \<leftarrow> deref (cells h) curr_node; get_walk_back h (i - 1) index (n_prev n) }
      else Some curr_node)"
  by pat_completeness auto

function get_walk_forward :: "'a dll_heap \<Rightarrow> u64 \<Rightarrow> u64 \<Rightarrow> ptr \<Rightarrow> ptr option" where
  "get_walk_forward h i index curr_node =
     (if i < index
      then do { n \<leftarrow> deref (cells h) curr_node; get_walk_forward h (i + 1) index (n_next n) }
      else Some curr_node)"
  by pat_completeness auto

termination get_walk_back
proof (relation "measure (\<lambda>(h, i, index, p). if i < index then Suc (unat i) else 0)")
  fix h :: "'a dll_heap" and i index :: u64 and curr_node and n
  assume lt: "i < index"
  show "((h, i - 1, index, n_prev n), (h, i, index, curr_node)) \<in>
      measure (\<lambda>(h, i, index, p). if i < index then Suc (unat i) else 0)"
  proof (cases "i = 0")
    case True
    have "\<not> - 1 < index" using word_n1_ge [of index] by (simp add: not_less)
    with True lt show ?thesis by simp
  next
    case False
    then have "unat (i - 1) = unat i - 1" and "0 < unat i"
      by (simp_all add: unat_minus_one unat_gt_0)
    with lt show ?thesis by simp
  qed
qed simp

termination get_walk_forward
proof (relation "measure (\<lambda>(h, i, index, p). unat index - unat i)")
  fix h :: "'a dll_heap" and i index :: u64 and curr_node and n
  assume lt: "i < index"
  then have "Suc (unat i) < 2 ^ 64"
    using u64_less [of index] by (simp add: word_less_nat_alt)
  then have "unat (i + 1) = Suc (unat i)" by (simp add: unat_word_ariths)
  with lt show "((h, i + 1, index, n_next n), (h, i, index, curr_node)) \<in>
      measure (\<lambda>(h, i, index, p). unat index - unat i)"
    by (simp add: word_less_nat_alt)
qed simp

declare get_walk_back.simps [simp del] get_walk_forward.simps [simp del]

definition doubly_linked_list_get :: "'a dll_heap \<Rightarrow> dll \<Rightarrow> 32 word \<Rightarrow> ptr option" where
  "doubly_linked_list_get h dl index =
     (let idx = scast index :: u64
      in if idx \<ge> d_length dl \<or> idx \<le> - d_length dl - 1 then Some None
         else if index = 0 then Some (d_head dl)
         else if index = - 1 then Some (d_tail dl)
         else if sint index < 0 then get_walk_back h (- 1) idx (d_tail dl)
         else get_walk_forward h 0 idx (d_head dl))"

section \<open>Segments of a list on the heap\<close>

text \<open>
  \<open>dls c pv p xs l e\<close>: from the pointer \<open>p\<close> the \<open>next\<close> fields lead through the nodes \<open>xs\<close>,
  given with their data, to the pointer \<open>e\<close>; the first node's \<open>prev\<close> is \<open>pv\<close>, every other's
  is its predecessor, and \<open>l\<close> points to the last node (it is \<open>pv\<close> if there is none).
\<close>

fun dls :: "(addr \<rightharpoonup> 'a dll_node) \<Rightarrow> ptr \<Rightarrow> ptr \<Rightarrow> (addr \<times> 'a) list \<Rightarrow> ptr \<Rightarrow> ptr \<Rightarrow> bool" where
  "dls c pv p [] l e \<longleftrightarrow> p = e \<and> l = pv"
| "dls c pv p ((a, x) # xs) l e \<longleftrightarrow>
     p = Some a \<and>
     (\<exists>nx. c a = Some \<lparr>n_prev = pv, n_next = nx, n_data = x\<rparr> \<and> dls c (Some a) nx xs l e)"

lemma dls_append:
  "dls c pv p (xs @ ys) l e \<longleftrightarrow> (\<exists>m q. dls c pv p xs m q \<and> dls c m q ys l e)"
  by (induction xs arbitrary: pv p) (auto, blast+)

lemma dls_frame [simp]: "a \<notin> fst ` set xs \<Longrightarrow> dls (c(a := v)) pv p xs l e = dls c pv p xs l e"
  by (induction xs arbitrary: pv p) auto

lemma dls_dom: "dls c pv p xs l e \<Longrightarrow> a \<in> fst ` set xs \<Longrightarrow> c a \<noteq> None"
proof (induction xs arbitrary: pv p)
  case (Cons y xs)
  obtain b z where y: "y = (b, z)" by (cases y)
  from Cons.prems(1) obtain nx where nx: "c b \<noteq> None" "dls c (Some b) nx xs l e" by (auto simp: y)
  show ?case
  proof (cases "a = b")
    case False
    with Cons.prems(2) have "a \<in> fst ` set xs" by (simp add: y)
    with nx(2) show ?thesis by (rule Cons.IH)
  qed (simp add: nx(1))
qed simp

text \<open>The end of a nonempty segment.\<close>

lemma dls_snoc:
  "dls c pv p (xs @ [(a, x)]) l e \<longleftrightarrow>
     l = Some a \<and> (\<exists>m. dls c pv p xs m (Some a) \<and> c a = Some \<lparr>n_prev = m, n_next = e, n_data = x\<rparr>)"
  by (auto simp: dls_append)

text \<open>The list a header describes.\<close>

definition dll_rep :: "'a dll_heap \<Rightarrow> dll \<Rightarrow> (addr \<times> 'a) list \<Rightarrow> bool" where
  "dll_rep h dl xs \<longleftrightarrow>
     dls (cells h) None (d_head dl) xs (d_tail dl) None \<and> distinct (map fst xs) \<and>
     unat (d_length dl) = length xs \<and> (\<forall>a\<ge>brk h. cells h a = None)"

lemma dll_rep_fresh: "dll_rep h dl xs \<Longrightarrow> brk h \<notin> fst ` set xs"
  unfolding dll_rep_def using dls_dom [of "cells h" None _ xs _ _ "brk h"] by blast

lemma upd_cell_Some:
  "upd_cell h (Some a) f =
     (case cells h a of None \<Rightarrow> None | Some n \<Rightarrow> Some (h\<lparr>cells := (cells h)(a \<mapsto> f n)\<rparr>))"
  by (simp add: upd_cell_def split: option.splits)

lemma free_cell_Some:
  "free_cell h (Some a) =
     (case cells h a of None \<Rightarrow> None | Some n \<Rightarrow> Some (h\<lparr>cells := (cells h)(a := None)\<rparr>))"
  by (simp add: free_cell_def split: option.splits)

lemmas cell_simps = upd_cell_Some free_cell_Some doubly_linked_list_node_create_def

lemma dll_rep_create: "dll_rep empty_heap (doubly_linked_list_create stride) []"
  by (simp add: dll_rep_def doubly_linked_list_create_def empty_heap_def)

section \<open>Pushing and popping\<close>

lemma push_front_spec:
  assumes rep: "dll_rep h dl xs" and len: "Suc (length xs) < SIZE_MOD"
  shows "\<exists>h' dl'. doubly_linked_list_push_front h dl x = Some (h', dl', brk h) \<and>
    dll_rep h' dl' ((brk h, x) # xs) \<and> brk h' = Suc (brk h)"
proof (cases xs)
  case Nil
  with rep len show ?thesis
    by (auto simp: doubly_linked_list_push_front_def cell_simps dll_rep_def unat_Suc_word)
next
  case (Cons y ys)
  obtain a d where y: "y = (a, d)" by (cases y)
  have "a \<noteq> brk h" "brk h \<notin> fst ` set ys"
    using dll_rep_fresh [OF rep] Cons y by auto
  with rep len Cons y show ?thesis
    by (auto simp: doubly_linked_list_push_front_def cell_simps dll_rep_def unat_Suc_word)
qed

lemma push_back_spec:
  assumes rep: "dll_rep h dl xs" and len: "Suc (length xs) < SIZE_MOD"
  shows "\<exists>h' dl'. doubly_linked_list_push_back h dl x = Some (h', dl', brk h) \<and>
    dll_rep h' dl' (xs @ [(brk h, x)]) \<and> brk h' = Suc (brk h)"
proof (cases xs rule: rev_cases)
  case Nil
  with rep len show ?thesis
    by (auto simp: doubly_linked_list_push_back_def cell_simps dll_rep_def unat_Suc_word)
next
  case (snoc ys y)
  obtain a d where y: "y = (a, d)" by (cases y)
  have "a \<noteq> brk h" "brk h \<notin> fst ` set ys"
    using dll_rep_fresh [OF rep] snoc y by auto
  with rep len snoc y show ?thesis
    by (auto simp: doubly_linked_list_push_back_def cell_simps dll_rep_def unat_Suc_word dls_snoc
        dls_append)
qed

lemma pop_head_spec:
  assumes rep: "dll_rep h dl ((a, x) # xs)"
  shows "\<exists>h' dl'. doubly_linked_list_pop_head h dl True = Some (h', dl', Some x) \<and>
    dll_rep h' dl' xs \<and> brk h' = brk h"
proof -
  have len: "unat (d_length dl) = Suc (length xs)" using rep by (simp add: dll_rep_def)
  then have nz: "d_length dl \<noteq> 0" by auto
  show ?thesis
  proof (cases xs)
    case Nil
    have "d_length dl = 1" using len Nil by (metis One_nat_def list.size(3) unat_1 word_unat_eq_iff)
    with rep Nil show ?thesis
      by (auto simp: doubly_linked_list_pop_head_def pop_copy_def cell_simps dll_rep_def)
  next
    case (Cons y ys)
    obtain b d where y: "y = (b, d)" by (cases y)
    have "1 < d_length dl" using len Cons by (simp add: word_less_nat_alt)
    with rep Cons y nz show ?thesis
      by (auto simp: doubly_linked_list_pop_head_def pop_copy_def cell_simps dll_rep_def
          unat_pred_word)
  qed
qed

lemma pop_tail_spec:
  assumes rep: "dll_rep h dl (xs @ [(a, x)])"
  shows "\<exists>h' dl'. doubly_linked_list_pop_tail h dl True = Some (h', dl', Some x) \<and>
    dll_rep h' dl' xs \<and> brk h' = brk h"
proof -
  have len: "unat (d_length dl) = Suc (length xs)" using rep by (simp add: dll_rep_def)
  then have nz: "d_length dl \<noteq> 0" by auto
  show ?thesis
  proof (cases xs rule: rev_cases)
    case Nil
    have "d_length dl = 1" using len Nil by (metis One_nat_def list.size(3) unat_1 word_unat_eq_iff)
    with rep Nil show ?thesis
      by (auto simp: doubly_linked_list_pop_tail_def pop_copy_def cell_simps dll_rep_def)
  next
    case (snoc ys y)
    obtain b d where y: "y = (b, d)" by (cases y)
    have "1 < d_length dl" using len snoc by (simp add: word_less_nat_alt)
    with rep snoc y nz show ?thesis
      by (auto simp: doubly_linked_list_pop_tail_def pop_copy_def cell_simps dll_rep_def
          unat_pred_word dls_append)
  qed
qed

lemma pop_empty:
  assumes "dll_rep h dl []"
  shows "doubly_linked_list_pop_head h dl want = Some (h, dl, None)"
    and "doubly_linked_list_pop_tail h dl want = Some (h, dl, None)"
  using assms by (auto simp: dll_rep_def doubly_linked_list_pop_head_def
      doubly_linked_list_pop_tail_def unat_eq_0)

section \<open>Moving a node to the front\<close>

text \<open>Any node but the last one is moved as intended.\<close>

lemma move_to_front_spec:
  assumes rep: "dll_rep h dl (ys @ (a, x) # zs)" and inner: "ys = [] \<or> zs \<noteq> []"
  shows "\<exists>h' dl'. doubly_linked_list_move_to_front h dl (Some a) = Some (h', dl') \<and>
    dll_rep h' dl' ((a, x) # ys @ zs) \<and> brk h' = brk h"
proof (cases "ys = []")
  case True
  with rep show ?thesis by (auto simp: doubly_linked_list_move_to_front_def dll_rep_def)
next
  case False
  with inner obtain d u zs' where zs: "zs = (d, u) # zs'" by (cases zs) auto
  from False obtain ys0 c w where ys: "ys = ys0 @ [(c, w)]" by (metis rev_exhaust surj_pair)
  show ?thesis
  proof (cases ys0)
    case Nil
    with rep ys zs show ?thesis
      by (auto simp: doubly_linked_list_move_to_front_def cell_simps dll_rep_def dls_append)
  next
    case (Cons y ys1)
    obtain b v where "y = (b, v)" by (cases y)
    with rep ys zs Cons show ?thesis
      by (auto simp: doubly_linked_list_move_to_front_def cell_simps dll_rep_def dls_append)
  qed
qed

text \<open>
  Moving the last node leaves \<open>dll->tail\<close> on it although it is now the first, with a null
  \<open>prev\<close>: the next \<open>pop_tail\<close> dereferences that null pointer.
\<close>

lemma move_tail_to_front:
  assumes rep: "dll_rep h dl (ys @ [(a, x)])" and ys: "ys \<noteq> []"
  shows "\<exists>h' dl'. doubly_linked_list_move_to_front h dl (Some a) = Some (h', dl') \<and>
    dl' = dl\<lparr>d_head := Some a\<rparr> \<and> d_tail dl = Some a \<and>
    dls (cells h') None (Some a) ((a, x) # ys) (Some (fst (last ys))) None \<and>
    brk h' = brk h \<and> (\<forall>b\<ge>brk h. cells h' b = None)"
proof -
  have fresh: "brk h \<notin> fst ` set (ys @ [(a, x)])" using dll_rep_fresh [OF rep] .
  have lt: "b < brk h" if "cells h b \<noteq> None" for b
    using rep that by (auto simp: dll_rep_def not_le [symmetric])
  from ys obtain ys0 c w where ys: "ys = ys0 @ [(c, w)]" by (metis rev_exhaust surj_pair)
  show ?thesis
  proof (cases ys0)
    case Nil
    with rep ys lt show ?thesis
      by (auto simp: doubly_linked_list_move_to_front_def cell_simps dll_rep_def dls_append)
  next
    case (Cons y ys1)
    obtain b v where "y = (b, v)" by (cases y)
    with rep ys Cons lt show ?thesis
      by (auto simp: doubly_linked_list_move_to_front_def cell_simps dll_rep_def dls_append)
  qed
qed

lemma pop_tail_null:
  assumes "d_tail dl = Some a" and "1 < d_length dl" and "cells h a = Some n" and "n_prev n = None"
  shows "doubly_linked_list_pop_tail h dl want = None"
  using assms by (auto simp: doubly_linked_list_pop_tail_def pop_copy_def)

section \<open>Destruction\<close>

lemma destroy_spec:
  "dls (cells h) pv p xs l None \<Longrightarrow> distinct (map fst xs) \<Longrightarrow>
   doubly_linked_list_destroy h p =
     Some (h\<lparr>cells := (cells h) |` (- (fst ` set xs))\<rparr>)"
proof (induction xs arbitrary: h pv p)
  case Nil
  then show ?case by (simp add: doubly_linked_list_destroy.simps)
next
  case (Cons y xs)
  obtain a x where y: "y = (a, x)" by (cases y)
  with Cons.prems obtain nx where nx: "cells h a = Some \<lparr>n_prev = pv, n_next = nx, n_data = x\<rparr>"
      "dls (cells h) (Some a) nx xs l None" "p = Some a" "a \<notin> fst ` set xs" by auto
  let ?h = "h\<lparr>cells := (cells h)(a := None)\<rparr>"
  have seg: "dls (cells ?h) (Some a) nx xs l None" using nx by simp
  have dist: "distinct (map fst xs)" using Cons.prems(2) y by simp
  have IH: "doubly_linked_list_destroy ?h nx =
      Some (?h\<lparr>cells := (cells ?h) |` (- (fst ` set xs))\<rparr>)" by (rule Cons.IH [OF seg dist])
  have eq: "?h\<lparr>cells := (cells ?h) |` (- (fst ` set xs))\<rparr> =
      h\<lparr>cells := (cells h) |` (- (fst ` set (y # xs)))\<rparr>"
    by (auto simp: y restrict_map_def fun_eq_iff)
  have "doubly_linked_list_destroy h p = doubly_linked_list_destroy ?h nx"
    using nx by (subst doubly_linked_list_destroy.simps) (simp add: free_cell_Some)
  then show ?case unfolding IH eq .
qed

section \<open>Indexed access\<close>

lemma scast_u64: "unat (scast (i :: 32 word) :: u64) =
    (if sint i < 0 then nat (2 ^ 64 + sint i) else nat (sint i))"
proof -
  have r: "- (2 ^ 31) \<le> sint i" "sint i < 2 ^ 31"
    using sint_ge [of i] sint_lt [of i] by simp_all
  have "uint (scast i :: u64) = sint i mod 2 ^ 64"
    unfolding scast_eq unsigned_of_int take_bit_eq_mod by simp
  moreover have "sint i mod 2 ^ 64 = (if sint i < 0 then 2 ^ 64 + sint i else sint i)"
  proof (cases "sint i < 0")
    case True
    then have "(2 ^ 64 + sint i) mod 2 ^ 64 = 2 ^ 64 + sint i"
      using r by (intro mod_pos_pos_trivial) simp_all
    then show ?thesis using True by simp
  next
    case False
    then have "sint i mod 2 ^ 64 = sint i" using r by (intro mod_pos_pos_trivial) simp_all
    then show ?thesis using False by simp
  qed
  ultimately show ?thesis by (simp add: unat_eq_nat_uint)
qed

lemma unat_neg_minus_1: "unat (- w - 1 :: u64) = SIZE_MOD - 1 - unat w"
proof -
  have "- w - 1 = (- 1) - w" by (rule diff_eq_eq [THEN iffD2]) simp
  moreover have "unat ((- 1) - w) = unat (- 1 :: u64) - unat w"
    by (rule unat_sub) simp
  ultimately show ?thesis by (simp only: unsigned_minus_1_eq_mask mask_eq_exp_minus_1) simp
qed

lemma get_null:
  assumes "unat (d_length dl) < 2 ^ 63"
  shows "doubly_linked_list_get h dl index = Some None"
proof -
  have r: "- (2 ^ 31) \<le> sint index" "sint index < 2 ^ 31"
    using sint_ge [of index] sint_lt [of index] by simp_all
  have "d_length dl \<le> scast index \<or> scast index \<le> - d_length dl - 1"
    unfolding word_le_nat_alt scast_u64 unat_neg_minus_1 using assms r
    by (cases "sint index < 0") (simp_all, linarith+)
  then show ?thesis unfolding doubly_linked_list_get_def Let_def by presburger
qed

section \<open>The interface its clients rely on\<close>

datatype 'a deque_op = PushFront 'a | PushBack 'a | PopHead | PopTail

text \<open>The specification: a plain list and the popped values.\<close>

fun deque_spec :: "'a list \<Rightarrow> 'a deque_op list \<Rightarrow> 'a list \<times> 'a option list" where
  "deque_spec l [] = (l, [])"
| "deque_spec l (PushFront x # ops) = deque_spec (x # l) ops"
| "deque_spec l (PushBack x # ops) = deque_spec (l @ [x]) ops"
| "deque_spec l (PopHead # ops) =
     (let (l', outs) = deque_spec (tl l) ops
      in (l', (if l = [] then None else Some (hd l)) # outs))"
| "deque_spec l (PopTail # ops) =
     (let (l', outs) = deque_spec (butlast l) ops
      in (l', (if l = [] then None else Some (last l)) # outs))"

fun run_deque ::
  "('s \<Rightarrow> 'a \<Rightarrow> 's option) \<Rightarrow> ('s \<Rightarrow> 'a \<Rightarrow> 's option) \<Rightarrow>
   ('s \<Rightarrow> ('s \<times> 'a option) option) \<Rightarrow> ('s \<Rightarrow> ('s \<times> 'a option) option) \<Rightarrow>
   's \<Rightarrow> 'a deque_op list \<Rightarrow> ('s \<times> 'a option list) option" where
  "run_deque pf pb ph pt s [] = Some (s, [])"
| "run_deque pf pb ph pt s (PushFront x # ops) =
     do { s \<leftarrow> pf s x; run_deque pf pb ph pt s ops }"
| "run_deque pf pb ph pt s (PushBack x # ops) =
     do { s \<leftarrow> pb s x; run_deque pf pb ph pt s ops }"
| "run_deque pf pb ph pt s (PopHead # ops) =
     do { (s, r) \<leftarrow> ph s; (s, rs) \<leftarrow> run_deque pf pb ph pt s ops; Some (s, r # rs) }"
| "run_deque pf pb ph pt s (PopTail # ops) =
     do { (s, r) \<leftarrow> pt s; (s, rs) \<leftarrow> run_deque pf pb ph pt s ops; Some (s, r # rs) }"

locale deque =
  fixes rep :: "'s \<Rightarrow> 'a list \<Rightarrow> bool"
    and limit :: nat
    and pf pb :: "'s \<Rightarrow> 'a \<Rightarrow> 's option"
    and ph pt :: "'s \<Rightarrow> ('s \<times> 'a option) option"
  assumes pf_law: "rep s l \<Longrightarrow> Suc (length l) < limit \<Longrightarrow> \<exists>s'. pf s x = Some s' \<and> rep s' (x # l)"
    and pb_law: "rep s l \<Longrightarrow> Suc (length l) < limit \<Longrightarrow> \<exists>s'. pb s x = Some s' \<and> rep s' (l @ [x])"
    and ph_law: "rep s l \<Longrightarrow> \<exists>s'. ph s = Some (s', if l = [] then None else Some (hd l)) \<and> rep s' (tl l)"
    and pt_law: "rep s l \<Longrightarrow>
      \<exists>s'. pt s = Some (s', if l = [] then None else Some (last l)) \<and> rep s' (butlast l)"
begin

lemma run_law:
  assumes "rep s l" and "length l + length ops < limit"
  shows "\<exists>s'. run_deque pf pb ph pt s ops = Some (s', snd (deque_spec l ops)) \<and>
    rep s' (fst (deque_spec l ops))"
  using assms
proof (induction ops arbitrary: s l)
  case (Cons opn ops)
  show ?case
  proof (cases opn)
    case (PushFront x)
    with Cons.prems obtain s1 where "pf s x = Some s1" "rep s1 (x # l)" using pf_law by fastforce
    with Cons.IH [of s1 "x # l"] Cons.prems PushFront show ?thesis by simp
  next
    case (PushBack x)
    with Cons.prems obtain s1 where "pb s x = Some s1" "rep s1 (l @ [x])" using pb_law by fastforce
    with Cons.IH [of s1 "l @ [x]"] Cons.prems PushBack show ?thesis by simp
  next
    case PopHead
    from Cons.prems obtain s1 where "ph s = Some (s1, if l = [] then None else Some (hd l))"
        "rep s1 (tl l)" using ph_law by blast
    moreover from Cons.prems have "length (tl l) + length ops < limit" by simp
    ultimately show ?thesis
      using Cons.IH [of s1 "tl l"] PopHead by (auto simp: Let_def split: prod.splits)
  next
    case PopTail
    from Cons.prems obtain s1 where "pt s = Some (s1, if l = [] then None else Some (last l))"
        "rep s1 (butlast l)" using pt_law by blast
    moreover from Cons.prems have "length (butlast l) + length ops < limit" by simp
    ultimately show ?thesis
      using Cons.IH [of s1 "butlast l"] PopTail by (auto simp: Let_def split: prod.splits)
  qed
qed simp

end

text \<open>The list on the heap, as one state.\<close>

type_synonym 'a dll_state = "'a dll_heap \<times> dll"

definition dll_holds :: "'a dll_state \<Rightarrow> 'a list \<Rightarrow> bool" where
  "dll_holds s l \<longleftrightarrow> (\<exists>xs. dll_rep (fst s) (snd s) xs \<and> map snd xs = l)"

definition dll_pf :: "'a dll_state \<Rightarrow> 'a \<Rightarrow> 'a dll_state option" where
  "dll_pf s x = do { (h, dl, a) \<leftarrow> doubly_linked_list_push_front (fst s) (snd s) x; Some (h, dl) }"

definition dll_pb :: "'a dll_state \<Rightarrow> 'a \<Rightarrow> 'a dll_state option" where
  "dll_pb s x = do { (h, dl, a) \<leftarrow> doubly_linked_list_push_back (fst s) (snd s) x; Some (h, dl) }"

definition dll_ph :: "'a dll_state \<Rightarrow> ('a dll_state \<times> 'a option) option" where
  "dll_ph s = do {
     (h, dl, r) \<leftarrow> doubly_linked_list_pop_head (fst s) (snd s) True; Some ((h, dl), r) }"

definition dll_pt :: "'a dll_state \<Rightarrow> ('a dll_state \<times> 'a option) option" where
  "dll_pt s = do {
     (h, dl, r) \<leftarrow> doubly_linked_list_pop_tail (fst s) (snd s) True; Some ((h, dl), r) }"

lemmas dll_state_defs = dll_pf_def dll_pb_def dll_ph_def dll_pt_def

interpretation dq: deque dll_holds "2 ^ 64" dll_pf dll_pb dll_ph dll_pt
proof unfold_locales
  fix s :: "'a dll_state" and l x
  assume "dll_holds s l"
  then obtain xs where rep: "dll_rep (fst s) (snd s) xs" and l: "l = map snd xs"
    by (auto simp: dll_holds_def)
  show "\<exists>s'. dll_pf s x = Some s' \<and> dll_holds s' (x # l)" if "Suc (length l) < 2 ^ 64"
    using push_front_spec [OF rep, of x] that l by (fastforce simp: dll_state_defs dll_holds_def)
  show "\<exists>s'. dll_pb s x = Some s' \<and> dll_holds s' (l @ [x])" if "Suc (length l) < 2 ^ 64"
    using push_back_spec [OF rep, of x] that l by (fastforce simp: dll_state_defs dll_holds_def)
  show "\<exists>s'. dll_ph s = Some (s', if l = [] then None else Some (hd l)) \<and> dll_holds s' (tl l)"
  proof (cases xs)
    case Nil
    with rep l show ?thesis
      using pop_empty(1) by (fastforce simp: dll_state_defs dll_holds_def)
  next
    case (Cons y ys)
    obtain a d where "y = (a, d)" by (cases y)
    with rep l Cons show ?thesis
      using pop_head_spec [of "fst s" "snd s" a d ys]
      by (fastforce simp: dll_state_defs dll_holds_def)
  qed
  show "\<exists>s'. dll_pt s = Some (s', if l = [] then None else Some (last l)) \<and>
      dll_holds s' (butlast l)"
  proof (cases xs rule: rev_cases)
    case Nil
    with rep l show ?thesis
      using pop_empty(2) by (fastforce simp: dll_state_defs dll_holds_def)
  next
    case (snoc ys y)
    obtain a d where "y = (a, d)" by (cases y)
    with rep l snoc show ?thesis
      using pop_tail_spec [of "fst s" "snd s" ys a d]
      by (fastforce simp: dll_state_defs dll_holds_def)
  qed
qed

section \<open>Properties\<close>

text \<open>
  C36. Any sequence of pushes and pops at both ends of a new list runs without a null or
  dangling access, returns at every pop the element a plain list would (and nothing when
  empty), and leaves a well-linked list with the expected elements.
\<close>

theorem dll_run_refines:
  assumes "length ops < 2 ^ 64"
  shows "\<exists>s'. run_deque dll_pf dll_pb dll_ph dll_pt (empty_heap, doubly_linked_list_create stride) ops =
      Some (s', snd (deque_spec [] ops)) \<and> dll_holds s' (fst (deque_spec [] ops))"
  using dq.run_law [of "(empty_heap, doubly_linked_list_create stride)" "[]" ops] assms
  by (simp add: dll_holds_def dll_rep_create)

theorem dll_run_refines_witness:
  "\<exists>s'. run_deque dll_pf dll_pb dll_ph dll_pt (empty_heap, doubly_linked_list_create 8)
      [PushFront (1::nat), PushBack 2, PopHead, PopTail, PopTail] =
      Some (s', [Some 1, Some 2, None]) \<and> dll_holds s' []"
  using dll_run_refines [of "[PushFront (1::nat), PushBack 2, PopHead, PopTail, PopTail]" 8] by simp

text \<open>
  \<open>doubly_linked_list_move_to_front\<close> works on the head and on inner nodes: the node
  becomes the first, the order of the others is kept and the list stays well linked.
\<close>

theorem dll_move_to_front_inner:
  assumes "dll_rep h dl (ys @ (a, x) # zs)" and "ys = [] \<or> zs \<noteq> []"
  shows "\<exists>h' dl'. doubly_linked_list_move_to_front h dl (Some a) = Some (h', dl') \<and>
    dll_rep h' dl' ((a, x) # ys @ zs)"
  using move_to_front_spec [OF assms] by blast

abbreviation heap3 :: "nat dll_heap" where
  "heap3 \<equiv> \<lparr>cells = [0 \<mapsto> \<lparr>n_prev = None, n_next = Some 1, n_data = 10\<rparr>,
     1 \<mapsto> \<lparr>n_prev = Some 0, n_next = Some 2, n_data = 20\<rparr>,
     2 \<mapsto> \<lparr>n_prev = Some 1, n_next = None, n_data = 30\<rparr>], brk = 3\<rparr>"

abbreviation list3 :: dll where
  "list3 \<equiv> \<lparr>d_length = 3, d_stride = 8, d_head = Some 0, d_tail = Some 2\<rparr>"

lemma list3_rep: "dll_rep heap3 list3 [(0, 10), (1, 20), (2, 30)]"
  by (simp add: dll_rep_def)

theorem dll_move_to_front_inner_witness:
  "\<exists>h' dl'. doubly_linked_list_move_to_front heap3 list3 (Some 1) = Some (h', dl') \<and>
    dll_rep h' dl' [(1, 20), (0, 10), (2, 30)]"
  using dll_move_to_front_inner [of heap3 list3 "[(0, 10)]" 1 20 "[(2, 30)]"] list3_rep by simp

text \<open>
  On the last of two or more nodes it does not: \<open>dll->tail\<close> keeps pointing at the moved
  node, and the next \<open>doubly_linked_list_pop_tail\<close> dereferences a null pointer.
\<close>

theorem dll_move_tail_then_pop_faults:
  assumes "dll_rep h dl (ys @ [(a, x)])" and "ys \<noteq> []"
  shows "\<exists>h' dl'. doubly_linked_list_move_to_front h dl (Some a) = Some (h', dl') \<and>
    d_tail dl' = Some a \<and> doubly_linked_list_pop_tail h' dl' want = None"
proof -
  have "1 < d_length dl"
    using assms by (cases ys) (simp_all add: dll_rep_def word_less_nat_alt)
  moreover obtain h' where "doubly_linked_list_move_to_front h dl (Some a) =
      Some (h', dl\<lparr>d_head := Some a\<rparr>)" "d_tail dl = Some a"
    "dls (cells h') None (Some a) ((a, x) # ys) (Some (fst (last ys))) None"
    using move_tail_to_front [OF assms] by blast
  ultimately show ?thesis
    using pop_tail_null [of "dl\<lparr>d_head := Some a\<rparr>" a h'] by auto
qed

theorem dll_move_tail_then_pop_faults_witness:
  "\<exists>h' dl'. doubly_linked_list_move_to_front heap3 list3 (Some 2) = Some (h', dl') \<and>
    d_tail dl' = Some 2 \<and> doubly_linked_list_pop_tail h' dl' True = None"
  using dll_move_tail_then_pop_faults [of heap3 list3 "[(0, 10), (1, 20)]" 2 30 True] list3_rep
  by simp

text \<open>
  \<open>doubly_linked_list_get\<close> never returns an element: its bounds test, done in unsigned
  arithmetic, rejects every index of every list shorter than \<open>2 ^ 63\<close>, valid indices included.
\<close>

theorem dll_get_always_null:
  assumes "dll_rep h dl xs" and "length xs < 2 ^ 63"
  shows "doubly_linked_list_get h dl index = Some None"
  by (rule get_null) (use assms in \<open>simp add: dll_rep_def\<close>)

theorem dll_get_always_null_witness:
  "doubly_linked_list_get heap3 list3 0 = Some None"
  using dll_get_always_null [OF list3_rep] by simp

text \<open>
  \<open>doubly_linked_list_destroy\<close> terminates on every well-linked list and frees each of its
  nodes exactly once and nothing else.
\<close>

theorem dll_destroy_frees_all:
  assumes "dll_rep h dl xs"
  shows "\<exists>h'. doubly_linked_list_destroy h (d_head dl) = Some h' \<and>
    (\<forall>a. cells h' a = (if a \<in> fst ` set xs then None else cells h a))"
  using destroy_spec [of h None "d_head dl" xs "d_tail dl"] assms
  by (simp add: dll_rep_def restrict_map_def)

theorem dll_destroy_frees_all_witness:
  "\<exists>h'. doubly_linked_list_destroy heap3 (d_head list3) = Some h' \<and>
    (\<forall>a. cells h' a = (if a \<in> {0, 1, 2} then None else cells heap3 a))"
  using dll_destroy_frees_all [OF list3_rep] by simp

end
