(* ===== verification/LruCache.thy ===== *)
theory LruCache
  imports Dll Hashmap
begin

text \<open>
  The least-recently-used cache of \<open>core/containers/LRU_cache.c\<close>: a doubly linked list of
  entries, most recently used first, and a hash table from keys to list nodes.  The cached
  value is of type \<open>'v\<close>; calls of the eviction handler are returned as results.
\<close>

section \<open>Data and operations\<close>

record 'v dll_entry =
  en_key :: bytes
  en_data :: 'v

record 'v LRU_cache =
  lc_size :: nat
  lc_stride :: u64
  lc_heap :: "'v dll_entry dll_heap"
  lc_dll :: dll
  lc_hmap :: "addr hashmap"

text \<open>\<open>sizeof (dll_entry)\<close> and \<open>sizeof (doubly_linked_list_node *)\<close>.\<close>

definition LRU_cache_create :: "nat \<Rightarrow> u64 \<Rightarrow> 'v LRU_cache option" where
  "LRU_cache_create sz stride = do {
     hm \<leftarrow> hashmap_create (of_nat sz) double_67 8 None;
     Some \<lparr>lc_size = sz, lc_stride = stride, lc_heap = empty_heap,
       lc_dll = doubly_linked_list_create (8 + unat stride), lc_hmap = hm\<rparr>
   }"

text \<open>Destruction: the heap left behind and the keys the table releases.\<close>

definition LRU_cache_destroy :: "'v LRU_cache \<Rightarrow> ('v dll_entry dll_heap \<times> bytes option list) option"
where
  "LRU_cache_destroy cache = do {
     h \<leftarrow> doubly_linked_list_destroy (lc_heap cache) (d_head (lc_dll cache));
     ks \<leftarrow> hashmap_destroy (lc_hmap cache);
     Some (h, ks)
   }"

definition LRU_cache_get :: "'v LRU_cache \<Rightarrow> bytes \<Rightarrow> ('v LRU_cache \<times> 'v option) option" where
  "LRU_cache_get cache label = do {
     slot \<leftarrow> hashmap_get (lc_hmap cache) label;
     (case slot of
        None \<Rightarrow> Some (cache, None)
      | Some s \<Rightarrow> do {
          item \<leftarrow> e_data (hm_entries (lc_hmap cache) ! s);
          (h, dl) \<leftarrow> doubly_linked_list_move_to_front (lc_heap cache) (lc_dll cache) (Some item);
          n \<leftarrow> deref (cells h) (Some item);
          Some (cache\<lparr>lc_heap := h, lc_dll := dl\<rparr>, Some (en_data (n_data n)))
        })
   }"

text \<open>The second result is the value handed to the eviction handler, if it is called.\<close>

definition LRU_cache_add ::
  "'v LRU_cache \<Rightarrow> bytes \<Rightarrow> 'v \<Rightarrow> ('v LRU_cache \<times> 'v option) option" where
  "LRU_cache_add cache label item = do {
     in_use \<leftarrow> hashmap_get (lc_hmap cache) label;
     (h, dl, node) \<leftarrow> doubly_linked_list_push_front (lc_heap cache) (lc_dll cache)
       \<lparr>en_key = label, en_data = item\<rparr>;
     (h, dl, hm, evicted) \<leftarrow>
       (if lc_size cache < unat (d_length dl) then do {
          (h, dl, popped) \<leftarrow> doubly_linked_list_pop_tail h dl True;
          e \<leftarrow> popped;
          (hm, deleted) \<leftarrow> hashmap_delete (lc_hmap cache) (en_key e);
          Some (h, dl, hm, Some (en_data e))
        } else Some (h, dl, lc_hmap cache, None));
     (hm, stored) \<leftarrow> hashmap_set hm label node;
     Some (cache\<lparr>lc_heap := h, lc_dll := dl, lc_hmap := hm\<rparr>, evicted)
   }"

section \<open>The cache as a list of pairs\<close>

text \<open>The nodes of the cache, most recently used first, and the table that indexes them.\<close>

definition lru_inv :: "'v LRU_cache \<Rightarrow> (addr \<times> 'v dll_entry) list \<Rightarrow> bool" where
  "lru_inv cache xs \<longleftrightarrow>
     dll_rep (lc_heap cache) (lc_dll cache) xs \<and> hm_inv (lc_hmap cache) \<and>
     distinct (map (\<lambda>(a, e). en_key e) xs) \<and>
     hm_map (lc_hmap cache) = map_of (map (\<lambda>(a, e). (en_key e, a)) xs) \<and>
     length xs \<le> lc_size cache \<and> 0 < lc_size cache \<and> Suc (lc_size cache) < SIZE_MOD"

definition pairs :: "(addr \<times> 'v dll_entry) list \<Rightarrow> (bytes \<times> 'v) list" where
  "pairs xs = map (\<lambda>(a, e). (en_key e, en_data e)) xs"

lemma pairs_simps [simp]:
  "pairs [] = []"
  "pairs ((a, e) # xs) = (en_key e, en_data e) # pairs xs"
  "pairs (xs @ ys) = pairs xs @ pairs ys"
  "length (pairs xs) = length xs"
  by (simp_all add: pairs_def)

lemma fst_pairs: "map fst (pairs xs) = map (\<lambda>(a, e). en_key e) xs"
  by (simp add: pairs_def split_def)

lemma pairs_keys_mono: "set ys \<subseteq> set xs \<Longrightarrow> fst ` set (pairs ys) \<subseteq> fst ` set (pairs xs)"
  unfolding pairs_def set_map by (intro image_mono)

lemma keys_pairs: "(\<lambda>(a, e). en_key e) ` set xs = fst ` set (pairs xs)"
  by (metis fst_pairs list.set_map)

text \<open>The node that carries a key.\<close>

lemma node_of_key:
  assumes "distinct (map (\<lambda>(a, e). en_key e) (ys @ (a, e) # zs))"
  shows "map_of (map (\<lambda>(a, e). (en_key e, a)) (ys @ (a, e) # zs)) (en_key e) = Some a"
  using assms by (intro map_of_is_SomeI) (auto simp: split_def comp_def)

lemma key_cases:
  assumes "map_of (map (\<lambda>(a, e). (en_key e, a)) xs) k = Some b"
  obtains ys e zs where "xs = ys @ (b, e) # zs" "en_key e = k"
proof -
  from assms have "(k, b) \<in> set (map (\<lambda>(a, e). (en_key e, a)) xs)" by (rule map_of_SomeD)
  then obtain e where "(b, e) \<in> set xs" and k: "en_key e = k" by auto
  then obtain ys zs where "xs = ys @ (b, e) # zs" by (meson split_list)
  then show thesis using k that by blast
qed

lemma key_none:
  "map_of (map (\<lambda>(a, e). (en_key e, a)) xs) k = None \<longleftrightarrow> k \<notin> fst ` set (pairs xs)"
  by (auto simp: map_of_eq_None_iff pairs_def image_image split_def)

section \<open>Single operations\<close>

lemma lru_get_miss:
  assumes "lru_inv c xs" and "k \<notin> fst ` set (pairs xs)"
  shows "LRU_cache_get c k = Some (c, None)"
proof -
  have "hm_map (lc_hmap c) k = None" using assms key_none [of xs k] by (simp add: lru_inv_def)
  with assms(1) show ?thesis by (simp add: LRU_cache_get_def lru_inv_def hashmap_get_None)
qed

lemma lru_slot:
  assumes "lru_inv c (ys @ (a, e) # zs)"
  shows "\<exists>s. hashmap_get (lc_hmap c) (en_key e) = Some (Some s) \<and>
    e_data (hm_entries (lc_hmap c) ! s) = Some a"
  using assms node_of_key [of ys a e zs]
  by (intro hashmap_get_Some) (simp_all add: lru_inv_def del: map_append)

lemma map_of_keys_permute:
  assumes "distinct (map (\<lambda>(a, e). en_key e) (ys @ x # zs))"
  shows "map_of (map (\<lambda>(a, e). (en_key e, a)) (ys @ x # zs)) =
    map_of (map (\<lambda>(a, e). (en_key e, a)) (x # ys @ zs))"
proof (rule map_of_inject_set [THEN iffD2])
  show "distinct (map fst (map (\<lambda>(a, e). (en_key e, a)) (ys @ x # zs)))"
    using assms by (simp add: comp_def split_def)
  show "distinct (map fst (map (\<lambda>(a, e). (en_key e, a)) (x # ys @ zs)))"
    using assms by (auto simp: comp_def split_def)
qed auto

lemma lru_get_hit:
  assumes inv: "lru_inv c (ys @ (a, e) # zs)" and inner: "ys = [] \<or> zs \<noteq> []"
  shows "\<exists>c'. LRU_cache_get c (en_key e) = Some (c', Some (en_data e)) \<and>
    lru_inv c' ((a, e) # ys @ zs) \<and> lc_hmap c' = lc_hmap c \<and> lc_size c' = lc_size c"
proof -
  obtain s where s: "hashmap_get (lc_hmap c) (en_key e) = Some (Some s)"
    "e_data (hm_entries (lc_hmap c) ! s) = Some a" using lru_slot [OF inv] by blast
  have rep: "dll_rep (lc_heap c) (lc_dll c) (ys @ (a, e) # zs)" using inv by (simp add: lru_inv_def)
  obtain h dl where mv: "doubly_linked_list_move_to_front (lc_heap c) (lc_dll c) (Some a) = Some (h, dl)"
    "dll_rep h dl ((a, e) # ys @ zs)" using move_to_front_spec [OF rep inner] by blast
  then have "\<exists>n. cells h a = Some n \<and> n_data n = e" by (auto simp: dll_rep_def)
  moreover have "lru_inv (c\<lparr>lc_heap := h, lc_dll := dl\<rparr>) ((a, e) # ys @ zs)"
    using inv mv(2) map_of_keys_permute [of ys "(a, e)" zs] by (auto simp: lru_inv_def)
  ultimately show ?thesis using s mv by (auto simp: LRU_cache_get_def)
qed

text \<open>What the insertion of a new key does to the nodes, and what it evicts.\<close>

definition add_nodes :: "nat \<Rightarrow> (addr \<times> 'v) list \<Rightarrow> addr \<times> 'v \<Rightarrow> (addr \<times> 'v) list" where
  "add_nodes n xs x = (if length xs < n then x # xs else x # butlast xs)"

definition add_evicts :: "nat \<Rightarrow> (addr \<times> 'v dll_entry) list \<Rightarrow> 'v option" where
  "add_evicts n xs = (if length xs < n then None else Some (en_data (snd (last xs))))"

text \<open>The list part of an insertion, and the table after the eviction.\<close>

lemma lru_add_list:
  fixes v :: 'v
  assumes inv: "lru_inv c xs" and fresh: "k \<notin> fst ` set (pairs xs)"
  defines "x \<equiv> (brk (lc_heap c), \<lparr>en_key = k, en_data = v\<rparr>)"
  shows "\<exists>h dl hm. dll_rep h dl (add_nodes (lc_size c) xs x) \<and> hm_inv hm \<and>
    hm_unused hm = hm_unused (lc_hmap c) \<and>
    hm_map hm = map_of (map (\<lambda>(a, e). (en_key e, a)) (tl (add_nodes (lc_size c) xs x))) \<and>
    LRU_cache_add c k v = do {
      (hm, stored) \<leftarrow> hashmap_set hm k (brk (lc_heap c));
      Some (c\<lparr>lc_heap := h, lc_dll := dl, lc_hmap := hm\<rparr>, add_evicts (lc_size c) xs)
    }"
proof -
  let ?e = "\<lparr>en_key = k, en_data = v\<rparr>"
  note inv' = inv [unfolded lru_inv_def]
  from inv' have len: "Suc (length xs) < SIZE_MOD" by simp
  obtain h dl where push: "doubly_linked_list_push_front (lc_heap c) (lc_dll c) ?e =
      Some (h, dl, brk (lc_heap c))" "dll_rep h dl (x # xs)"
    using push_front_spec [of "lc_heap c" "lc_dll c" xs ?e] inv' len unfolding x_def by blast
  have get: "hashmap_get (lc_hmap c) k = Some None"
    using inv' fresh key_none [of xs k] by (simp add: hashmap_get_None)
  have dlen: "unat (d_length dl) = Suc (length xs)" using push(2) by (simp add: dll_rep_def)
  show ?thesis
  proof (cases "length xs < lc_size c")
    case True
    with push get dlen inv' show ?thesis
      by (intro exI [of _ h] exI [of _ dl] exI [of _ "lc_hmap c"])
        (simp add: LRU_cache_add_def add_nodes_def add_evicts_def)
  next
    case False
    with inv' have "xs \<noteq> []" by auto
    then obtain ys a e where xs: "xs = ys @ [(a, e)]" by (metis rev_exhaust surj_pair)
    obtain h' dl' where pop: "doubly_linked_list_pop_tail h dl True = Some (h', dl', Some e)"
      "dll_rep h' dl' (x # ys)"
      using pop_tail_spec [of h dl "x # ys" a e] push(2) xs by auto
    obtain hm' where del: "hashmap_delete (lc_hmap c) (en_key e) = Some (hm', True)" "hm_inv hm'"
      "hm_map hm' = (hm_map (lc_hmap c))(en_key e := None)" "hm_unused hm' = hm_unused (lc_hmap c)"
      using hm.del_law [of "lc_hmap c" "en_key e"] inv' xs node_of_key [of ys a e "[]"] by auto
    have "hm_map hm' = map_of (map (\<lambda>(a, e). (en_key e, a)) ys)"
    proof
      fix q
      have "map_of (map (\<lambda>(a, e). (en_key e, a)) ys) (en_key e) = None"
        unfolding key_none fst_pairs [symmetric] using inv' xs
        by (simp flip: fst_pairs add: fst_pairs [symmetric])
      then show "hm_map hm' q = map_of (map (\<lambda>(a, e). (en_key e, a)) ys) q"
        using inv' xs del(3) by (auto simp: map_add_def split: option.splits)
    qed
    with push get dlen pop del False xs show ?thesis
      by (intro exI [of _ h'] exI [of _ dl'] exI [of _ hm'])
        (simp add: LRU_cache_add_def add_nodes_def add_evicts_def)
  qed
qed

lemma set_add_nodes: "set (add_nodes n xs x) \<subseteq> insert x (set xs)"
  by (auto simp: add_nodes_def dest: in_set_butlastD)

lemma hd_add_nodes [simp]: "hd (add_nodes n xs x) = x" "add_nodes n xs x \<noteq> []"
  by (simp_all add: add_nodes_def)

lemma lru_add_fresh:
  assumes inv: "lru_inv c xs" and fresh: "k \<notin> fst ` set (pairs xs)" and room: "0 < hm_unused (lc_hmap c)"
  shows "\<exists>c'. LRU_cache_add c k v = Some (c', add_evicts (lc_size c) xs) \<and>
    lru_inv c' (add_nodes (lc_size c) xs (brk (lc_heap c), \<lparr>en_key = k, en_data = v\<rparr>)) \<and>
    hm_unused (lc_hmap c') = hm_unused (lc_hmap c) - 1 \<and> lc_size c' = lc_size c"
proof -
  let ?a = "brk (lc_heap c)"
  let ?x = "(?a, \<lparr>en_key = k, en_data = v\<rparr>)"
  let ?xs = "add_nodes (lc_size c) xs ?x"
  note inv' = inv [unfolded lru_inv_def]
  obtain h dl hm where *: "dll_rep h dl ?xs" "hm_inv hm" "hm_unused hm = hm_unused (lc_hmap c)"
    "hm_map hm = map_of (map (\<lambda>(a, e). (en_key e, a)) (tl ?xs))"
    "LRU_cache_add c k v = do {
      (hm, stored) \<leftarrow> hashmap_set hm k ?a;
      Some (c\<lparr>lc_heap := h, lc_dll := dl, lc_hmap := hm\<rparr>, add_evicts (lc_size c) xs)
    }" using lru_add_list [OF inv fresh, of v] by blast
  have tl: "set (tl ?xs) \<subseteq> set xs" by (auto simp: add_nodes_def dest: in_set_butlastD)
  then have "k \<notin> fst ` set (pairs (tl ?xs))" using fresh pairs_keys_mono by blast
  then have none: "hm_map hm k = None" unfolding *(4) key_none .
  obtain hm' where set: "hashmap_set hm k ?a = Some (hm', True)" "hm_inv hm'"
    "hm_map hm' = (hm_map hm)(k \<mapsto> ?a)" "hm_unused hm' = hm_unused hm - 1"
    using hm.set_new [OF *(2) none, of ?a] room *(3) by auto
  have split: "?xs = ?x # tl ?xs" by (metis hd_add_nodes list.collapse)
  have "distinct (map (\<lambda>(a, e). en_key e) (tl ?xs))"
    using inv' by (auto simp: add_nodes_def map_butlast distinct_butlast)
  then have "distinct (map (\<lambda>(a, e). en_key e) ?xs)"
    using \<open>k \<notin> fst ` set (pairs (tl ?xs))\<close> by (subst split) (simp add: keys_pairs)
  moreover have "hm_map hm' = map_of (map (\<lambda>(a, e). (en_key e, a)) ?xs)"
    unfolding set(3) *(4) by (subst (2) split) simp
  moreover have "length ?xs \<le> lc_size c" using inv' by (auto simp: add_nodes_def)
  ultimately have "lru_inv (c\<lparr>lc_heap := h, lc_dll := dl, lc_hmap := hm'\<rparr>) ?xs"
    using *(1) set(2) inv' by (simp add: lru_inv_def)
  with set *(3,5) show ?thesis by auto
qed

text \<open>When every slot of the table has been used, the new entry cannot be found again.\<close>

lemma lru_add_full:
  assumes inv: "lru_inv c xs" and fresh: "k \<notin> fst ` set (pairs xs)" and full: "hm_unused (lc_hmap c) = 0"
  shows "\<exists>c'. LRU_cache_add c k v = Some (c', add_evicts (lc_size c) xs) \<and>
    LRU_cache_get c' k = Some (c', None)"
proof -
  let ?a = "brk (lc_heap c)"
  let ?xs = "add_nodes (lc_size c) xs (?a, \<lparr>en_key = k, en_data = v\<rparr>)"
  obtain h dl hm where *: "dll_rep h dl ?xs" "hm_inv hm" "hm_unused hm = hm_unused (lc_hmap c)"
    "hm_map hm = map_of (map (\<lambda>(a, e). (en_key e, a)) (tl ?xs))"
    "LRU_cache_add c k v = do {
      (hm, stored) \<leftarrow> hashmap_set hm k ?a;
      Some (c\<lparr>lc_heap := h, lc_dll := dl, lc_hmap := hm\<rparr>, add_evicts (lc_size c) xs)
    }" using lru_add_list [OF inv fresh, of v] by blast
  have "set (tl ?xs) \<subseteq> set xs" by (auto simp: add_nodes_def dest: in_set_butlastD)
  then have "k \<notin> fst ` set (pairs (tl ?xs))" using fresh pairs_keys_mono by blast
  then have none: "hm_map hm k = None" unfolding *(4) key_none .
  then show ?thesis
    using hm.set_full [OF *(2) none] full * by (simp add: LRU_cache_get_def hashmap_get_None)
qed

section \<open>Runs\<close>

datatype 'v lru_op = Get bytes | Add bytes 'v

fun lru_run :: "'v LRU_cache \<Rightarrow> 'v lru_op list \<Rightarrow> ('v LRU_cache \<times> 'v option list) option" where
  "lru_run c [] = Some (c, [])"
| "lru_run c (Get k # ops) =
     do { (c, r) \<leftarrow> LRU_cache_get c k; (c, rs) \<leftarrow> lru_run c ops; Some (c, r # rs) }"
| "lru_run c (Add k v # ops) =
     do { (c, r) \<leftarrow> LRU_cache_add c k v; (c, rs) \<leftarrow> lru_run c ops; Some (c, r # rs) }"

text \<open>The specification: the pairs, most recently used first, at most \<open>n\<close> of them.\<close>

fun lru_spec :: "nat \<Rightarrow> (bytes \<times> 'v) list \<Rightarrow> 'v lru_op list \<Rightarrow> (bytes \<times> 'v) list \<times> 'v option list"
where
  "lru_spec n l [] = (l, [])"
| "lru_spec n l (Get k # ops) =
     (case map_of l k of
        None \<Rightarrow> let (l', rs) = lru_spec n l ops in (l', None # rs)
      | Some v \<Rightarrow> let (l', rs) = lru_spec n ((k, v) # filter (\<lambda>p. fst p \<noteq> k) l) ops
                  in (l', Some v # rs))"
| "lru_spec n l (Add k v # ops) =
     (let (l', rs) = lru_spec n ((k, v) # take (n - 1) l) ops
      in (l', (if length l < n then None else Some (snd (last l))) # rs))"

text \<open>Runs that add only new keys and never ask for the last of several entries.\<close>

fun lru_safe :: "nat \<Rightarrow> (bytes \<times> 'v) list \<Rightarrow> 'v lru_op list \<Rightarrow> bool" where
  "lru_safe n l [] = True"
| "lru_safe n l (Get k # ops) =
     (case map_of l k of
        None \<Rightarrow> lru_safe n l ops
      | Some v \<Rightarrow> (fst (last l) = k \<longrightarrow> length l = 1) \<and>
          lru_safe n ((k, v) # filter (\<lambda>p. fst p \<noteq> k) l) ops)"
| "lru_safe n l (Add k v # ops) =
     (k \<notin> fst ` set l \<and> lru_safe n ((k, v) # take (n - 1) l) ops)"

fun adds :: "'v lru_op list \<Rightarrow> nat" where
  "adds [] = 0"
| "adds (Get k # ops) = adds ops"
| "adds (Add k v # ops) = Suc (adds ops)"

lemma pairs_map_of:
  assumes "distinct (map fst (pairs xs))" and "map_of (pairs xs) k = Some v"
  obtains ys a e zs where "xs = ys @ (a, e) # zs" "en_key e = k" "en_data e = v"
    "filter (\<lambda>p. fst p \<noteq> k) (pairs xs) = pairs (ys @ zs)"
proof -
  from assms(2) have "(k, v) \<in> set (pairs xs)" by (rule map_of_SomeD)
  then obtain a e where "(a, e) \<in> set xs" and e: "en_key e = k" "en_data e = v"
    by (auto simp: pairs_def)
  then obtain ys zs where xs: "xs = ys @ (a, e) # zs" by (meson split_list)
  moreover have "filter (\<lambda>p. fst p \<noteq> k) (pairs xs) = pairs (ys @ zs)"
  proof -
    have "k \<notin> fst ` set (pairs ys)" "k \<notin> fst ` set (pairs zs)"
      using assms(1) e unfolding xs by auto
    then have "filter (\<lambda>p. fst p \<noteq> k) (pairs ys) = pairs ys"
      "filter (\<lambda>p. fst p \<noteq> k) (pairs zs) = pairs zs"
      by (auto simp: filter_id_conv)
    with e xs show ?thesis by simp
  qed
  ultimately show thesis using that e by blast
qed

lemma pairs_last: "xs \<noteq> [] \<Longrightarrow> last (pairs xs) = (en_key (snd (last xs)), en_data (snd (last xs)))"
  by (simp add: pairs_def last_map split_def)

lemma pairs_add_nodes:
  assumes "length xs \<le> n" "0 < n"
  shows "pairs (add_nodes n xs (a, e)) = (en_key e, en_data e) # take (n - 1) (pairs xs)"
proof (cases "length xs < n")
  case False
  with assms have "n = length xs" by simp
  then show ?thesis using False by (simp add: add_nodes_def pairs_def map_butlast butlast_conv_take take_map)
qed (simp add: add_nodes_def)

lemma lru_run_law:
  assumes "lru_inv c xs" and "lru_safe (lc_size c) (pairs xs) ops" and "adds ops \<le> hm_unused (lc_hmap c)"
  shows "\<exists>c' xs'. lru_run c ops = Some (c', snd (lru_spec (lc_size c) (pairs xs) ops)) \<and>
    lru_inv c' xs' \<and> pairs xs' = fst (lru_spec (lc_size c) (pairs xs) ops) \<and>
    hm_unused (lc_hmap c') = hm_unused (lc_hmap c) - adds ops \<and> lc_size c' = lc_size c"
  using assms
proof (induction ops arbitrary: c xs)
  case Nil
  then show ?case by auto
next
  case (Cons opn ops)
  note inv = Cons.prems(1)
  show ?case
  proof (cases opn)
    case (Get k)
    show ?thesis
    proof (cases "map_of (pairs xs) k")
      case None
      then have "k \<notin> fst ` set (pairs xs)" by (simp add: map_of_eq_None_iff)
      with Cons None Get lru_get_miss [OF inv] show ?thesis by (fastforce split: prod.splits)
    next
      case (Some v)
      have "distinct (map fst (pairs xs))" using inv by (simp add: lru_inv_def fst_pairs)
      from pairs_map_of [OF this Some] obtain ys a e zs where xs: "xs = ys @ (a, e) # zs"
        and e: "en_key e = k" "en_data e = v"
        and f: "filter (\<lambda>p. fst p \<noteq> k) (pairs xs) = pairs (ys @ zs)" by blast
      have "ys = [] \<or> zs \<noteq> []"
        using Cons.prems(2) Get Some xs e by (cases "zs = []") (auto simp: pairs_last)
      from lru_get_hit [OF inv [unfolded xs] this] obtain c1 where
        c1: "LRU_cache_get c k = Some (c1, Some v)" "lru_inv c1 ((a, e) # ys @ zs)"
        "lc_hmap c1 = lc_hmap c" "lc_size c1 = lc_size c" using e by auto
      have eq: "pairs ((a, e) # ys @ zs) = (k, v) # filter (\<lambda>p. fst p \<noteq> k) (pairs xs)"
        unfolding f using e by simp
      from Cons.IH [OF c1(2)] Cons.prems Get Some c1 show ?thesis
        unfolding eq by (fastforce split: prod.splits)
    qed
  next
    case (Add k v)
    then have fresh: "k \<notin> fst ` set (pairs xs)" and room: "0 < hm_unused (lc_hmap c)"
      using Cons.prems by auto
    let ?xs = "add_nodes (lc_size c) xs (brk (lc_heap c), \<lparr>en_key = k, en_data = v\<rparr>)"
    obtain c1 where c1: "LRU_cache_add c k v = Some (c1, add_evicts (lc_size c) xs)" "lru_inv c1 ?xs"
      "hm_unused (lc_hmap c1) = hm_unused (lc_hmap c) - 1" "lc_size c1 = lc_size c"
      using lru_add_fresh [OF inv fresh room, of v] by blast
    have eq: "pairs ?xs = (k, v) # take (lc_size c - 1) (pairs xs)"
      using inv by (simp add: pairs_add_nodes lru_inv_def)
    have ev: "add_evicts (lc_size c) xs =
        (if length (pairs xs) < lc_size c then None else Some (snd (last (pairs xs))))"
      using inv by (cases "xs = []") (auto simp: add_evicts_def lru_inv_def pairs_last)
    from Cons.IH [OF c1(2)] Cons.prems Add c1 show ?thesis
      unfolding eq ev by (fastforce split: prod.splits)
  qed
qed

section \<open>Use without evictions\<close>

text \<open>
  As long as nothing is evicted the tail pointer of the list is not read, so the cache works
  as a finite map whatever the tail pointer is, looking up the last entry included.
\<close>

definition set_tail :: "'v LRU_cache \<Rightarrow> ptr \<Rightarrow> 'v LRU_cache" where
  "set_tail c t = c\<lparr>lc_dll := (lc_dll c)\<lparr>d_tail := t\<rparr>\<rparr>"

lemma set_tail_sel [simp]:
  "lc_size (set_tail c t) = lc_size c" "lc_hmap (set_tail c t) = lc_hmap c"
  "lc_heap (set_tail c t) = lc_heap c" "set_tail (set_tail c t) u = set_tail c u"
  "lc_dll (set_tail c t) = (lc_dll c)\<lparr>d_tail := t\<rparr>"
  by (simp_all add: set_tail_def)

lemma set_tail_same: "set_tail c (d_tail (lc_dll c)) = c"
  by (simp add: set_tail_def)

definition lru_holds :: "'v LRU_cache \<Rightarrow> (bytes \<rightharpoonup> 'v) \<Rightarrow> bool" where
  "lru_holds c m \<longleftrightarrow> (\<exists>xs t. lru_inv (set_tail c t) xs \<and> map_of (pairs xs) = m)"

lemma lru_inv_holds: "lru_inv c xs \<Longrightarrow> lru_holds c (map_of (pairs xs))"
  unfolding lru_holds_def by (metis set_tail_same)

lemma move_to_front_tail:
  "doubly_linked_list_move_to_front h (dl\<lparr>d_tail := t\<rparr>) p =
     map_option (\<lambda>(h, dl). (h, dl\<lparr>d_tail := t\<rparr>)) (doubly_linked_list_move_to_front h dl p)"
  unfolding doubly_linked_list_move_to_front_def
  by (auto split: Option.bind_split)

lemma lru_get_tail:
  "LRU_cache_get (set_tail c t) k = map_option (\<lambda>(c, r). (set_tail c t, r)) (LRU_cache_get c k)"
  by (auto simp: LRU_cache_get_def move_to_front_tail set_tail_def split: Option.bind_split option.split)

lemma lru_add_tail:
  assumes "d_head (lc_dll c) \<noteq> None" and "\<not> lc_size c < unat (d_length (lc_dll c) + 1)"
  shows "LRU_cache_add (set_tail c t) k v = map_option (\<lambda>(c, r). (set_tail c t, r)) (LRU_cache_add c k v)"
  using assms
  by (auto simp: LRU_cache_add_def doubly_linked_list_push_front_def doubly_linked_list_node_create_def
      set_tail_def split: Option.bind_split)

lemma lru_create_parts:
  assumes "LRU_cache_create n stride = Some c"
  shows "hashmap_create (of_nat n) double_67 8 None = Some (lc_hmap c)" and "lc_heap c = empty_heap"
    and "lc_dll c = doubly_linked_list_create (8 + unat stride)" and "lc_size c = n"
    and "size_quotient (of_nat n) double_67 = Some (hm_size (lc_hmap c))"
    and "unat (hm_entry_size (lc_hmap c)) = 48"
  using assms by (auto simp: LRU_cache_create_def hashmap_create_def ALIGN_UP_def Let_def fault_simps)

lemma lru_create:
  assumes "LRU_cache_create n stride = Some c" and "0 < n" and "Suc n < SIZE_MOD"
    and fits: "48 * hm_size (lc_hmap c) < SIZE_MOD"
  shows "lru_inv c []" and "lc_size c = n" and "hm_unused (lc_hmap c) = hm_size (lc_hmap c)"
    and "n \<le> hm_size (lc_hmap c)"
proof -
  note c = lru_create_parts [OF assms(1)]
  have "unat (of_nat n :: u64) = n" using assms(3) by (intro unat_of_nat_u64) simp
  then show n: "n \<le> hm_size (lc_hmap c)" using c size_quotient_67_ge by metis
  have "hm_inv (lc_hmap c) \<and> hm_map (lc_hmap c) = Map.empty \<and> hm_unused (lc_hmap c) = hm_size (lc_hmap c)"
    using c hashmap_create_fits [of "of_nat n" double_67 8 None "lc_hmap c"] n assms(2) fits by (simp add: mult.commute)
  with c assms(2,3)
  show "lru_inv c []" and "lc_size c = n" and "hm_unused (lc_hmap c) = hm_size (lc_hmap c)"
    by (simp_all add: lru_inv_def dll_rep_create)
qed

text \<open>A hit on the last of several entries: the list is right but for its tail.\<close>

lemma lru_get_last:
  assumes inv: "lru_inv c (ys @ [(a, e)])" and "ys \<noteq> []"
  shows "\<exists>c' t. LRU_cache_get c (en_key e) = Some (c', Some (en_data e)) \<and>
    lru_inv (set_tail c' t) ((a, e) # ys) \<and> lc_hmap c' = lc_hmap c \<and> lc_size c' = lc_size c"
proof -
  obtain s where s: "hashmap_get (lc_hmap c) (en_key e) = Some (Some s)"
    "e_data (hm_entries (lc_hmap c) ! s) = Some a" using lru_slot [OF inv] by blast
  have rep: "dll_rep (lc_heap c) (lc_dll c) (ys @ [(a, e)])" using inv by (simp add: lru_inv_def)
  obtain h where mv: "doubly_linked_list_move_to_front (lc_heap c) (lc_dll c) (Some a) =
      Some (h, (lc_dll c)\<lparr>d_head := Some a\<rparr>)"
    "dls (cells h) None (Some a) ((a, e) # ys) (Some (fst (last ys))) None"
    "brk h = brk (lc_heap c)" "\<forall>b\<ge>brk (lc_heap c). cells h b = None"
    using move_tail_to_front [OF rep assms(2)] by auto
  let ?c = "c\<lparr>lc_heap := h, lc_dll := (lc_dll c)\<lparr>d_head := Some a\<rparr>\<rparr>"
  have "\<exists>n. cells h a = Some n \<and> n_data n = e" using mv(2) by auto
  then have "LRU_cache_get c (en_key e) = Some (?c, Some (en_data e))"
    using s mv(1) by (auto simp: LRU_cache_get_def)
  moreover have "lru_inv (set_tail ?c (Some (fst (last ys)))) ((a, e) # ys)"
    using inv rep mv map_of_keys_permute [of ys "(a, e)" "[]"] by (auto simp: lru_inv_def dll_rep_def)
  ultimately show ?thesis by (intro exI [of _ ?c] exI [of _ "Some (fst (last ys))"]) simp
qed

lemma pairs_move_front:
  assumes "distinct (map (\<lambda>(a, e). en_key e) (ys @ x # zs))"
  shows "map_of (pairs (x # ys @ zs)) = map_of (pairs (ys @ x # zs))"
proof (rule map_of_inject_set [THEN iffD2])
  show "distinct (map fst (pairs (x # ys @ zs)))" "distinct (map fst (pairs (ys @ x # zs)))"
    using assms by (auto simp: fst_pairs)
qed (auto simp: pairs_def)

lemma lru_get_holds:
  assumes "lru_holds c m"
  shows "\<exists>c'. LRU_cache_get c k = Some (c', m k) \<and> lru_holds c' m \<and> lc_hmap c' = lc_hmap c \<and>
    lc_size c' = lc_size c"
proof -
  obtain xs t where inv: "lru_inv (set_tail c t) xs" and m: "map_of (pairs xs) = m"
    using assms by (auto simp: lru_holds_def)
  have "\<exists>c0 t'. LRU_cache_get (set_tail c t) k = Some (c0, m k) \<and> lru_holds (set_tail c0 t') m \<and>
      lc_hmap c0 = lc_hmap c \<and> lc_size c0 = lc_size c"
  proof (cases "k \<in> fst ` set (pairs xs)")
    case False
    then have "m k = None" using m by (auto simp: map_of_eq_None_iff simp flip: m)
    with lru_get_miss [OF inv False] inv m show ?thesis
      by (intro exI [of _ "set_tail c t"] exI [of _ t]) (auto simp: lru_holds_def)
  next
    case True
    then obtain a e where "(a, e) \<in> set xs" and k: "en_key e = k" by (auto simp: pairs_def)
    then obtain ys zs where xs: "xs = ys @ (a, e) # zs" by (meson split_list)
    have dist: "distinct (map (\<lambda>(a, e). en_key e) (ys @ (a, e) # zs))" using inv xs by (simp add: lru_inv_def)
    then have "distinct (map fst (pairs xs))" by (simp add: xs fst_pairs)
    moreover have "(k, en_data e) \<in> set (pairs xs)" by (simp add: xs k)
    ultimately have mk: "m k = Some (en_data e)" unfolding m [symmetric] by (rule map_of_is_SomeI)
    obtain c0 t' where "LRU_cache_get (set_tail c t) k = Some (c0, Some (en_data e))"
      "lru_inv (set_tail c0 t') ((a, e) # ys @ zs)" "lc_hmap c0 = lc_hmap c" "lc_size c0 = lc_size c"
    proof (cases "ys = [] \<or> zs \<noteq> []")
      case True
      from lru_get_hit [OF _ True, of "set_tail c t" a e] inv xs k that show thesis
        by (auto simp: set_tail_same) (metis set_tail_same)
    next
      case False
      with lru_get_last [of "set_tail c t" ys a e] inv xs k that show thesis by auto
    qed
    with mk m xs pairs_move_front [OF dist] show ?thesis by (auto simp: lru_holds_def)
  qed
  then obtain c0 t' where *: "LRU_cache_get (set_tail c t) k = Some (c0, m k)" "lru_holds (set_tail c0 t') m"
    "lc_hmap c0 = lc_hmap c" "lc_size c0 = lc_size c" by blast
  then obtain c' where c': "LRU_cache_get c k = Some (c', m k)" "c0 = set_tail c' t"
    by (auto simp: lru_get_tail)
  then have "lru_holds c' m" using *(2) by (auto simp: lru_holds_def)
  with c' * show ?thesis by auto
qed

lemma lru_holds_unique:
  assumes "lru_holds c m" and "lru_holds c m'"
  shows "m = m'"
proof
  fix k
  from lru_get_holds [OF assms(1), of k] lru_get_holds [OF assms(2), of k] show "m k = m' k" by auto
qed

lemma lru_add_holds:
  assumes "lru_holds c m" and "m k = None" and "card (dom m) < lc_size c" and "0 < hm_unused (lc_hmap c)"
  shows "\<exists>c'. LRU_cache_add c k v = Some (c', None) \<and> lru_holds c' (m(k \<mapsto> v)) \<and>
    hm_unused (lc_hmap c') = hm_unused (lc_hmap c) - 1 \<and> lc_size c' = lc_size c"
proof -
  obtain xs t where inv: "lru_inv (set_tail c t) xs" and m: "map_of (pairs xs) = m"
    using assms(1) by (auto simp: lru_holds_def)
  have "distinct (map fst (pairs xs))" using inv by (simp add: lru_inv_def fst_pairs)
  then have "card (dom m) = length xs"
    using m distinct_card [of "map fst (pairs xs)"] by (auto simp: dom_map_of_conv_image_fst)
  then have len: "length xs < lc_size c" using assms(3) by simp
  have fresh: "k \<notin> fst ` set (pairs xs)" using assms(2) map_of_eq_None_iff [of "pairs xs" k] m by simp
  from lru_add_fresh [OF inv fresh, of v] assms(4) len obtain c0 where
    c0: "LRU_cache_add (set_tail c t) k v = Some (c0, None)"
    "lru_inv c0 ((brk (lc_heap c), \<lparr>en_key = k, en_data = v\<rparr>) # xs)"
    "hm_unused (lc_hmap c0) = hm_unused (lc_hmap c) - 1" "lc_size c0 = lc_size c"
    by (auto simp: add_evicts_def add_nodes_def)
  have holds0: "lru_holds c0 (m(k \<mapsto> v))" using lru_inv_holds [OF c0(2)] m by simp
  have dl: "dls (cells (lc_heap c)) None (d_head (lc_dll c)) xs t None" "unat (d_length (lc_dll c)) = length xs"
    "Suc (lc_size c) < SIZE_MOD" using inv by (auto simp: lru_inv_def dll_rep_def)
  show ?thesis
  proof (cases xs)
    case Nil
    then have "d_head (lc_dll c) = None" using dl(1) by simp
    then have "LRU_cache_add (set_tail c t) k v = LRU_cache_add c k v"
      by (simp add: LRU_cache_add_def doubly_linked_list_push_front_def doubly_linked_list_node_create_def
          set_tail_def upd_cell_Some)
    with c0 holds0 show ?thesis by auto
  next
    case (Cons x xs')
    have "d_head (lc_dll c) \<noteq> None" using dl(1) Cons by (cases x) auto
    moreover have "\<not> lc_size c < unat (d_length (lc_dll c) + 1)" using dl(2,3) len by (simp add: unat_Suc_word)
    ultimately obtain c' where c': "LRU_cache_add c k v = Some (c', None)" "c0 = set_tail c' t"
      using c0(1) lru_add_tail [of c t k v] by auto
    then have "lru_holds c' (m(k \<mapsto> v))" using holds0 by (auto simp: lru_holds_def)
    with c' c0 show ?thesis by auto
  qed
qed

lemma lru_create_total:
  assumes "0 < n" and "n < 2 ^ 56"
  shows "\<exists>c :: 'v LRU_cache. LRU_cache_create n stride = Some c \<and> lru_holds c Map.empty \<and> lc_size c = n \<and>
    n \<le> hm_unused (lc_hmap c)"
proof -
  have u: "unat (of_nat n :: u64) = n" using assms(2) by (intro unat_of_nat_u64) simp
  then obtain s where s: "size_quotient (of_nat n) double_67 = Some s" "s \<le> 2 * n"
    using size_quotient_67 [of "of_nat n"] assms(2) by auto
  then obtain c :: "'v LRU_cache" where c: "LRU_cache_create n stride = Some c"
    by (auto simp: LRU_cache_create_def hashmap_create_def Let_def)
  have "hm_size (lc_hmap c) = s" using lru_create_parts [OF c] s(1) by simp
  then have fits: "48 * hm_size (lc_hmap c) < SIZE_MOD" using s(2) assms(2) by simp
  have "Suc n < SIZE_MOD" using assms(2) by simp
  note l = lru_create [OF c assms(1) this fits]
  from lru_inv_holds [OF l(1)] l(2-4) c show ?thesis by (intro exI [of _ c]) simp
qed

section \<open>Properties\<close>

text \<open>
  C32. Within its working range, and with a table whose bytes (48 a slot) fit a \<open>size_t\<close>, the
  cache is a least-recently-used cache: for every run that
  adds only new keys, adds no more of them than the table has slots, and never looks up the
  least recently used of several entries, lookups and evictions give exactly the results of
  the recency list cut to \<open>n\<close> entries, and no call touches freed or null memory.
\<close>

theorem lru_run_refines:
  assumes "LRU_cache_create n stride = Some c" and "0 < n" and "Suc n < 2 ^ 64"
    and "48 * hm_size (lc_hmap c) < 2 ^ 64"
    and "lru_safe n [] ops" and "adds ops \<le> hm_size (lc_hmap c)"
  shows "\<exists>c' xs. lru_run c ops = Some (c', snd (lru_spec n [] ops)) \<and>
    lru_inv c' xs \<and> pairs xs = fst (lru_spec n [] ops)"
  using lru_run_law [OF lru_create(1) [OF assms(1-4)], of ops] lru_create(2,3) [OF assms(1-4)]
    assms(5,6) by auto

abbreviation cache2 :: "nat LRU_cache" where
  "cache2 \<equiv> \<lparr>lc_size = 2, lc_stride = 8, lc_heap = empty_heap,
     lc_dll = doubly_linked_list_create 16,
     lc_hmap = \<lparr>hm_size = 2, hm_stride = 8, hm_entry_size = 48, hm_hash = hash_fnv1a,
       hm_entries = [zero_entry, zero_entry]\<rparr>\<rparr>"

lemma cache2_create: "LRU_cache_create 2 8 = Some cache2"
proof -
  have "replicate 2 zero_entry = [zero_entry, zero_entry :: addr hashmap_entry]"
    by (simp add: numeral_2_eq_2)
  then show ?thesis
    by (simp add: LRU_cache_create_def hashmap_create_def size_quotient_tests ALIGN_UP_def)
qed

theorem lru_run_refines_witness:
  "\<exists>c' xs. lru_run cache2 [Add ''a'' 1, Add ''b'' 2, Get ''b'', Get ''c''] =
      Some (c', [None, None, Some 2, None]) \<and>
    lru_inv c' xs \<and> pairs xs = [(''b'', 2), (''a'', 1)]"
  using lru_run_refines [OF cache2_create, of "[Add ''a'' 1, Add ''b'' 2, Get ''b'', Get ''c'']"]
  by simp

text \<open>A run that only adds new keys is safe.\<close>

definition add_all :: "(bytes \<times> 'v) list \<Rightarrow> 'v lru_op list" where
  "add_all kvs = map (\<lambda>(k, v). Add k v) kvs"

lemma adds_add_all [simp]: "adds (add_all kvs) = length kvs"
  by (induction kvs) (auto simp: add_all_def)

lemma add_all_safe:
  "distinct (map fst kvs) \<Longrightarrow> fst ` set kvs \<inter> fst ` set l = {} \<Longrightarrow> lru_safe n l (add_all kvs)"
proof (induction kvs arbitrary: l)
  case (Cons kv kvs)
  obtain k v where kv: "kv = (k, v)" by (cases kv)
  have "fst ` set (take (n - 1) l) \<subseteq> fst ` set l" by (intro image_mono set_take_subset)
  then have "fst ` set kvs \<inter> fst ` set ((k, v) # take (n - 1) l) = {}"
    using Cons.prems unfolding kv by (simp add: disjoint_iff) blast
  from Cons.IH [OF _ this] Cons.prems kv show ?case by (auto simp: add_all_def)
qed (simp add: add_all_def)

lemma add_all_spec_keys:
  "fst ` set (fst (lru_spec n l (add_all kvs))) \<subseteq> fst ` set l \<union> fst ` set kvs"
proof (induction kvs arbitrary: l)
  case (Cons kv kvs)
  obtain k v where kv: "kv = (k, v)" by (cases kv)
  have "fst ` set (take (n - 1) l) \<subseteq> fst ` set l" by (intro image_mono set_take_subset)
  moreover have "fst (lru_spec n l (add_all (kv # kvs))) =
      fst (lru_spec n ((k, v) # take (n - 1) l) (add_all kvs))"
    by (simp add: add_all_def kv Let_def split_def)
  ultimately show ?case using Cons [of "(k, v) # take (n - 1) l"] kv by (simp add: subset_iff) blast
qed (simp add: add_all_def)

text \<open>
  C33. The cache stops caching.  If the bytes of its table fit a \<open>size_t\<close>, then once as many
  distinct keys have been added as the table has slots (23 for the server's file cache of 16), an
  entry added for a further key is not found by the lookup that follows at once.
\<close>

theorem lru_stops_caching:
  assumes "LRU_cache_create n stride = Some c" and "0 < n" and "Suc n < 2 ^ 64"
    and "48 * hm_size (lc_hmap c) < 2 ^ 64"
    and "distinct (map fst kvs)" and "length kvs = hm_size (lc_hmap c)" and "k \<notin> fst ` set kvs"
  shows "\<exists>c1 rs c2 ev. lru_run c (add_all kvs) = Some (c1, rs) \<and>
    LRU_cache_add c1 k v = Some (c2, ev) \<and> LRU_cache_get c2 k = Some (c2, None)"
proof -
  have safe: "lru_safe n [] (add_all kvs)" using add_all_safe [OF assms(5)] by simp
  obtain c1 xs where c1: "lru_run c (add_all kvs) = Some (c1, snd (lru_spec n [] (add_all kvs)))"
    "lru_inv c1 xs" "pairs xs = fst (lru_spec n [] (add_all kvs))" "hm_unused (lc_hmap c1) = 0"
    using lru_run_law [OF lru_create(1) [OF assms(1-4)], of "add_all kvs"]
      lru_create(2,3) [OF assms(1-4)] safe assms(6) by auto
  then have "k \<notin> fst ` set (pairs xs)" using add_all_spec_keys [of n "[]" kvs] assms(7) by auto
  from lru_add_full [OF c1(2) this c1(4), of v] c1(1) show ?thesis by blast
qed

theorem lru_stops_caching_witness:
  "\<exists>c1 rs c2 ev. lru_run cache2 (add_all [(''a'', 1), (''b'', 2)]) = Some (c1, rs) \<and>
    LRU_cache_add c1 ''c'' 3 = Some (c2, ev) \<and> LRU_cache_get c2 ''c'' = Some (c2, None)"
  by (rule lru_stops_caching [OF cache2_create]) simp_all

text \<open>
  C34. Looking up the least recently used entry of a full cache corrupts it: the lookup
  succeeds, but the next addition of a new key evicts exactly the entry just used, and the
  lookup of the entry that was most recently used before then goes through a freed node.
\<close>

theorem lru_tail_lookup_corrupts:
  assumes "lru_inv c ((b, eb) # xs @ [(a, e)])" and "length xs + 2 = lc_size c"
    and "k \<notin> fst ` set (pairs ((b, eb) # xs @ [(a, e)]))"
  shows "\<exists>c1 c2. LRU_cache_get c (en_key e) = Some (c1, Some (en_data e)) \<and>
    LRU_cache_add c1 k v = Some (c2, Some (en_data e)) \<and> LRU_cache_get c2 (en_key eb) = None"
proof -
  let ?ys = "(b, eb) # xs" and ?new = "brk (lc_heap c)"
  note inv = assms(1) [unfolded lru_inv_def]
  have rep: "dll_rep (lc_heap c) (lc_dll c) (?ys @ [(a, e)])" using inv by simp
  have ne: "?ys \<noteq> []" by simp
  obtain s where s: "hashmap_get (lc_hmap c) (en_key e) = Some (Some s)"
    "e_data (hm_entries (lc_hmap c) ! s) = Some a"
    using lru_slot [of c ?ys a e "[]"] assms(1) by auto
  obtain h where mv: "doubly_linked_list_move_to_front (lc_heap c) (lc_dll c) (Some a) =
      Some (h, (lc_dll c)\<lparr>d_head := Some a\<rparr>)" "d_tail (lc_dll c) = Some a"
    "dls (cells h) None (Some a) ((a, e) # ?ys) (Some (fst (last ?ys))) None"
    "brk h = ?new" "\<forall>b\<ge>?new. cells h b = None"
    using move_tail_to_front [OF rep ne] by auto
  have dist: "a \<noteq> b" using rep by (auto simp: dll_rep_def)
  obtain nx where ha: "cells h a = Some \<lparr>n_prev = None, n_next = Some b, n_data = e\<rparr>"
    and hb: "cells h b = Some \<lparr>n_prev = Some a, n_next = nx, n_data = eb\<rparr>" using mv(3) by auto
  have new: "a \<noteq> ?new" "b \<noteq> ?new" using mv(5) ha hb by auto
  have len: "unat (d_length (lc_dll c)) = lc_size c" using rep assms(2) by (simp add: dll_rep_def)
  then have dlen: "unat (d_length (lc_dll c) + 1) = Suc (lc_size c)" using inv by (simp add: unat_Suc_word)
  then have gt1: "1 < d_length (lc_dll c) + 1" and nz: "d_length (lc_dll c) + 1 \<noteq> 0"
    using assms(2) by (auto simp: word_less_nat_alt)
  let ?c1 = "c\<lparr>lc_heap := h, lc_dll := (lc_dll c)\<lparr>d_head := Some a\<rparr>\<rparr>"
  have get1: "LRU_cache_get c (en_key e) = Some (?c1, Some (en_data e))"
    using s mv(1) ha by (simp add: LRU_cache_get_def)
  have none: "hm_map (lc_hmap c) k = None" using inv assms(3) key_none [of "?ys @ [(a, e)]" k] by (simp del: map_append)
  obtain hm1 where del: "hashmap_delete (lc_hmap c) (en_key e) = Some (hm1, True)" "hm_inv hm1"
      "hm_map hm1 = (hm_map (lc_hmap c))(en_key e := None)"
    using hm.del_law [of "lc_hmap c" "en_key e"] inv node_of_key [of ?ys a e "[]"] by auto
  obtain hm2 ok where set: "hashmap_set hm1 k ?new = Some (hm2, ok)" "hm_inv hm2"
      "\<And>q. q \<noteq> k \<Longrightarrow> hm_map hm2 q = hm_map hm1 q"
    using hm.set_hit [OF del(2), of k ?new] hm.set_new [OF del(2), of k ?new]
      hm.set_full [OF del(2), of k ?new] del(2)
    by (metis fun_upd_other gr0I)
  let ?h2 = "\<lparr>cells = (cells h)(a := None, ?new \<mapsto> \<lparr>n_prev = None, n_next = None,
      n_data = \<lparr>en_key = k, en_data = v\<rparr>\<rparr>), brk = Suc ?new\<rparr>"
  let ?dl2 = "(lc_dll c)\<lparr>d_head := Some ?new, d_tail := Some ?new\<rparr>"
  have add: "LRU_cache_add ?c1 k v =
      Some (?c1\<lparr>lc_heap := ?h2, lc_dll := ?dl2, lc_hmap := hm2\<rparr>, Some (en_data e))"
    using ha hb new dist mv(2,4) none inv del(1) set(1) dlen gt1 nz
    by (simp add: LRU_cache_add_def hashmap_get_None doubly_linked_list_push_front_def cell_simps
        doubly_linked_list_pop_tail_def pop_copy_def)
  have "hm_map (lc_hmap c) (en_key eb) = Some b" using inv by simp
  then have "hm_map hm2 (en_key eb) = Some b" using set(3) del(3) assms(1,3) by (auto simp: lru_inv_def)
  then obtain s2 where "hashmap_get hm2 (en_key eb) = Some (Some s2)"
    "e_data (hm_entries hm2 ! s2) = Some b" using hashmap_get_Some [OF set(2)] by blast
  with hb new dist have "LRU_cache_get (?c1\<lparr>lc_heap := ?h2, lc_dll := ?dl2, lc_hmap := hm2\<rparr>)
      (en_key eb) = None"
    by (simp add: LRU_cache_get_def doubly_linked_list_move_to_front_def upd_cell_Some)
  with get1 add show ?thesis by blast
qed

theorem lru_tail_lookup_corrupts_witness:
  "\<exists>c c1 c2. lru_run cache2 [Add ''a'' 1, Add ''b'' 2] = Some (c, [None, None]) \<and>
    LRU_cache_get c ''a'' = Some (c1, Some 1) \<and>
    LRU_cache_add c1 ''c'' 3 = Some (c2, Some 1) \<and> LRU_cache_get c2 ''b'' = None"
proof -
  have "lc_size cache2 = 2" "hm_unused (lc_hmap cache2) = 2" "lru_inv cache2 []"
    using lru_create [OF cache2_create] by simp_all
  with lru_run_law [of cache2 "[]" "[Add ''a'' 1, Add ''b'' 2]"]
  obtain c xs where run: "lru_run cache2 [Add ''a'' 1, Add ''b'' 2] = Some (c, [None, None])"
    and c: "lru_inv c xs" "pairs xs = [(''b'', 2), (''a'', 1)]" "lc_size c = 2" by auto
  from c(2) obtain b eb a e where xs: "xs = [(b, eb), (a, e)]"
    and k: "en_key eb = ''b''" "en_key e = ''a''" "en_data e = 1"
    by (auto simp: pairs_def)
  from c lru_tail_lookup_corrupts [of c b eb "[]" a e "''c''" 3] xs k
  have "\<exists>c1 c2. LRU_cache_get c ''a'' = Some (c1, Some 1) \<and>
    LRU_cache_add c1 ''c'' 3 = Some (c2, Some 1) \<and> LRU_cache_get c2 ''b'' = None" by auto
  with run show ?thesis by blast
qed

end
