(* ===== verification/FileServer.thy ===== *)
theory FileServer
  imports Router AsyncIo LruCache
begin

text \<open>
  The protothreads of the server: opening a file through the cache, sending a buffer and
  sending a file (\<open>network/IO/async_io.c\<close>), the callbacks that answer a request with a file
  or a 404 page (\<open>network/routing/router.c\<close>), and the handler of \<open>main.c\<close>.

  A protothread is a function that is entered again from the top at every resumption and
  jumps to the point where it waited: its \<open>resume_label\<close>, here the line of the \<open>PT_WAIT\<close>, as
  in the macro.  A function called from a protothread is a child with a label of its own; it
  either submits an operation and waits for it, or ends and resumes its caller, which here is
  its result.  Local variables that live in the \<open>locals\<close> block survive a wait.  Automatic
  variables do not: reading one after a wait is a fault.
\<close>

section \<open>State\<close>

record file_t =
  ft_fd :: int
  ft_name :: "bytes option"
  ft_path :: "bytes option"
  ft_size :: u64

definition zero_file :: file_t where
  "zero_file = \<lparr>ft_fd = 0, ft_name = None, ft_path = None, ft_size = 0\<rparr>"

text \<open>The operations a protothread submits and waits for.\<close>

datatype pt_op =
    Pt_openat bytes
  | Pt_statx int
  | Pt_send send_context
  | Pt_splice_all splice_all_context
  | Pt_close int

text \<open>
  The submissions whose context holds only where the result goes, which is to the protothread
  that submits.  The pointers into its file (\<open>fd\<close>, \<open>statx_buff\<close>) are those of its locals.
\<close>

definition handle_openat_submission :: "bytes \<Rightarrow> pt_op" where
  [simp]: "handle_openat_submission path = Pt_openat path"

definition handle_statx_submission :: "int \<Rightarrow> pt_op" where
  [simp]: "handle_statx_submission fd = Pt_statx fd"

text \<open>The protothread called by a callback, with its label and its own locals.\<close>

datatype child =
    No_child
  | Open_file_pt "nat option" bytes
  | Send_buffer_pt "nat option" bytes
  | Sendfile_pt "nat option"

datatype callback_fn = Fn_send_file | Fn_send_404 | Fn_test

text \<open>
  A callback's protothread: \<open>self\<close>, \<open>resume_label\<close>, and its \<open>locals\<close>.  The path is that of
  the file it opens.
\<close>

record thread =
  th_self :: callback_fn
  th_label :: "nat option"
  th_client_fd :: int
  th_path :: bytes
  th_file :: file_t
  th_raw_res :: bytes
  th_child :: child

text \<open>
  What the environment provides while a protothread runs: the allocator, the content of an
  uninitialised buffer and of memory grown by \<open>realloc\<close>, and the result of \<open>pipe2\<close>.
\<close>

record pt_env =
  pe_alloc :: allocator
  pe_buf :: bytes
  pe_junk :: file_t
  pe_pipe :: "(int \<times> int) option"

type_synonym file_cache = "file_t LRU_cache"

section \<open>The protothreads of the I/O layer\<close>

text \<open>
  Opening a file: the cache, the file, the descriptors the cache evicts, and the label and
  operation the protothread waits at (\<^const>\<open>None\<close>: it has ended).  The cache is consulted
  at every entry, resumptions included.
\<close>

definition async_io_open_file ::
  "nat option \<Rightarrow> bytes \<Rightarrow> file_t \<Rightarrow> file_cache \<Rightarrow>
   (file_cache \<times> file_t \<times> int list \<times> (nat \<times> pt_op) option) option" where
  "async_io_open_file label path file cache = do {
     (cache, temp_file) \<leftarrow> LRU_cache_get cache path;
     (case temp_file of
        Some f \<Rightarrow> Some (cache, f, [], None)
      | None \<Rightarrow>
          if label = None then do {
            path_shards \<leftarrow> sdssplitlen path ''/'';
            guard (path_shards \<noteq> []);
            Some (cache, file\<lparr>ft_name := Some (last path_shards)\<rparr>, [], Some (388, handle_openat_submission path))
          }
          else if label = Some 388 then Some (cache, file, [], Some (389, handle_statx_submission (ft_fd file)))
          else if label = Some 389 then do {
            (cache, evicted) \<leftarrow> LRU_cache_add cache path file;
            Some (cache, file, case evicted of None \<Rightarrow> [] | Some f \<Rightarrow> [ft_fd f], None)
          }
          else None)
   }"

text \<open>The buffer is duplicated; a null duplicate would be dereferenced.\<close>

definition async_io_send_buffer ::
  "allocator \<Rightarrow> nat option \<Rightarrow> bytes \<Rightarrow> int \<Rightarrow> (nat \<times> pt_op) option option" where
  "async_io_send_buffer A label buffer client_fd =
     (if label = None then do {
        d \<leftarrow> sdsnewlen A (Init_bytes buffer) (length buffer);
        d \<leftarrow> d;
        Some (Some (405, Pt_send (fst (handle_send_submission d client_fd))))
      }
      else if label = Some 405 then Some None
      else None)"

text \<open>When \<open>pipe2\<close> fails the error is logged and the zeroed descriptors are used.\<close>

definition async_io_sendfile ::
  "nat option \<Rightarrow> int \<Rightarrow> file_t \<Rightarrow> (int \<times> int) option \<Rightarrow> (nat \<times> pt_op) option option" where
  "async_io_sendfile label client_fd file pipes =
     (if label = None then
        Some (Some (427, Pt_splice_all (sendfile_context (ft_fd file) client_fd (ft_size file)
          (case pipes of Some p \<Rightarrow> p | None \<Rightarrow> (0, 0)))))
      else if label = Some 427 then Some None
      else None)"

section \<open>The callbacks\<close>

text \<open>
  The result of running a callback until it waits or ends: the cache, the callback
  (\<^const>\<open>None\<close> when it has ended), the operation submitted, and the evicted descriptors.
\<close>

type_synonym pt_result = "file_cache \<times> thread option \<times> pt_op option \<times> int list"

text \<open>
  The part both file callbacks share: from the end of \<open>async_io_open_file\<close> to the sending of
  the header, waiting at the given line.
\<close>

definition send_head :: "pt_env \<Rightarrow> nat \<Rightarrow> thread \<Rightarrow> (thread \<times> pt_op) option" where
  "send_head E line th = do {
     name \<leftarrow> ft_name (th_file th);
     raw_res \<leftarrow> send_file_head (pe_alloc E) (pe_buf E) name (ft_size (th_file th));
     w \<leftarrow> async_io_send_buffer (pe_alloc E) None raw_res (th_client_fd th);
     (l, opn) \<leftarrow> w;
     Some (th\<lparr>th_label := Some line, th_raw_res := raw_res, th_child := Send_buffer_pt (Some l) raw_res\<rparr>, opn)
   }"

text \<open>Starting the child that opens the file; on a cache hit the callback continues at once.\<close>

definition start_open :: "pt_env \<Rightarrow> nat \<Rightarrow> nat \<Rightarrow> thread \<Rightarrow> file_cache \<Rightarrow> pt_result option" where
  "start_open E open_line head_line th cache = do {
     (cache, file, ev, w) \<leftarrow> async_io_open_file None (th_path th) (th_file th) cache;
     let th = th\<lparr>th_label := Some open_line, th_file := file\<rparr>;
     (case w of
        Some (l, opn) \<Rightarrow> Some (cache, Some (th\<lparr>th_child := Open_file_pt (Some l) (th_path th)\<rparr>), Some opn, ev)
      | None \<Rightarrow> do {
          (th, opn) \<leftarrow> send_head E head_line th;
          Some (cache, Some th, Some opn, ev)
        })
   }"

definition route_callback_send_file :: "pt_env \<Rightarrow> thread \<Rightarrow> file_cache \<Rightarrow> pt_result option" where
  "route_callback_send_file E th cache =
     (case th_label th of
        None \<Rightarrow> start_open E 77 113 th cache
      | Some l \<Rightarrow>
          if l = 77 then do { (th, opn) \<leftarrow> send_head E 113 th; Some (cache, Some th, Some opn, []) }
          else if l = 113 then do {
            w \<leftarrow> async_io_sendfile None (th_client_fd th) (th_file th) (pe_pipe E);
            (l, opn) \<leftarrow> w;
            Some (cache, Some (th\<lparr>th_label := Some 123, th_child := Sendfile_pt (Some l)\<rparr>), Some opn, [])
          }
          else if l = 123 then
            Some (cache, Some (th\<lparr>th_label := Some 127, th_child := No_child\<rparr>), Some (Pt_close (th_client_fd th)), [])
          else if l = 127 then Some (cache, None, None, [])
          else None)"

text \<open>\<open>send_buffer_state\<close> is an automatic variable, read after the wait.\<close>

definition route_callback_send_404 :: "pt_env \<Rightarrow> thread \<Rightarrow> file_cache \<Rightarrow> pt_result option" where
  "route_callback_send_404 E th cache =
     (if th_label th = None then do {
        raw_res \<leftarrow> send_404_head;
        w \<leftarrow> async_io_send_buffer (pe_alloc E) None raw_res (th_client_fd th);
        (l, opn) \<leftarrow> w;
        Some (cache, Some (th\<lparr>th_label := Some 163, th_raw_res := raw_res,
          th_child := Send_buffer_pt (Some l) raw_res\<rparr>), Some opn, [])
      }
      else None)"

text \<open>
  The handler of \<open>main.c\<close>.  Its locals are grown by \<open>realloc\<close>, so the file is whatever the
  memory held; \<open>send_buffer_state\<close> and \<open>sendfile_state\<close> are automatic variables.
\<close>

definition route_callback_test :: "pt_env \<Rightarrow> thread \<Rightarrow> file_cache \<Rightarrow> pt_result option" where
  "route_callback_test E th cache =
     (if th_label th = None then
        start_open E 51 85 (th\<lparr>th_path := ''assets/public/test.html'', th_file := pe_junk E\<rparr>) cache
      else if th_label th = Some 51 then do {
        (th, opn) \<leftarrow> send_head E 85 th;
        Some (cache, Some th, Some opn, [])
      }
      else None)"

definition run_callback :: "pt_env \<Rightarrow> thread \<Rightarrow> file_cache \<Rightarrow> pt_result option" where
  "run_callback E th cache =
     (case th_self th of
        Fn_send_file \<Rightarrow> route_callback_send_file E th cache
      | Fn_send_404 \<Rightarrow> route_callback_send_404 E th cache
      | Fn_test \<Rightarrow> route_callback_test E th cache)"

text \<open>The child has ended: its state is freed, if it can still be reached, and the caller goes on.\<close>

definition resume_caller :: "pt_env \<Rightarrow> thread \<Rightarrow> file_cache \<Rightarrow> int list \<Rightarrow> pt_result option" where
  "resume_caller E th cache ev = do {
     (cache, th, opn, ev') \<leftarrow> run_callback E (th\<lparr>th_child := No_child\<rparr>) cache;
     Some (cache, th, opn, ev @ ev')
   }"

text \<open>\<open>pt->self (pt)\<close> for the protothread that submitted the operation that has completed.\<close>

definition pt_resume :: "pt_env \<Rightarrow> thread \<Rightarrow> file_cache \<Rightarrow> pt_result option" where
  "pt_resume E th cache =
     (case th_child th of
        No_child \<Rightarrow> run_callback E th cache
      | Open_file_pt label path \<Rightarrow> do {
          (cache, file, ev, w) \<leftarrow> async_io_open_file label path (th_file th) cache;
          let th = th\<lparr>th_file := file\<rparr>;
          (case w of
             Some (l, opn) \<Rightarrow> Some (cache, Some (th\<lparr>th_child := Open_file_pt (Some l) path\<rparr>), Some opn, ev)
           | None \<Rightarrow> resume_caller E th cache ev)
        }
      | Send_buffer_pt label buffer \<Rightarrow> do {
          w \<leftarrow> async_io_send_buffer (pe_alloc E) label buffer (th_client_fd th);
          (case w of
             Some (l, opn) \<Rightarrow> Some (cache, Some (th\<lparr>th_child := Send_buffer_pt (Some l) buffer\<rparr>), Some opn, [])
           | None \<Rightarrow> resume_caller E th cache [])
        }
      | Sendfile_pt label \<Rightarrow> do {
          w \<leftarrow> async_io_sendfile label (th_client_fd th) (th_file th) (pe_pipe E);
          (case w of
             Some (l, opn) \<Rightarrow> Some (cache, Some (th\<lparr>th_child := Sendfile_pt (Some l)\<rparr>), Some opn, [])
           | None \<Rightarrow> resume_caller E th cache [])
        })"

text \<open>The blocks in which the callbacks start.\<close>

definition prep_route_callback_send_file :: "int \<Rightarrow> bytes \<Rightarrow> thread" where
  "prep_route_callback_send_file client_fd path =
     \<lparr>th_self = Fn_send_file, th_label = None, th_client_fd = client_fd, th_path = path,
      th_file = zero_file, th_raw_res = [], th_child = No_child\<rparr>"

definition prep_route_callback_send_404 :: "int \<Rightarrow> thread" where
  "prep_route_callback_send_404 client_fd =
     \<lparr>th_self = Fn_send_404, th_label = None, th_client_fd = client_fd, th_path = [],
      th_file = zero_file, th_raw_res = [], th_child = No_child\<rparr>"

text \<open>The state given to a registered handler, with \<open>minimal_locals\<close>.\<close>

definition handler_thread :: "int \<Rightarrow> handler \<Rightarrow> thread" where
  "handler_thread client_fd f =
     \<lparr>th_self = (case f of Route_callback_test \<Rightarrow> Fn_test), th_label = None, th_client_fd = client_fd,
      th_path = [], th_file = zero_file, th_raw_res = [], th_child = No_child\<rparr>"

end
