(* ===== verification/EventLoop.thy ===== *)
theory EventLoop
  imports FileServer
begin

text \<open>
  The event loop: the operations in flight, the completion of each kind of operation
  (\<open>handle_*_completion\<close> in \<open>network/IO/async_io.c\<close>), the requests it hands to the router and the
  protothreads it resumes.  The kernel chooses which operation completes next, and with what
  result; a run of the server is a sequence of such choices.
\<close>

section \<open>State\<close>

text \<open>
  A submitted operation with its context: an accept, a receive, an operation of a
  protothread, and a close that nobody waits for.
\<close>

datatype op =
    Op_accept
  | Op_recv recv_context
  | Op_pt nat pt_op
  | Op_close_only int

text \<open>
  The protothreads are numbered in the order of their creation; one that has ended is gone.
  The operations in flight are in submission order.
\<close>

record server =
  sv_rtr :: "handler router_t"
  sv_cache :: file_cache
  sv_threads :: "nat \<rightharpoonup> thread"
  sv_next :: nat
  sv_ops :: "op list"

text \<open>
  A completion: the result, the bytes a receive has written, the size a \<open>statx\<close> has
  written, and what else the environment provides meanwhile.
\<close>

record cqe =
  cq_res :: int
  cq_data :: bytes
  cq_size :: u64
  cq_env :: pt_env

section \<open>Submissions and resumptions\<close>

text \<open>
  \<open>op_submit\<close> of an entry of the ring that \<open>io_uring_get_sqe_wrapper\<close> has found.  When the ring is
  full there is none, and the handlers write through the null entry all the same: that is
  \<open>submit_entry\<close> in \<open>Startup\<close>, and \<open>Ring\<close> runs the server with it.
\<close>

definition submit :: "op \<Rightarrow> server \<Rightarrow> server" where
  "submit opn s = s\<lparr>sv_ops := sv_ops s @ [opn]\<rparr>"

definition handle_accept_submission :: "server \<Rightarrow> server" where
  "handle_accept_submission s = submit Op_accept s"

text \<open>A close, for a protothread or for nobody; the handler of the cache's evictions.\<close>

definition handle_close_submission :: "int \<Rightarrow> nat option \<Rightarrow> op" where
  "handle_close_submission fd pt =
     (case pt of None \<Rightarrow> Op_close_only fd | Some tid \<Rightarrow> Op_pt tid (Pt_close fd))"

definition file_eviction_handler :: "int \<Rightarrow> op" where
  "file_eviction_handler fd = handle_close_submission fd None"

lemma file_eviction_close [simp]: "file_eviction_handler = Op_close_only"
  by (rule ext) (simp add: file_eviction_handler_def handle_close_submission_def)

text \<open>The effect of a protothread that has run until its next wait or its end.\<close>

definition install :: "nat \<Rightarrow> pt_result \<Rightarrow> server \<Rightarrow> server" where
  "install tid r s =
     (case r of (cache, th, opn, ev) \<Rightarrow>
        s\<lparr>sv_cache := cache, sv_threads := (sv_threads s)(tid := th),
          sv_ops := sv_ops s @ map file_eviction_handler ev @ (case opn of None \<Rightarrow> [] | Some q \<Rightarrow> [Op_pt tid q])\<rparr>)"

definition start_thread :: "pt_env \<Rightarrow> thread \<Rightarrow> server \<Rightarrow> server option" where
  "start_thread E th s = do {
     r \<leftarrow> run_callback E th (sv_cache s);
     Some (install (sv_next s) r (s\<lparr>sv_next := Suc (sv_next s)\<rparr>))
   }"

definition resume_thread :: "pt_env \<Rightarrow> nat \<Rightarrow> server \<Rightarrow> server option" where
  "resume_thread E tid s = do {
     th \<leftarrow> sv_threads s tid;
     r \<leftarrow> pt_resume E th (sv_cache s);
     Some (install tid r s)
   }"

text \<open>The end of an operation: its protothread, if it has one, goes on.\<close>

definition op_exit :: "pt_env \<Rightarrow> nat option \<Rightarrow> server \<Rightarrow> server option" where
  "op_exit E pt s = (case pt of None \<Rightarrow> Some s | Some tid \<Rightarrow> resume_thread E tid s)"

lemma op_exit_simps [simp]:
  "op_exit E None s = Some s"
  "op_exit E (Some tid) s = resume_thread E tid s"
  by (simp_all add: op_exit_def)

text \<open>Writing through the pointer into the file of a protothread.\<close>

definition update_file :: "nat \<Rightarrow> (file_t \<Rightarrow> file_t) \<Rightarrow> server \<Rightarrow> server option" where
  "update_file tid f s = do {
     th \<leftarrow> sv_threads s tid;
     Some (s\<lparr>sv_threads := (sv_threads s)(tid \<mapsto> th\<lparr>th_file := f (th_file th)\<rparr>)\<rparr>)
   }"

text \<open>What \<open>router_handle_request\<close> starts, in order.\<close>

definition action_thread :: "int \<Rightarrow> handler action \<Rightarrow> thread" where
  "action_thread client_fd act =
     (case act of
        Send_file path \<Rightarrow> prep_route_callback_send_file client_fd path
      | Run_handler f \<Rightarrow> handler_thread client_fd f)"

fun start_actions :: "pt_env \<Rightarrow> int \<Rightarrow> handler action list \<Rightarrow> server \<Rightarrow> server option" where
  "start_actions E client_fd [] s = Some s"
| "start_actions E client_fd (act # acts) s = do {
     s \<leftarrow> start_thread E (action_thread client_fd act) s;
     start_actions E client_fd acts s
   }"

section \<open>Completions\<close>

text \<open>A failed operation only resumes its protothread, if it has one (\<open>OP_CHECK\<close>, \<open>op_exit\<close>).\<close>

definition handle_accept_completion :: "cqe \<Rightarrow> server \<Rightarrow> server option" where
  "handle_accept_completion c s =
     (if cq_res c < 0 then op_exit (cq_env c) None s
      else do {
        (ctx, q) \<leftarrow> handle_recv_submission (pe_alloc (cq_env c)) (cq_res c) None;
        Some (handle_accept_submission (submit (Op_recv ctx) s))
      })"

definition recv_completion :: "cqe \<Rightarrow> recv_context \<Rightarrow> server \<Rightarrow> server option" where
  "recv_completion c ctx s = do {
     r \<leftarrow> handle_recv_completion (pe_alloc (cq_env c)) (cq_res c) (cq_data c) ctx;
     (case r of
        Recv_dropped \<Rightarrow> Some s
      | Recv_refused \<Rightarrow> Some s
      | Recv_more ctx' q \<Rightarrow> Some (submit (Op_recv ctx') s)
      | Recv_request req client_fd \<Rightarrow> do {
          acts \<leftarrow> router_handle_request (sv_rtr s) req;
          start_actions (cq_env c) client_fd acts s
        })
   }"

definition handle_openat_completion :: "cqe \<Rightarrow> nat \<Rightarrow> server \<Rightarrow> server option" where
  "handle_openat_completion c tid s =
     (if cq_res c < 0 then op_exit (cq_env c) (Some tid) s
      else do {
        s \<leftarrow> update_file tid (\<lambda>f. f\<lparr>ft_fd := cq_res c\<rparr>) s;
        resume_thread (cq_env c) tid s
      })"

definition handle_statx_completion :: "cqe \<Rightarrow> nat \<Rightarrow> server \<Rightarrow> server option" where
  "handle_statx_completion c tid s =
     (if cq_res c < 0 then op_exit (cq_env c) (Some tid) s
      else do {
        s \<leftarrow> update_file tid (\<lambda>f. f\<lparr>ft_size := cq_size c\<rparr>) s;
        resume_thread (cq_env c) tid s
      })"

definition send_completion :: "cqe \<Rightarrow> nat \<Rightarrow> send_context \<Rightarrow> server \<Rightarrow> server option" where
  "send_completion c tid ctx s = do {
     r \<leftarrow> handle_send_completion (cq_res c) ctx;
     (case r of
        Inl u \<Rightarrow> resume_thread (cq_env c) tid s
      | Inr (ctx', q) \<Rightarrow> Some (submit (Op_pt tid (Pt_send ctx')) s))
   }"

definition splice_all_completion :: "cqe \<Rightarrow> nat \<Rightarrow> splice_all_context \<Rightarrow> server \<Rightarrow> server option" where
  "splice_all_completion c tid ctx s =
     (case handle_splice_all_completion (cq_res c) ctx of
        None \<Rightarrow> resume_thread (cq_env c) tid s
      | Some (ctx', q) \<Rightarrow> Some (submit (Op_pt tid (Pt_splice_all ctx')) s))"

definition handle_close_completion :: "cqe \<Rightarrow> nat option \<Rightarrow> server \<Rightarrow> server option" where
  "handle_close_completion c pt s =
     (if cq_res c < 0 then op_exit (cq_env c) pt s else op_exit (cq_env c) pt s)"

text \<open>
  The single splice, which the table knows but nothing submits: its entry with the flags, and its
  completion with the count it writes for the protothread.  Unlike the failure, the success does
  not ask whether there is a protothread.
\<close>

definition handle_splice_submission ::
  "int \<Rightarrow> u64 \<Rightarrow> int \<Rightarrow> u64 \<Rightarrow> u32 \<Rightarrow> u32 \<Rightarrow> nat option \<Rightarrow> sqe \<times> u32 \<times> nat option" where
  "handle_splice_submission fd_in off_in fd_out off_out nbytes splice_flags pt =
     (Sq_splice fd_in off_in fd_out off_out nbytes, splice_flags, pt)"

definition handle_splice_completion :: "cqe \<Rightarrow> nat option \<Rightarrow> server \<Rightarrow> (int option \<times> server) option" where
  "handle_splice_completion c pt s =
     (if cq_res c < 0 then do { s \<leftarrow> op_exit (cq_env c) pt s; Some (None, s) }
      else do {
        tid \<leftarrow> pt;
        s \<leftarrow> resume_thread (cq_env c) tid s;
        Some (Some (cq_res c), s)
      })"

lemma handle_splice_completion_nobody:
  "handle_splice_completion c None s = (if cq_res c < 0 then Some (None, s) else None)"
  by (simp add: handle_splice_completion_def)

text \<open>The dispatch through \<open>completion_table\<close>.\<close>

definition completion_table :: "op \<Rightarrow> cqe \<Rightarrow> server \<Rightarrow> server option" where
  "completion_table opn c s =
     (case opn of
        Op_accept \<Rightarrow> handle_accept_completion c s
      | Op_recv ctx \<Rightarrow> recv_completion c ctx s
      | Op_pt tid q \<Rightarrow>
          (case q of
             Pt_openat path \<Rightarrow> handle_openat_completion c tid s
           | Pt_statx fd \<Rightarrow> handle_statx_completion c tid s
           | Pt_send ctx \<Rightarrow> send_completion c tid ctx s
           | Pt_splice_all ctx \<Rightarrow> splice_all_completion c tid ctx s
           | Pt_close fd \<Rightarrow> handle_close_completion c (Some tid) s)
      | Op_close_only fd \<Rightarrow> handle_close_completion c None s)"

text \<open>The \<open>i\<close>-th operation in flight completes.\<close>

definition remove_nth :: "nat \<Rightarrow> 'a list \<Rightarrow> 'a list" where
  "remove_nth i xs = take i xs @ drop (Suc i) xs"

definition process_cqe :: "nat \<Rightarrow> cqe \<Rightarrow> server \<Rightarrow> server option" where
  "process_cqe i c s =
     (if i < length (sv_ops s)
      then completion_table (sv_ops s ! i) c (s\<lparr>sv_ops := remove_nth i (sv_ops s)\<rparr>)
      else None)"

text \<open>The loop of \<open>async_io_process\<close> over the completions the kernel has ready.\<close>

fun async_io_process :: "(nat \<times> cqe) list \<Rightarrow> server \<Rightarrow> server option" where
  "async_io_process [] s = Some s"
| "async_io_process ((i, c) # cs) s = do { s \<leftarrow> process_cqe i c s; async_io_process cs s }"

text \<open>
  The file cache \<open>async_io_setup\<close> creates, if the ring could be set up (the whole of it, with its
  failure, is in \<open>Startup\<close>), and the submissions at the start of \<open>server_run\<close>.
\<close>

definition async_io_file_cache :: "file_cache option" where
  "async_io_file_cache = LRU_cache_create 16 280"

definition server_run :: "handler router_t \<Rightarrow> file_cache \<Rightarrow> server" where
  "server_run rtr cache =
     (handle_accept_submission ^^ 8)
       \<lparr>sv_rtr = rtr, sv_cache = cache, sv_threads = Map.empty, sv_next = 0, sv_ops = []\<rparr>"

text \<open>The steps of the server: some operation completes in a way the kernel may choose.\<close>

inductive server_step :: "(op \<Rightarrow> cqe \<Rightarrow> bool) \<Rightarrow> server \<Rightarrow> server \<Rightarrow> bool" for krn where
  completes: "i < length (sv_ops s) \<Longrightarrow> krn (sv_ops s ! i) c \<Longrightarrow> process_cqe i c s = Some s' \<Longrightarrow>
    server_step krn s s'"

inductive reachable :: "(op \<Rightarrow> cqe \<Rightarrow> bool) \<Rightarrow> server \<Rightarrow> server \<Rightarrow> bool" for krn where
  here: "reachable krn s s"
| step: "reachable krn s t \<Longrightarrow> server_step krn t u \<Longrightarrow> reachable krn s u"

inductive_cases server_stepE: "server_step krn s s'"

lemma reachable_trans: "reachable krn s t \<Longrightarrow> reachable krn t u \<Longrightarrow> reachable krn s u"
  by (rotate_tac, induction rule: reachable.induct) (blast intro: reachable.step)+

lemma reachable_mono:
  assumes "reachable krn s t" and "\<And>opn c. krn opn c \<Longrightarrow> krn' opn c"
  shows "reachable krn' s t"
  using assms(1)
proof induction
  case (step s t u)
  from step(2) assms(2) have "server_step krn' t u" by (auto elim!: server_stepE intro: completes)
  with step(3) show ?case by (rule reachable.step)
qed (rule reachable.here)

section \<open>What a protothread leaves behind\<close>

text \<open>
  The operation a suspended protothread waits for, from its labels: the point at which it
  resumes determines the kind of completion that resumes it.
\<close>

definition thread_waits :: "thread \<Rightarrow> pt_op \<Rightarrow> bool" where
  "thread_waits th q =
     (case q of
        Pt_openat p \<Rightarrow> th_child th = Open_file_pt (Some 388) p \<and>
          (th_label th, th_self th) \<in> {(Some 77, Fn_send_file), (Some 51, Fn_test)}
      | Pt_statx fd \<Rightarrow> (\<exists>p. th_child th = Open_file_pt (Some 389) p) \<and>
          (th_label th, th_self th) \<in> {(Some 77, Fn_send_file), (Some 51, Fn_test)}
      | Pt_send ctx \<Rightarrow> (\<exists>b. th_child th = Send_buffer_pt (Some 405) b) \<and>
          (th_label th, th_self th) \<in> {(Some 113, Fn_send_file), (Some 163, Fn_send_404), (Some 85, Fn_test)}
      | Pt_splice_all ctx \<Rightarrow> th_child th = Sendfile_pt (Some 427) \<and> th_label th = Some 123 \<and>
          th_self th = Fn_send_file
      | Pt_close fd \<Rightarrow> th_child th = No_child \<and> th_label th = Some 127 \<and> th_self th = Fn_send_file)"

text \<open>Either it waits for the operation it has just submitted, or it has ended and submitted none.\<close>

definition result_waits :: "pt_result \<Rightarrow> bool" where
  "result_waits r =
     (case r of (cache, th, opn, ev) \<Rightarrow>
        (case (th, opn) of (Some t, Some q) \<Rightarrow> thread_waits t q | (None, None) \<Rightarrow> True | _ \<Rightarrow> False))"

text \<open>A state in which a callback can be entered: fresh, or at one of its waits.\<close>

definition entry_label :: "callback_fn \<Rightarrow> nat option \<Rightarrow> bool" where
  "entry_label f l = (l = None \<or>
     (case f of
        Fn_send_file \<Rightarrow> l \<in> {Some 77, Some 113, Some 123, Some 127}
      | Fn_send_404 \<Rightarrow> l = Some 163
      | Fn_test \<Rightarrow> l \<in> {Some 51, Some 85}))"

lemmas callback_defs = run_callback_def route_callback_send_file_def route_callback_send_404_def
  route_callback_test_def start_open_def send_head_def async_io_open_file_def async_io_send_buffer_def
  async_io_sendfile_def

lemma send_head_waits:
  assumes "send_head E line th = Some (th', q)"
  shows "\<exists>ctx b. q = Pt_send ctx \<and> th_child th' = Send_buffer_pt (Some 405) b \<and> th_label th' = Some line \<and>
    th_self th' = th_self th \<and> th_client_fd th' = th_client_fd th \<and> sc_client_fd ctx = th_client_fd th \<and>
    th_path th' = th_path th \<and> th_file th' = th_file th"
  using assms
  by (auto simp: send_head_def async_io_send_buffer_def handle_send_submission_def fault_simps)

lemma start_open_waits:
  assumes "start_open E l1 l2 th cache = Some (cache', th', opn, ev)"
  shows "\<exists>t q. th' = Some t \<and> opn = Some q \<and> th_self t = th_self th \<and> th_client_fd t = th_client_fd th \<and>
    th_path t = th_path th \<and>
    (th_child t = Open_file_pt (Some 388) (th_path th) \<and> th_label t = Some l1 \<and> q = Pt_openat (th_path th) \<or>
     (\<exists>ctx b. q = Pt_send ctx \<and> th_child t = Send_buffer_pt (Some 405) b \<and> th_label t = Some l2 \<and>
        sc_client_fd ctx = th_client_fd th))"
  using assms
  by (auto simp: start_open_def async_io_open_file_def fault_simps Let_def
      split: option.splits if_splits dest!: send_head_waits)

lemma run_callback_waits: "run_callback E th cache = Some r \<Longrightarrow> result_waits r"
  by (cases "th_self th")
    (auto simp: run_callback_def route_callback_send_file_def route_callback_test_def
      route_callback_send_404_def async_io_sendfile_def async_io_send_buffer_def result_waits_def thread_waits_def fault_simps
      split: option.splits if_splits dest!: start_open_waits send_head_waits)

lemma resume_caller_waits: "resume_caller E th cache ev = Some r \<Longrightarrow> result_waits r"
  using run_callback_waits by (fastforce simp: resume_caller_def result_waits_def fault_simps)

lemma pt_resume_waits: "thread_waits th q \<Longrightarrow> pt_resume E th cache = Some r \<Longrightarrow> result_waits r"
  by (cases q)
    (auto simp: pt_resume_def thread_waits_def result_waits_def async_io_open_file_def async_io_send_buffer_def
      async_io_sendfile_def fault_simps Let_def split: option.splits if_splits
      dest!: resume_caller_waits run_callback_waits)

section \<open>One operation per protothread\<close>

definition ops_for :: "nat \<Rightarrow> server \<Rightarrow> op list" where
  "ops_for tid s = filter (\<lambda>q. \<exists>p. q = Op_pt tid p) (sv_ops s)"

text \<open>
  The discipline of the protothreads: every one that exists has exactly one operation in
  flight, the one its labels say it waits for, and no operation belongs to one that does not
  exist.  \<open>but\<close> is a protothread whose operation has just completed.
\<close>

definition thread_agrees :: "nat \<Rightarrow> thread option \<Rightarrow> op list \<Rightarrow> bool" where
  "thread_agrees tid th ops =
     (case th of None \<Rightarrow> ops = [] | Some t \<Rightarrow> (\<exists>q. ops = [Op_pt tid q] \<and> thread_waits t q))"

definition threads_ok :: "nat option \<Rightarrow> server \<Rightarrow> bool" where
  "threads_ok but s \<longleftrightarrow>
     (\<forall>tid. if but = Some tid then ops_for tid s = [] \<and> tid < sv_next s
        else thread_agrees tid (sv_threads s tid) (ops_for tid s)) \<and>
     (\<forall>tid\<ge>sv_next s. sv_threads s tid = None)"

lemma thread_agrees_simps [simp]:
  "thread_agrees tid None ops \<longleftrightarrow> ops = []"
  "thread_agrees tid (Some th) ops \<longleftrightarrow> (\<exists>q. ops = [Op_pt tid q] \<and> thread_waits th q)"
  by (simp_all add: thread_agrees_def)

lemma ops_for_ops [simp]: "sv_ops s' = sv_ops s @ new \<Longrightarrow>
    ops_for tid s' = ops_for tid s @ filter (\<lambda>q. \<exists>p. q = Op_pt tid p) new"
  by (simp add: ops_for_def)

lemma install_sel [simp]:
  "sv_cache (install tid (cache, th, opn, ev) s) = cache"
  "sv_threads (install tid (cache, th, opn, ev) s) = (sv_threads s)(tid := th)"
  "sv_next (install tid r s) = sv_next s" "sv_rtr (install tid r s) = sv_rtr s"
  "sv_ops (install tid (cache, th, opn, ev) s) =
     sv_ops s @ map Op_close_only ev @ (case opn of None \<Rightarrow> [] | Some q \<Rightarrow> [Op_pt tid q])"
  by (simp_all add: install_def split_def)

lemma no_close_only: "filter (\<lambda>q. \<exists>p. q = Op_pt tid p) (map Op_close_only ev) = []"
  by (induction ev) auto

lemma install_ok:
  assumes "threads_ok (Some tid) s" and "result_waits r"
  shows "threads_ok None (install tid r s)"
proof -
  obtain cache th opn ev where r: "r = (cache, th, opn, ev)" by (cases r)
  have ops: "ops_for t (install tid r s) =
      ops_for t s @ (if t = tid then (case opn of None \<Rightarrow> [] | Some q \<Rightarrow> [Op_pt tid q]) else [])" for t
    by (simp add: r ops_for_def no_close_only split: option.split)
  show ?thesis
    unfolding threads_ok_def ops
    using assms by (auto simp: threads_ok_def r result_waits_def split: option.splits if_splits)
qed

lemma start_thread_ok:
  assumes "threads_ok None s" and "start_thread E th s = Some s'"
  shows "threads_ok None s'"
proof -
  obtain r where r: "run_callback E th (sv_cache s) = Some r"
    "s' = install (sv_next s) r (s\<lparr>sv_next := Suc (sv_next s)\<rparr>)"
    using assms(2) by (auto simp: start_thread_def fault_simps)
  have "sv_threads s (sv_next s) = None" "ops_for (sv_next s) s = []"
    using assms(1) unfolding threads_ok_def by (auto dest!: spec [of _ "sv_next s"])
  moreover have "ops_for tid (s\<lparr>sv_next := Suc (sv_next s)\<rparr>) = ops_for tid s" for tid by (simp add: ops_for_def)
  ultimately have "threads_ok (Some (sv_next s)) (s\<lparr>sv_next := Suc (sv_next s)\<rparr>)"
    using assms(1) by (auto simp: threads_ok_def)
  from install_ok [OF this run_callback_waits [OF r(1)]] r(2) show ?thesis by simp
qed

lemma start_actions_ok:
  "start_actions E fd acts s = Some s' \<Longrightarrow> threads_ok None s \<Longrightarrow> threads_ok None s'"
  by (induction acts arbitrary: s) (auto simp: fault_simps dest: start_thread_ok)

text \<open>The protothread whose operation has been removed is still there and waits for it.\<close>

lemma resume_thread_ok:
  assumes "threads_ok (Some tid) s" and "\<And>th. sv_threads s tid = Some th \<Longrightarrow> \<exists>q. thread_waits th q"
    and "resume_thread E tid s = Some s'"
  shows "threads_ok None s'"
proof -
  obtain th r where th: "sv_threads s tid = Some th" "pt_resume E th (sv_cache s) = Some r" "s' = install tid r s"
    using assms(3) by (auto simp: resume_thread_def fault_simps)
  obtain q where "thread_waits th q" using assms(2) th(1) by blast
  from install_ok [OF assms(1) pt_resume_waits [OF this th(2)]] th(3) show ?thesis by simp
qed

lemma submit_ok:
  assumes "threads_ok None s" and "\<forall>tid q. opn \<noteq> Op_pt tid q"
  shows "threads_ok None (submit opn s)"
proof -
  have "ops_for tid (submit opn s) = ops_for tid s" for tid
    using assms(2) by (simp add: ops_for_def submit_def)
  moreover have "sv_threads (submit opn s) = sv_threads s" "sv_next (submit opn s) = sv_next s"
    by (simp_all add: submit_def)
  ultimately show ?thesis using assms(1) by (simp add: threads_ok_def)
qed

lemma submit_pt_ok:
  assumes "threads_ok (Some tid) s" and "sv_threads s tid = Some th" and "thread_waits th q"
  shows "threads_ok None (submit (Op_pt tid q) s)"
  unfolding threads_ok_def submit_def ops_for_def
  using assms by (auto simp: threads_ok_def ops_for_def split: option.splits if_splits)

lemma filter_remove_nth:
  assumes "i < length xs"
  shows "filter P xs = filter P (take i xs) @ (if P (xs ! i) then [xs ! i] else []) @ filter P (drop (Suc i) xs)"
    and "filter P (remove_nth i xs) = filter P (take i xs) @ filter P (drop (Suc i) xs)"
  by (subst id_take_nth_drop [OF assms]) (simp_all add: remove_nth_def)

lemma ops_for_removed:
  assumes "i < length (sv_ops s)" and "s1 = s\<lparr>sv_ops := remove_nth i (sv_ops s)\<rparr>"
  shows "sv_ops s ! i = Op_pt tid q \<Longrightarrow> ops_for tid s = [Op_pt tid q'] \<Longrightarrow> ops_for tid s1 = [] \<and> q' = q"
    and "\<forall>q. sv_ops s ! i \<noteq> Op_pt tid q \<Longrightarrow> ops_for tid s1 = ops_for tid s"
  using assms(2) filter_remove_nth [OF assms(1), of "\<lambda>q. \<exists>p. q = Op_pt tid p"]
  by (auto simp: ops_for_def append_eq_Cons_conv)

lemma removed_ok:
  assumes "threads_ok None s" and "i < length (sv_ops s)" and "\<forall>tid q. sv_ops s ! i \<noteq> Op_pt tid q"
  shows "threads_ok None (s\<lparr>sv_ops := remove_nth i (sv_ops s)\<rparr>)"
  using assms ops_for_removed(2) [OF assms(2) refl] by (simp add: threads_ok_def)

lemma ops_forD: "Op_pt tid q \<in> set (sv_ops s) \<Longrightarrow> ops_for tid s \<noteq> []"
  by (force simp: ops_for_def filter_empty_conv)

lemma op_alone:
  assumes "threads_ok None s" and "Op_pt tid q \<in> set (sv_ops s)"
  shows "\<exists>th. sv_threads s tid = Some th \<and> ops_for tid s = [Op_pt tid q] \<and> thread_waits th q"
proof -
  have "Op_pt tid q \<in> set (ops_for tid s)" using assms(2) by (simp add: ops_for_def)
  moreover have "thread_agrees tid (sv_threads s tid) (ops_for tid s)" using assms(1) by (simp add: threads_ok_def)
  ultimately show ?thesis by (auto simp: thread_agrees_def split: option.splits)
qed

lemma op_thread:
  assumes "threads_ok None s" and "Op_pt tid q \<in> set (sv_ops s)"
  shows "\<exists>th. sv_threads s tid = Some th \<and> thread_waits th q"
  using op_alone [OF assms] by blast

lemma removed_pt_ok:
  assumes "threads_ok None s" and "i < length (sv_ops s)" and "sv_ops s ! i = Op_pt tid q"
  obtains th where "sv_threads s tid = Some th" and "thread_waits th q"
    and "threads_ok (Some tid) (s\<lparr>sv_ops := remove_nth i (sv_ops s)\<rparr>)"
proof -
  have ne: "ops_for tid s \<noteq> []" using assms(2,3) ops_forD nth_mem by metis
  from assms(1) have ag: "thread_agrees tid (sv_threads s tid) (ops_for tid s)" by (simp add: threads_ok_def)
  with ne obtain th q' where th: "sv_threads s tid = Some th" "ops_for tid s = [Op_pt tid q']" "thread_waits th q'"
    by (auto simp: thread_agrees_def split: option.splits)
  from th(1) assms(1) have "tid < sv_next s" by (auto simp: threads_ok_def not_le [symmetric])
  moreover have "ops_for tid' (s\<lparr>sv_ops := remove_nth i (sv_ops s)\<rparr>) = ops_for tid' s" if "tid' \<noteq> tid" for tid'
    using ops_for_removed(2) [OF assms(2) refl, of tid'] assms(3) that by simp
  ultimately have "threads_ok (Some tid) (s\<lparr>sv_ops := remove_nth i (sv_ops s)\<rparr>)"
    using assms(1) ops_for_removed(1) [OF assms(2) refl assms(3) th(2)] by (auto simp: threads_ok_def)
  with that th ops_for_removed(1) [OF assms(2) refl assms(3) th(2)] show ?thesis by blast
qed

lemma update_file_ok:
  assumes "threads_ok (Some tid) s" and "sv_threads s tid = Some th" and "thread_waits th q"
    and "update_file tid f s = Some s'"
  shows "threads_ok (Some tid) s'" and "sv_threads s' tid = Some (th\<lparr>th_file := f (th_file th)\<rparr>)"
    and "thread_waits (th\<lparr>th_file := f (th_file th)\<rparr>) q"
proof -
  have s': "s' = s\<lparr>sv_threads := (sv_threads s)(tid \<mapsto> th\<lparr>th_file := f (th_file th)\<rparr>)\<rparr>"
    using assms(2,4) by (simp add: update_file_def)
  have "ops_for t s' = ops_for t s" for t by (simp add: s' ops_for_def)
  moreover have "\<not> sv_next s \<le> tid" using assms(1,2) by (auto simp: threads_ok_def)
  ultimately show "threads_ok (Some tid) s'" using assms(1) by (simp add: threads_ok_def s')
  show "sv_threads s' tid = Some (th\<lparr>th_file := f (th_file th)\<rparr>)" by (simp add: s')
  show "thread_waits (th\<lparr>th_file := f (th_file th)\<rparr>) q" using assms(3) by (simp add: thread_waits_def split: pt_op.splits)
qed

lemma completion_pt_ok:
  assumes "threads_ok (Some tid) s" and "sv_threads s tid = Some th" and "thread_waits th q"
    and "completion_table (Op_pt tid q) c s = Some s'"
  shows "threads_ok None s'"
proof -
  note res = resume_thread_ok [where tid = tid]
  note upd = update_file_ok [OF assms(1-3)]
  have direct: "threads_ok None t" if "resume_thread (cq_env c) tid s = Some t" for t
    using res [OF assms(1) _ that] assms(2,3) by auto
  have wrote: "threads_ok None t" if "update_file tid f s = Some s1" "resume_thread (cq_env c) tid s1 = Some t" for f s1 t
    using res [OF upd(1) [OF that(1)] _ that(2)] upd(2,3) [OF that(1)] by auto
  show ?thesis
  proof (cases q)
    case (Pt_send ctx)
    have "thread_waits th (Pt_send ctx')" for ctx' using assms(3) Pt_send by (simp add: thread_waits_def)
    moreover obtain r where "handle_send_completion (cq_res c) ctx = Some r"
      "(case r of Inl u \<Rightarrow> resume_thread (cq_env c) tid s
        | Inr (ctx', q) \<Rightarrow> Some (submit (Op_pt tid (Pt_send ctx')) s)) = Some s'"
      using Pt_send assms(4) by (auto simp: completion_table_def send_completion_def fault_simps)
    ultimately show ?thesis
      by (auto split: sum.splits prod.splits intro: direct submit_pt_ok [OF assms(1,2)])
  next
    case (Pt_splice_all ctx)
    have "thread_waits th (Pt_splice_all ctx')" for ctx' using assms(3) Pt_splice_all by (simp add: thread_waits_def)
    with Pt_splice_all assms(4) show ?thesis
      by (auto simp: completion_table_def splice_all_completion_def split: option.splits prod.splits
          intro: direct submit_pt_ok [OF assms(1,2)])
  qed (use assms(4) direct wrote in \<open>auto simp: completion_table_def handle_openat_completion_def
        handle_statx_completion_def handle_close_completion_def fault_simps split: if_splits\<close>)
qed

lemma recv_completion_cases:
  assumes "recv_completion c ctx s = Some s'"
  obtains (gone) "handle_recv_completion (pe_alloc (cq_env c)) (cq_res c) (cq_data c) ctx \<in> {Some Recv_dropped, Some Recv_refused}"
      and "s' = s"
  | (more) ctx' q where "handle_recv_completion (pe_alloc (cq_env c)) (cq_res c) (cq_data c) ctx = Some (Recv_more ctx' q)"
      and "s' = submit (Op_recv ctx') s"
  | (request) req fd acts where
      "handle_recv_completion (pe_alloc (cq_env c)) (cq_res c) (cq_data c) ctx = Some (Recv_request req fd)"
      and "router_handle_request (sv_rtr s) req = Some acts" and "start_actions (cq_env c) fd acts s = Some s'"
proof -
  obtain r where r: "handle_recv_completion (pe_alloc (cq_env c)) (cq_res c) (cq_data c) ctx = Some r"
    using assms by (auto simp: recv_completion_def fault_simps)
  show thesis using assms r gone more request by (cases r) (auto simp: recv_completion_def fault_simps)
qed

lemma completion_other_ok:
  assumes "threads_ok None s" and "\<forall>tid q. opn \<noteq> Op_pt tid q" and "completion_table opn c s = Some s'"
  shows "threads_ok None s'"
proof (cases opn)
  case (Op_recv ctx)
  with assms(3) have "recv_completion c ctx s = Some s'" by (simp add: completion_table_def)
  then show ?thesis
    by (cases rule: recv_completion_cases) (auto simp: assms(1) intro!: submit_ok dest: start_actions_ok)
qed (use assms in \<open>auto simp: completion_table_def handle_accept_completion_def handle_accept_submission_def
      handle_close_completion_def fault_simps split: if_splits intro!: submit_ok\<close>)

lemma process_cqe_ok:
  assumes "threads_ok None s" and "process_cqe i c s = Some s'"
  shows "threads_ok None s'"
proof -
  have i: "i < length (sv_ops s)" and
    t: "completion_table (sv_ops s ! i) c (s\<lparr>sv_ops := remove_nth i (sv_ops s)\<rparr>) = Some s'"
    using assms(2) by (auto simp: process_cqe_def split: if_splits)
  show ?thesis
  proof (cases "\<exists>tid q. sv_ops s ! i = Op_pt tid q")
    case True
    then obtain tid q where q: "sv_ops s ! i = Op_pt tid q" by blast
    from removed_pt_ok [OF assms(1) i q] show ?thesis
      using completion_pt_ok t q by (metis (no_types, lifting) server.select_convs(3) server.surjective server.update_convs(5))
  next
    case False
    with completion_other_ok [OF removed_ok [OF assms(1) i] _ t] show ?thesis by blast
  qed
qed

text \<open>In every reachable state each protothread waits for its one operation.\<close>

lemma server_run_ops [simp]:
  "sv_ops (server_run rtr cache) = replicate 8 Op_accept" "sv_threads (server_run rtr cache) = Map.empty"
  "sv_next (server_run rtr cache) = 0" "sv_rtr (server_run rtr cache) = rtr" "sv_cache (server_run rtr cache) = cache"
  by (simp_all add: server_run_def handle_accept_submission_def submit_def eval_nat_numeral)

lemma reachable_threads_ok: "reachable krn (server_run rtr cache) s \<Longrightarrow> threads_ok None s"
proof (induction "server_run rtr cache" s rule: reachable.induct)
  case here
  show ?case by (simp add: threads_ok_def ops_for_def)
next
  case (step t u)
  then show ?case by (auto elim!: server_stepE intro: process_cqe_ok)
qed

lemma process_reachable:
  "async_io_process cs s = Some s' \<Longrightarrow> \<forall>(i, c)\<in>set cs. \<forall>q. krn q c \<Longrightarrow> reachable krn s0 s \<Longrightarrow> reachable krn s0 s'"
proof (induction cs arbitrary: s)
  case (Cons ic cs)
  obtain i c where ic: "ic = (i, c)" by (cases ic)
  from Cons.prems(1) obtain t where t: "process_cqe i c s = Some t" "async_io_process cs t = Some s'"
    by (auto simp: ic fault_simps)
  from t(1) have "i < length (sv_ops s)" by (simp add: process_cqe_def split: if_splits)
  with t(1) Cons.prems(2) have "server_step krn s t" by (auto simp: ic intro: completes)
  with Cons.prems(3) have "reachable krn s0 t" by (rule reachable.step)
  from Cons.IH [OF t(2) _ this] Cons.prems(2) show ?case by simp
qed simp

section \<open>The accepts in flight\<close>

definition accepts :: "server \<Rightarrow> nat" where
  "accepts s = length (filter (\<lambda>q. q = Op_accept) (sv_ops s))"

text \<open>The accepts that have failed during a run.\<close>

fun failed_accepts :: "(nat \<times> cqe) list \<Rightarrow> server \<Rightarrow> nat" where
  "failed_accepts [] s = 0"
| "failed_accepts ((i, c) # cs) s =
     (if i < length (sv_ops s) \<and> sv_ops s ! i = Op_accept \<and> cq_res c < 0 then 1 else 0) +
     (case process_cqe i c s of None \<Rightarrow> 0 | Some s' \<Rightarrow> failed_accepts cs s')"

lemma accepts_install: "accepts (install tid r s) = accepts s"
proof -
  have "filter (\<lambda>q. q = Op_accept) (map Op_close_only ev) = []" for ev by (induction ev) auto
  then show ?thesis by (cases r) (simp add: accepts_def split: option.split)
qed

lemma accepts_same [simp]:
  "accepts (s\<lparr>sv_threads := ths\<rparr>) = accepts s" "accepts (s\<lparr>sv_next := n\<rparr>) = accepts s"
  "accepts (submit q s) = accepts s + (if q = Op_accept then 1 else 0)"
  by (simp_all add: accepts_def submit_def)

lemma accepts_resume: "resume_thread E tid s = Some s' \<Longrightarrow> accepts s' = accepts s"
  by (auto simp: resume_thread_def fault_simps accepts_install)

lemma accepts_update: "update_file tid f s = Some s' \<Longrightarrow> accepts s' = accepts s"
  by (auto simp: update_file_def fault_simps)

lemma accepts_start: "start_actions E fd acts s = Some s' \<Longrightarrow> accepts s' = accepts s"
  by (induction acts arbitrary: s) (auto simp: start_thread_def fault_simps accepts_install)

lemma accepts_completion:
  assumes "completion_table opn c s = Some s'"
  shows "accepts s' = accepts s + (if opn = Op_accept \<and> 0 \<le> cq_res c then 1 else 0)"
proof (cases opn)
  case (Op_recv ctx)
  with assms have "recv_completion c ctx s = Some s'" by (simp add: completion_table_def)
  then show ?thesis using Op_recv by (cases rule: recv_completion_cases) (auto dest: accepts_start)
next
  case (Op_pt tid q)
  show ?thesis
  proof (cases q)
    case (Pt_send ctx)
    then obtain r where "handle_send_completion (cq_res c) ctx = Some r"
      "(case r of Inl u \<Rightarrow> resume_thread (cq_env c) tid s
        | Inr (ctx', q) \<Rightarrow> Some (submit (Op_pt tid (Pt_send ctx')) s)) = Some s'"
      using assms Op_pt by (auto simp: completion_table_def send_completion_def fault_simps)
    then show ?thesis using Op_pt by (auto split: sum.splits dest: accepts_resume)
  qed (use assms Op_pt in \<open>auto simp: completion_table_def handle_openat_completion_def handle_statx_completion_def
      splice_all_completion_def handle_close_completion_def fault_simps split: if_splits option.splits
      dest!: accepts_resume accepts_update\<close>)
qed (use assms in \<open>auto simp: completion_table_def handle_accept_completion_def handle_accept_submission_def
    handle_close_completion_def fault_simps split: if_splits\<close>)

lemma accepts_process:
  assumes "process_cqe i c s = Some s'"
  shows "accepts s' + (if sv_ops s ! i = Op_accept \<and> cq_res c < 0 then 1 else 0) = accepts s" and "i < length (sv_ops s)"
proof -
  let ?s = "s\<lparr>sv_ops := remove_nth i (sv_ops s)\<rparr>"
  show i: "i < length (sv_ops s)" using assms by (simp add: process_cqe_def split: if_splits)
  have "accepts s = accepts ?s + (if sv_ops s ! i = Op_accept then 1 else 0)"
    using filter_remove_nth [OF i, of "\<lambda>q. q = Op_accept"] by (auto simp: accepts_def)
  moreover have "completion_table (sv_ops s ! i) c ?s = Some s'" using assms i by (simp add: process_cqe_def)
  from accepts_completion [OF this] have "accepts s' = accepts ?s + (if sv_ops s ! i = Op_accept \<and> 0 \<le> cq_res c then 1 else 0)" .
  ultimately show "accepts s' + (if sv_ops s ! i = Op_accept \<and> cq_res c < 0 then 1 else 0) = accepts s" by auto
qed

lemma accepts_run: "async_io_process cs s = Some s' \<Longrightarrow> accepts s' + failed_accepts cs s = accepts s"
proof (induction cs arbitrary: s)
  case (Cons ic cs)
  obtain i c where ic: "ic = (i, c)" by (cases ic)
  from Cons.prems obtain t where t: "process_cqe i c s = Some t" "async_io_process cs t = Some s'"
    by (auto simp: ic fault_simps)
  from Cons.IH [OF t(2)] accepts_process [OF t(1)] t(1) show ?case by (simp add: ic split: if_splits)
qed simp

section \<open>Properties\<close>

text \<open>
  C15. Eight accepts are submitted at the start and only an accept that succeeds is submitted
  again: over any run, the accepts in flight and the accepts that have failed add up to eight.
  After eight failures the server accepts nobody any more.
\<close>

theorem accepts_never_recovered:
  assumes "async_io_process cs (server_run rtr cache) = Some s"
  shows "accepts s + failed_accepts cs (server_run rtr cache) = 8"
  using accepts_run [OF assms] by (simp add: accepts_def)

abbreviation example_env :: pt_env where
  "example_env \<equiv> \<lparr>pe_alloc = std_alloc, pe_buf = replicate SDS_LLSTR_SIZE NUL, pe_junk = zero_file, pe_pipe = Some (8, 9)\<rparr>"

abbreviation completed :: "int \<Rightarrow> cqe" where
  "completed res \<equiv> \<lparr>cq_res = res, cq_data = [], cq_size = 0, cq_env = example_env\<rparr>"

theorem accepts_never_recovered_witness:
  "\<forall>rtr cache. \<exists>s. async_io_process (replicate 8 (0, completed (- 24))) (server_run rtr cache) = Some s \<and>
     accepts s = 0 \<and> failed_accepts (replicate 8 (0, completed (- 24))) (server_run rtr cache) = 8"
proof (intro allI)
  fix rtr cache
  have run: "async_io_process (replicate 8 (0, completed (- 24))) (server_run rtr cache) =
      Some ((server_run rtr cache)\<lparr>sv_ops := []\<rparr>)"
    by (simp add: eval_nat_numeral process_cqe_def completion_table_def handle_accept_completion_def remove_nth_def)
  moreover have "accepts ((server_run rtr cache)\<lparr>sv_ops := []\<rparr>) = 0" by (simp add: accepts_def)
  ultimately show "\<exists>s. async_io_process (replicate 8 (0, completed (- 24))) (server_run rtr cache) = Some s \<and>
      accepts s = 0 \<and> failed_accepts (replicate 8 (0, completed (- 24))) (server_run rtr cache) = 8"
    using accepts_never_recovered [OF run] by auto
qed

end
