(* ===== verification/Program.thy ===== *)
theory Program
  imports EventLoop
begin

text \<open>
  The program: \<open>main\<close> of \<open>main.c\<close> up to the loop it never leaves, when the ring can be set up.
  The system calls of the start and what comes of their failures are in \<open>Startup\<close>.
\<close>

text \<open>The argument is the content of the public directory, which \<open>router_create\<close> lists.\<close>

definition main_program :: "dirent list option \<Rightarrow> server option" where
  "main_program dir = do {
     cache \<leftarrow> async_io_file_cache;
     rtr \<leftarrow> router_create dir;
     rt_test \<leftarrow> route_create http_method_get ''/test'' (Some Route_callback_test);
     rtr \<leftarrow> router_add_route rtr rt_test;
     Some (server_run rtr cache)
   }"

lemma main_program_parts:
  "main_program dir = do {
     cache \<leftarrow> async_io_file_cache;
     rtr \<leftarrow> router_setup dir main_routes;
     Some (server_run rtr cache)
   }"
  by (cases "async_io_file_cache"; cases "router_create dir :: handler router_t option")
    (simp_all add: main_program_def router_setup_def Option.bind_assoc)

lemma main_programE:
  assumes "main_program dir = Some s"
  obtains cache rtr where "async_io_file_cache = Some cache" "router_setup dir main_routes = Some rtr" "s = server_run rtr cache"
  using assms by (auto simp: main_program_parts fault_simps)

lemma file_cache_made:
  "\<exists>cache. async_io_file_cache = Some cache \<and> lru_holds cache Map.empty \<and> lc_size cache = 16 \<and> 16 \<le> hm_unused (lc_hmap cache)"
  using lru_create_total [of 16 280, where ?'v = file_t] by (auto simp: async_io_file_cache_def)

lemma main_router_made:
  assumes "readable es" and "length (files_under es ''/'') \<le> 7"
  shows "\<exists>rtr. router_setup (Some es) main_routes = Some rtr"
proof -
  from router_create_total [OF assms] obtain rtr :: "handler router_t" where
    r: "router_create (Some es) = Some rtr" by blast
  obtain t where "register_all trie_create main_routes = Some t" using main_table by blast
  with r router_create_spec(2) [OF r] show ?thesis
    by (auto simp: router_setup_def router_add_route_def fault_simps)
qed

lemma server_run_sel [simp]:
  "sv_rtr (server_run rtr cache) = rtr" "sv_cache (server_run rtr cache) = cache"
  "sv_threads (server_run rtr cache) = Map.empty" "sv_ops (server_run rtr cache) = replicate 8 Op_accept"
  by (simp_all add: server_run_def handle_accept_submission_def submit_def eval_nat_numeral)

text \<open>The server that starts, for a public directory that can be read.\<close>

lemma main_program_starts:
  assumes "readable es"
  shows "case main_program (Some es) of
      None \<Rightarrow> 7 < length (files_under es ''/'')
    | Some s \<Rightarrow> length (files_under es ''/'') \<le> 7 \<and>
        sv_ops s = replicate 8 Op_accept \<and> sv_threads s = Map.empty \<and>
        lru_holds (sv_cache s) Map.empty \<and> lc_size (sv_cache s) = 16 \<and>
        (files_under es ''/'' \<noteq> [] \<longrightarrow>
          dom (hm_map (public_directory_hmap (sv_rtr s))) = set (files_under es ''/'')) \<and>
        (\<forall>m uri. m \<noteq> http_method_unknown \<longrightarrow>
          trie_find_handler (routing_table (sv_rtr s)) m uri =
            Some (if m = http_method_get \<and> (\<exists>rest. uri_segs uri = '''' # ''test'' # rest)
              then Some Route_callback_test else None))"
proof (cases "main_program (Some es)")
  case None
  obtain cache where cache: "async_io_file_cache = Some cache" using file_cache_made by blast
  have "router_setup (Some es) main_routes = None"
    using None by (cases "router_setup (Some es) main_routes") (simp_all add: main_program_parts cache)
  then have "\<not> length (files_under es ''/'') \<le> 7" using main_router_made [OF assms] by auto
  with None show ?thesis by simp
next
  case (Some s)
  then obtain cache rtr where s: "async_io_file_cache = Some cache" "router_setup (Some es) main_routes = Some rtr"
    "s = server_run rtr cache" by (rule main_programE)
  note files = router_setup_files [OF s(2)]
  from file_cache_made have "lru_holds cache Map.empty" "lc_size cache = 16" by (auto simp: s(1))
  with Some s(3) files show ?thesis by (auto simp: main_handler [OF files(2)])
qed

end
