(* ===== verification/Serving.thy ===== *)
theory Serving
  imports Program
begin

text \<open>
  What the running server guarantees: which files it opens, when it faults, which connections
  it forgets, and what a client receives.  The invariants are instances of one locale: what a
  protothread, an operation in flight and the file cache must satisfy, preserved by each
  completion the kernel can choose.
\<close>

section \<open>Invariants of the server\<close>

text \<open>What a protothread that has run until its next wait or its end leaves behind.\<close>

definition result_meets ::
  "(thread \<Rightarrow> bool) \<Rightarrow> (op \<Rightarrow> bool) \<Rightarrow> (file_cache \<Rightarrow> bool) \<Rightarrow> nat \<Rightarrow> pt_result \<Rightarrow> bool" where
  "result_meets thr opk cok tid r =
     (case r of (cache, th, opn, ev) \<Rightarrow>
        cok cache \<and> (\<forall>t. th = Some t \<longrightarrow> thr t) \<and> (\<forall>q. opn = Some q \<longrightarrow> opk (Op_pt tid q)))"

text \<open>A relation between a protothread and the operation it waits for.\<close>

definition result_rel :: "(thread \<Rightarrow> pt_op \<Rightarrow> bool) \<Rightarrow> pt_result \<Rightarrow> bool" where
  "result_rel rel r = (case r of (cache, th, opn, ev) \<Rightarrow> \<forall>t q. th = Some t \<longrightarrow> opn = Some q \<longrightarrow> rel t q)"

lemma result_rel_True [simp]: "result_rel (\<lambda>_ _. True) r"
  by (simp add: result_rel_def split_def)

text \<open>No operation of a protothread is in flight.\<close>

definition waits_not :: "nat \<Rightarrow> server \<Rightarrow> bool" where
  "waits_not tid s \<longleftrightarrow> (\<forall>q. Op_pt tid q \<notin> set (sv_ops s))"

lemma waits_not_ops: "ops_for tid s = [] \<Longrightarrow> waits_not tid s"
  using ops_forD by (auto simp: waits_not_def)

text \<open>What the kernel has written into the file of the protothread when its operation completes.\<close>

definition written :: "pt_op \<Rightarrow> cqe \<Rightarrow> thread \<Rightarrow> thread" where
  "written q c th =
     (if cq_res c < 0 then th
      else case q of
        Pt_openat p \<Rightarrow> th\<lparr>th_file := (th_file th)\<lparr>ft_fd := cq_res c\<rparr>\<rparr>
      | Pt_statx fd \<Rightarrow> th\<lparr>th_file := (th_file th)\<lparr>ft_size := cq_size c\<rparr>\<rparr>
      | _ \<Rightarrow> th)"

lemma thread_waits_file [simp]: "thread_waits (th\<lparr>th_file := f\<rparr>) q = thread_waits th q"
  by (simp add: thread_waits_def split: pt_op.split)

lemma written_sel [simp]:
  "th_path (written q c th) = th_path th" "th_child (written q c th) = th_child th"
  "th_self (written q c th) = th_self th" "th_client_fd (written q c th) = th_client_fd th"
  "th_label (written q c th) = th_label th" "ft_name (th_file (written q c th)) = ft_name (th_file th)"
  "thread_waits (written q c th) p = thread_waits th p"
  by (simp_all add: written_def split: pt_op.split)

text \<open>A completion of a protothread's operation resumes it, or submits the rest of the transfer.\<close>

lemma completion_pt_cases:
  assumes "completion_table (Op_pt tid q) c s = Some s'" and "sv_threads s tid = Some th"
  obtains
    (resumes) "resume_thread (cq_env c) tid (s\<lparr>sv_threads := (sv_threads s)(tid \<mapsto> written q c th)\<rparr>) = Some s'"
      and "\<forall>sc. q = Pt_send sc \<longrightarrow> handle_send_completion (cq_res c) sc = Some (Inl ())"
      and "\<forall>sp. q = Pt_splice_all sp \<longrightarrow> handle_splice_all_completion (cq_res c) sp = None"
  | (sends) sc sc' e where "q = Pt_send sc" and "handle_send_completion (cq_res c) sc = Some (Inr (sc', e))"
      and "s' = submit (Op_pt tid (Pt_send sc')) s"
  | (splices) sp sp' e where "q = Pt_splice_all sp" and "handle_splice_all_completion (cq_res c) sp = Some (sp', e)"
      and "s' = submit (Op_pt tid (Pt_splice_all sp')) s"
proof -
  have same: "s\<lparr>sv_threads := (sv_threads s)(tid \<mapsto> th)\<rparr> = s"
    using assms(2) fun_upd_triv [of "sv_threads s" tid] by (cases s) (simp flip: assms(2))
  show thesis
  proof (cases q)
    case (Pt_send sc)
    obtain r where "handle_send_completion (cq_res c) sc = Some r"
      "(case r of Inl u \<Rightarrow> resume_thread (cq_env c) tid s
        | Inr (ctx', q) \<Rightarrow> Some (submit (Op_pt tid (Pt_send ctx')) s)) = Some s'"
      using assms(1) Pt_send by (auto simp: completion_table_def send_completion_def fault_simps)
    with Pt_send resumes sends show thesis by (cases r) (auto simp: written_def same)
  next
    case (Pt_splice_all sp)
    with assms(1) resumes splices show thesis
      by (cases "handle_splice_all_completion (cq_res c) sp")
        (auto simp: completion_table_def splice_all_completion_def written_def same)
  qed (use assms resumes in \<open>auto simp: completion_table_def handle_openat_completion_def
        handle_statx_completion_def handle_close_completion_def update_file_def written_def same split: if_splits\<close>)
qed

locale server_invariant =
  fixes rtr :: "handler router_t" and krn :: "op \<Rightarrow> cqe \<Rightarrow> bool"
    and thr :: "thread \<Rightarrow> bool" and opk :: "op \<Rightarrow> bool" and cok :: "file_cache \<Rightarrow> bool"
    and rel :: "thread \<Rightarrow> pt_op \<Rightarrow> bool"
  assumes idle: "opk Op_accept" "opk (Op_close_only fd)"
    and accepted: "krn Op_accept c \<Longrightarrow> 0 \<le> cq_res c \<Longrightarrow>
      handle_recv_submission (pe_alloc (cq_env c)) (cq_res c) None = Some (ctx, e) \<Longrightarrow> opk (Op_recv ctx)"
    and received: "opk (Op_recv ctx) \<Longrightarrow> krn (Op_recv ctx) c \<Longrightarrow>
      handle_recv_completion (pe_alloc (cq_env c)) (cq_res c) (cq_data c) ctx = Some (Recv_more ctx' e) \<Longrightarrow>
      opk (Op_recv ctx')"
    and started: "opk (Op_recv ctx) \<Longrightarrow> krn (Op_recv ctx) c \<Longrightarrow>
      handle_recv_completion (pe_alloc (cq_env c)) (cq_res c) (cq_data c) ctx = Some (Recv_request req fd) \<Longrightarrow>
      router_handle_request rtr req = Some acts \<Longrightarrow> act \<in> set acts \<Longrightarrow> cok cache \<Longrightarrow>
      run_callback (cq_env c) (action_thread fd act) cache = Some r \<Longrightarrow> result_meets thr opk cok tid r"
    and resumed: "thr th \<Longrightarrow> opk (Op_pt tid q) \<Longrightarrow> rel th q \<Longrightarrow> thread_waits th q \<Longrightarrow> krn (Op_pt tid q) c \<Longrightarrow>
      cok cache \<Longrightarrow> pt_resume (cq_env c) (written q c th) cache = Some r \<Longrightarrow> result_meets thr opk cok tid r"
    and sent: "opk (Op_pt tid (Pt_send sc)) \<Longrightarrow> krn (Op_pt tid (Pt_send sc)) c \<Longrightarrow>
      handle_send_completion (cq_res c) sc = Some (Inr (sc', e)) \<Longrightarrow> opk (Op_pt tid (Pt_send sc'))"
    and spliced: "opk (Op_pt tid (Pt_splice_all sp)) \<Longrightarrow>
      handle_splice_all_completion (cq_res c) sp = Some (sp', e) \<Longrightarrow> opk (Op_pt tid (Pt_splice_all sp'))"
    and started_rel: "krn (Op_recv ctx) c \<Longrightarrow> cok cache \<Longrightarrow>
      run_callback (cq_env c) (action_thread fd act) cache = Some r \<Longrightarrow> result_rel rel r"
    and resumed_rel: "thr th \<Longrightarrow> opk (Op_pt tid q) \<Longrightarrow> rel th q \<Longrightarrow> thread_waits th q \<Longrightarrow> krn (Op_pt tid q) c \<Longrightarrow>
      cok cache \<Longrightarrow> pt_resume (cq_env c) (written q c th) cache = Some r \<Longrightarrow> result_rel rel r"
    and sent_rel: "rel th (Pt_send sc) \<Longrightarrow> krn (Op_pt tid (Pt_send sc)) c \<Longrightarrow> handle_send_completion (cq_res c) sc = Some (Inr (sc', e)) \<Longrightarrow>
      rel th (Pt_send sc')"
    and spliced_rel: "rel th (Pt_splice_all sp) \<Longrightarrow> krn (Op_pt tid (Pt_splice_all sp)) c \<Longrightarrow> handle_splice_all_completion (cq_res c) sp = Some (sp', e) \<Longrightarrow>
      rel th (Pt_splice_all sp')"
begin

definition inv :: "server \<Rightarrow> bool" where
  "inv s \<longleftrightarrow> sv_rtr s = rtr \<and> cok (sv_cache s) \<and> (\<forall>tid th. sv_threads s tid = Some th \<longrightarrow> thr th) \<and> (\<forall>q\<in>set (sv_ops s). opk q) \<and>
     (\<forall>tid q. Op_pt tid q \<in> set (sv_ops s) \<longrightarrow> (\<forall>th. sv_threads s tid = Some th \<longrightarrow> rel th q))"

lemma inv_install:
  assumes "inv s" and "result_meets thr opk cok tid r" and "result_rel rel r" and "waits_not tid s"
  shows "inv (install tid r s)"
  using assms by (cases r)
    (auto simp: inv_def result_meets_def result_rel_def waits_not_def install_def idle split: option.splits if_splits)

lemma inv_submit: "inv s \<Longrightarrow> opk q \<Longrightarrow> \<forall>tid p. q \<noteq> Op_pt tid p \<Longrightarrow> inv (submit q s)"
  by (auto simp: inv_def submit_def)

lemma inv_submit_pt:
  "inv s \<Longrightarrow> opk (Op_pt tid q) \<Longrightarrow> sv_threads s tid = Some th \<Longrightarrow> rel th q \<Longrightarrow> inv (submit (Op_pt tid q) s)"
  by (auto simp: inv_def submit_def)

lemma inv_start:
  assumes "opk (Op_recv ctx)" and "krn (Op_recv ctx) c"
    and "handle_recv_completion (pe_alloc (cq_env c)) (cq_res c) (cq_data c) ctx = Some (Recv_request req fd)"
    and "router_handle_request rtr req = Some acts"
  shows "set as \<subseteq> set acts \<Longrightarrow> inv s \<Longrightarrow> threads_ok None s \<Longrightarrow> start_actions (cq_env c) fd as s = Some s' \<Longrightarrow> inv s'"
proof (induction as arbitrary: s)
  case (Cons a as)
  let ?s = "s\<lparr>sv_next := Suc (sv_next s)\<rparr>"
  from Cons.prems(4) obtain r where r: "run_callback (cq_env c) (action_thread fd a) (sv_cache s) = Some r"
    "start_actions (cq_env c) fd as (install (sv_next s) r ?s) = Some s'"
    by (auto simp: start_thread_def fault_simps)
  have "ops_for (sv_next s) s = []" using Cons.prems(3) by (auto simp: threads_ok_def dest!: spec [of _ "sv_next s"])
  then have "waits_not (sv_next s) ?s" using waits_not_ops [of "sv_next s" s] by (simp add: waits_not_def)
  moreover have "cok (sv_cache s)" "inv ?s" using Cons.prems(2) by (simp_all add: inv_def)
  ultimately have "inv (install (sv_next s) r ?s)"
    using started [OF assms _ _ r(1)] started_rel [OF assms(2) _ r(1)] Cons.prems(1) inv_install by simp
  moreover have "threads_ok None (install (sv_next s) r ?s)"
    using start_thread_ok [OF Cons.prems(3), of "cq_env c" "action_thread fd a"] r(1) by (simp add: start_thread_def)
  ultimately show ?case using Cons.IH [OF _ _ _ r(2)] Cons.prems(1) by simp
qed simp

lemma inv_resume:
  assumes inv: "inv s" and th: "sv_threads s tid = Some th" and op: "opk (Op_pt tid q)" "rel th q"
    and w: "thread_waits th q" and k: "krn (Op_pt tid q) c" and alone: "waits_not tid s"
    and res: "resume_thread (cq_env c) tid (s\<lparr>sv_threads := (sv_threads s)(tid \<mapsto> written q c th)\<rparr>) = Some s'"
  shows "inv s'"
proof -
  obtain r where r: "pt_resume (cq_env c) (written q c th) (sv_cache s) = Some r"
    "s' = install tid r (s\<lparr>sv_threads := (sv_threads s)(tid \<mapsto> written q c th)\<rparr>)"
    using res by (auto simp: resume_thread_def fault_simps)
  then have s': "s' = install tid r s" by (cases r) (simp add: install_def)
  have "thr th" "cok (sv_cache s)" using inv th by (auto simp: inv_def)
  from resumed [OF this(1) op w k this(2) r(1)] resumed_rel [OF this(1) op w k this(2) r(1)]
  show ?thesis unfolding s' using inv alone by (intro inv_install)
qed

lemma inv_pt:
  assumes inv: "inv s" and th: "sv_threads s tid = Some th" and w: "thread_waits th q"
    and q: "opk (Op_pt tid q)" and k: "krn (Op_pt tid q) c"
    and t: "completion_table (Op_pt tid q) c s = Some s'" and alone: "waits_not tid s" and rel: "rel th q"
  shows "inv s'"
  using t th
proof (cases rule: completion_pt_cases)
  case resumes
  then show ?thesis using inv_resume [OF inv th q rel w k alone] by blast
next
  case (sends sc sc' e)
  with inv_submit_pt [OF inv _ th] sent sent_rel q k rel show ?thesis by blast
next
  case (splices sp sp' e)
  with inv_submit_pt [OF inv _ th] spliced spliced_rel q k rel show ?thesis by blast
qed

lemma inv_other:
  assumes inv: "inv s" and q: "opk opn" and k: "krn opn c" and "\<forall>tid q. opn \<noteq> Op_pt tid q"
    and "completion_table opn c s = Some s'" and ok: "threads_ok None s"
  shows "inv s'"
proof (cases opn)
  case (Op_recv ctx)
  with assms(5) have "recv_completion c ctx s = Some s'" by (simp add: completion_table_def)
  then show ?thesis
  proof (cases rule: recv_completion_cases)
    case (request req fd acts)
    moreover have "sv_rtr s = rtr" using inv by (simp add: inv_def)
    ultimately show ?thesis using inv_start [of ctx c req fd acts acts s s'] q k inv Op_recv ok by simp
  qed (use inv q k Op_recv received in \<open>auto intro: inv_submit\<close>)
qed (use assms in \<open>auto simp: completion_table_def handle_accept_completion_def handle_accept_submission_def
    handle_close_completion_def fault_simps split: if_splits intro!: inv_submit idle dest: accepted\<close>)

lemma inv_process:
  assumes "inv s" and "threads_ok None s" and i: "i < length (sv_ops s)" and k: "krn (sv_ops s ! i) c"
    and "process_cqe i c s = Some s'"
  shows "inv s'"
proof -
  let ?s = "s\<lparr>sv_ops := remove_nth i (sv_ops s)\<rparr>"
  have t: "completion_table (sv_ops s ! i) c ?s = Some s'" using assms(5) i by (simp add: process_cqe_def)
  have sub: "set (remove_nth i (sv_ops s)) \<subseteq> set (sv_ops s)"
    by (auto simp: remove_nth_def dest: in_set_takeD in_set_dropD)
  then have inv: "inv ?s" using assms(1) by (auto simp: inv_def)
  have q: "opk (sv_ops s ! i)" using assms(1) i by (simp add: inv_def)
  show ?thesis
  proof (cases "\<exists>tid q. sv_ops s ! i = Op_pt tid q")
    case True
    then obtain tid q where o: "sv_ops s ! i = Op_pt tid q" by blast
    obtain th where th: "sv_threads s tid = Some th" "thread_waits th q" "threads_ok (Some tid) ?s"
      using removed_pt_ok [OF assms(2) i o] by metis
    then have "waits_not tid ?s" using waits_not_ops [of tid ?s] unfolding threads_ok_def by (auto dest!: spec [of _ tid])
    moreover have "rel th q" using assms(1) th(1) o i nth_mem [OF i] by (auto simp: inv_def)
    ultimately show ?thesis using inv_pt [OF inv, of tid th q c s'] q k t o th by simp
  qed (use inv_other [OF inv q k _ t] removed_ok [OF assms(2) i] in blast)
qed

lemma inv_reachable: "reachable krn s s' \<Longrightarrow> threads_ok None s \<Longrightarrow> inv s \<Longrightarrow> inv s' \<and> threads_ok None s'"
  by (induction rule: reachable.induct) (auto elim!: server_stepE intro: inv_process process_cqe_ok)

end

section \<open>Resuming a protothread\<close>

text \<open>
  A resumption advances the opening of the file, or ends the child and enters the callback, or
  ends the callback.
\<close>

lemma pt_resume_cases [consumes 2]:
  assumes "thread_waits th q" and "pt_resume E th cache = Some r"
  obtains (opened) p cache' where "th_child th = Open_file_pt (Some 388) p" and "q = Pt_openat p"
      and "LRU_cache_get cache p = Some (cache', None)"
      and "r = (cache', Some (th\<lparr>th_child := Open_file_pt (Some 389) p\<rparr>), Some (Pt_statx (ft_fd (th_file th))), [])"
  | (called) th' cache' ev c t q' ev' where
      "(\<exists>l p file. th_child th = Open_file_pt (Some l) p \<and>
          (q = Pt_openat p \<and> l = 388 \<or> (\<exists>fd. q = Pt_statx fd) \<and> l = 389) \<and>
          async_io_open_file (Some l) p (th_file th) cache = Some (cache', file, ev, None) \<and>
          th' = th\<lparr>th_file := file, th_child := No_child\<rparr>) \<or>
        th' = th\<lparr>th_child := No_child\<rparr> \<and> cache' = cache \<and> ev = [] \<and> (\<forall>l p. th_child th \<noteq> Open_file_pt l p)"
      and "run_callback E th' cache' = Some (c, t, q', ev')" and "r = (c, t, q', ev @ ev')"
  | (ended) fd where "q = Pt_close fd" and "r = (cache, None, None, [])"
proof -
  have caller: thesis if "resume_caller E th1 cache1 ev1 = Some r"
    "(\<exists>l p file. th_child th = Open_file_pt (Some l) p \<and>
        (q = Pt_openat p \<and> l = 388 \<or> (\<exists>fd. q = Pt_statx fd) \<and> l = 389) \<and>
        async_io_open_file (Some l) p (th_file th) cache = Some (cache1, file, ev1, None) \<and> th1 = th\<lparr>th_file := file\<rparr>) \<or>
      th1 = th \<and> cache1 = cache \<and> ev1 = [] \<and> (\<forall>l p. th_child th \<noteq> Open_file_pt l p)" for th1 cache1 ev1
  proof (cases "run_callback E (th1\<lparr>th_child := No_child\<rparr>) cache1")
    case (Some cr)
    obtain c t q' ev' where cr: "cr = (c, t, q', ev')" by (cases cr)
    have "r = (c, t, q', ev1 @ ev')" using that(1) Some cr by (simp add: resume_caller_def)
    with called [of cache1 ev1 "th1\<lparr>th_child := No_child\<rparr>" c t q' ev'] Some cr that(2) show thesis by auto
  qed (use that(1) in \<open>simp add: resume_caller_def\<close>)
  have opens: thesis if at: "th_child th = Open_file_pt (Some l) p"
    "q = Pt_openat p \<and> l = 388 \<or> (\<exists>fd. q = Pt_statx fd) \<and> l = 389" for l p
  proof -
    obtain cache' fl ev w where o: "async_io_open_file (Some l) p (th_file th) cache = Some (cache', fl, ev, w)"
      using assms(2) at(1) by (auto simp: pt_resume_def fault_simps)
    show thesis
    proof (cases w)
      case None
      with assms(2) at o show thesis by (intro caller [of "th\<lparr>th_file := fl\<rparr>" cache' ev]) (auto simp: pt_resume_def)
    next
      case (Some lq)
      then have l: "l = 388" "LRU_cache_get cache p = Some (cache', None)" "fl = th_file th" "ev = []"
        "lq = (389, Pt_statx (ft_fd (th_file th)))"
        using o at(2) by (auto simp: async_io_open_file_def fault_simps split: option.splits if_splits)
      moreover have "th\<lparr>th_file := th_file th\<rparr> = th" by simp
      ultimately have "r = (cache', Some (th\<lparr>th_child := Open_file_pt (Some 389) p\<rparr>), Some (Pt_statx (ft_fd (th_file th))), [])"
        using assms(2) at(1) o Some by (simp add: pt_resume_def Let_def)
      with at l opened show thesis by simp
    qed
  qed
  show thesis
  proof (cases q)
    case (Pt_openat p)
    with assms(1) opens show thesis by (auto simp: thread_waits_def)
  next
    case (Pt_statx fd)
    with assms(1) opens show thesis by (auto simp: thread_waits_def)
  next
    case (Pt_close fd)
    with assms ended show thesis by (auto simp: thread_waits_def pt_resume_def run_callback_def route_callback_send_file_def)
  qed (use assms caller [of th cache "[]"] in \<open>auto simp: thread_waits_def pt_resume_def async_io_send_buffer_def
      async_io_sendfile_def\<close>)
qed

section \<open>Which files are opened\<close>

abbreviation TEST_PATH :: bytes where "TEST_PATH \<equiv> ''assets/public/test.html''"

text \<open>The paths the router can hand to a file callback, and that of the handler of \<open>main.c\<close>.\<close>

definition served_paths :: "handler router_t \<Rightarrow> bytes set" where
  "served_paths rtr =
     insert TEST_PATH {p. \<exists>req acts. router_handle_request rtr req = Some acts \<and> Send_file p \<in> set acts}"

lemma served_paths_main:
  assumes "router_setup (Some es) specs = Some rtr"
  shows "served_paths rtr \<subseteq> insert TEST_PATH (insert INDEX_PATH ((@) PUBLIC_DIR ` set (files_under es ''/'')))"
  using router_paths [OF assms] by (auto simp: served_paths_def)

text \<open>A protothread and the child that opens its file agree on the path, and it is served.\<close>

definition path_thread :: "bytes set \<Rightarrow> thread \<Rightarrow> bool" where
  "path_thread P th \<longleftrightarrow> th_path th \<in> P \<and> (\<forall>l p. th_child th = Open_file_pt l p \<longrightarrow> p = th_path th)"

definition path_op :: "bytes set \<Rightarrow> op \<Rightarrow> bool" where
  "path_op P q \<longleftrightarrow> (\<forall>tid p. q = Op_pt tid (Pt_openat p) \<longrightarrow> p \<in> P)"

lemma path_start_open:
  "th_path th \<in> P \<Longrightarrow> start_open E l1 l2 th cache = Some r \<Longrightarrow>
   result_meets (path_thread P) (path_op P) (\<lambda>_. True) tid r"
  by (cases r) (auto simp: result_meets_def path_thread_def path_op_def dest!: start_open_waits)

lemma path_run_callback:
  assumes "th_path th \<in> P \<or> th_self th = Fn_test \<and> th_label th = None" and "TEST_PATH \<in> P"
    and "run_callback E th cache = Some r"
  shows "result_meets (path_thread P) (path_op P) (\<lambda>_. True) tid r"
proof (cases "th_label th")
  case None
  show ?thesis
  proof (cases "th_self th")
    case Fn_send_404
    with None assms show ?thesis
      by (auto simp: run_callback_def route_callback_send_404_def result_meets_def path_thread_def path_op_def
          async_io_send_buffer_def fault_simps)
  qed (use None assms in \<open>auto simp: run_callback_def route_callback_send_file_def route_callback_test_def
        elim!: path_start_open [rotated]\<close>)
next
  case (Some l)
  then have "th_path th \<in> P" using assms(1) by auto
  with Some assms(3) show ?thesis
    by (cases "th_self th") (auto simp: run_callback_def route_callback_send_file_def route_callback_test_def
        route_callback_send_404_def result_meets_def path_thread_def path_op_def async_io_sendfile_def fault_simps
        split: if_splits dest!: send_head_waits)
qed

lemma path_pt_resume:
  assumes "path_thread P th" and "TEST_PATH \<in> P" and "thread_waits th q" and "pt_resume E th cache = Some r"
  shows "result_meets (path_thread P) (path_op P) (\<lambda>_. True) tid r"
proof -
  have p: "th_path th \<in> P" using assms(1) by (simp add: path_thread_def)
  note caller = path_run_callback [OF _ assms(2)]
  from assms(3,4) show ?thesis
  proof (cases rule: pt_resume_cases)
    case (opened p cache')
    with assms(1) show ?thesis by (auto simp: result_meets_def path_thread_def path_op_def)
  next
    case (called th' cache' ev c t q' ev')
    have "th_path th' \<in> P" using called(1) p by auto
    with caller [OF _ called(2), of tid] called(3) show ?thesis by (simp add: result_meets_def)
  next
    case ended
    then show ?thesis by (simp add: result_meets_def)
  qed
qed

interpretation paths: server_invariant rtr krn "path_thread (served_paths rtr)" "path_op (served_paths rtr)" "\<lambda>_. True"
  "\<lambda>_ _. True" for rtr krn
proof (unfold_locales, goal_cases)
  case (5 ctx c req fd acts act cache r tid)
  have "th_path (action_thread fd act) \<in> served_paths rtr \<or>
      th_self (action_thread fd act) = Fn_test \<and> th_label (action_thread fd act) = None"
    using 5 by (cases act) (auto simp: action_thread_def prep_route_callback_send_file_def handler_thread_def
        served_paths_def split: handler.split)
  then show ?case using path_run_callback 5 by (simp add: served_paths_def)
next
  case (6 th tid q c cache r)
  then show ?case using path_pt_resume [of _ "written q c th" q] by (simp add: served_paths_def path_thread_def)
qed (auto simp: path_op_def path_thread_def)

lemma opened_paths:
  assumes "reachable krn (server_run rtr cache) s" and "Op_pt tid (Pt_openat p) \<in> set (sv_ops s)"
  shows "p \<in> served_paths rtr"
proof -
  have "paths.inv rtr (server_run rtr cache)" by (simp add: paths.inv_def path_op_def)
  moreover have "threads_ok None (server_run rtr cache)" by (rule reachable_threads_ok [OF reachable.here])
  ultimately have "paths.inv rtr s" using paths.inv_reachable [OF assms(1)] by blast
  with assms(2) show ?thesis by (auto simp: paths.inv_def path_op_def)
qed

section \<open>When the server faults\<close>

text \<open>
  What keeps the file callbacks from faulting: every file they open has a name with a dot, and
  the files are fewer than the entries of the cache, so none is ever evicted.
\<close>

definition named :: "file_t \<Rightarrow> bool" where
  "named f \<longleftrightarrow> (\<exists>n. ft_name f = Some n \<and> CHR ''.'' \<in> set n)"

definition dotted :: "bytes \<Rightarrow> bool" where
  "dotted p \<longleftrightarrow> p \<noteq> [] \<and> CHR ''.'' \<in> set (last (uri_segs p))"

definition cache_serves :: "bytes set \<Rightarrow> file_cache \<Rightarrow> bool" where
  "cache_serves P cache \<longleftrightarrow> finite P \<and> card P < 16 \<and> (\<forall>p\<in>P. dotted p) \<and>
     (\<exists>m. lru_holds cache m \<and> dom m \<subseteq> P \<and> lc_size cache = 16 \<and>
        16 \<le> hm_unused (lc_hmap cache) + card (dom m) \<and> (\<forall>f\<in>ran m. named f))"

definition env_ok :: "pt_env \<Rightarrow> bool" where
  "env_ok E \<longleftrightarrow> (\<forall>n. al_ok (pe_alloc E) n) \<and> length (pe_buf E) = SDS_LLSTR_SIZE"

lemma named_simps [simp]: "named (f\<lparr>ft_fd := fd\<rparr>) = named f" "named (f\<lparr>ft_size := n\<rparr>) = named f"
  by (simp_all add: named_def)

lemma cache_serves_map:
  assumes "cache_serves P cache" and holds: "lru_holds cache m"
  shows "\<exists>cache'. LRU_cache_get cache p = Some (cache', m p) \<and> cache_serves P cache' \<and> lru_holds cache' m \<and>
    (m p = None \<longrightarrow> p \<in> P \<longrightarrow> named fl \<longrightarrow>
      (\<exists>c. LRU_cache_add cache' p fl = Some (c, None) \<and> cache_serves P c \<and> lru_holds c (m(p \<mapsto> fl))))"
proof -
  have P: "finite P" "card P < 16" "\<forall>p\<in>P. dotted p" using assms(1) by (auto simp: cache_serves_def)
  obtain m' where m': "lru_holds cache m'" "dom m' \<subseteq> P" "lc_size cache = 16"
    "16 \<le> hm_unused (lc_hmap cache) + card (dom m')" "\<forall>f\<in>ran m'. named f"
    using assms(1) by (auto simp: cache_serves_def)
  have "m' = m" by (rule lru_holds_unique [OF m'(1) holds])
  note m = m'(2-5) [unfolded this]
  obtain c where c: "LRU_cache_get cache p = Some (c, m p)" "lru_holds c m" "lc_hmap c = lc_hmap cache"
    "lc_size c = lc_size cache" using lru_get_holds [OF holds] by blast
  have serves: "cache_serves P c" unfolding cache_serves_def using P m c by (intro conjI exI [of _ m]) auto
  moreover have "\<exists>c'. LRU_cache_add c p fl = Some (c', None) \<and> cache_serves P c' \<and> lru_holds c' (m(p \<mapsto> fl))"
    if "m p = None" "p \<in> P" "named fl"
  proof -
    have "dom m \<subset> P" using m(1) that(1,2) by auto
    then have few: "card (dom m) < card P" using P(1) by (rule psubset_card_mono [rotated])
    have card': "card (dom (m(p \<mapsto> fl))) = Suc (card (dom m))"
      using that(1) finite_subset [OF m(1) P(1)] by (auto simp: card_insert_if)
    from lru_add_holds [OF c(2) that(1), of fl] few P(2) m(2,3) c(3,4) obtain c' where
      c': "LRU_cache_add c p fl = Some (c', None)" "lru_holds c' (m(p \<mapsto> fl))"
      "hm_unused (lc_hmap c') = hm_unused (lc_hmap c) - 1" "lc_size c' = lc_size c" by auto
    have "ran (m(p \<mapsto> fl)) = insert fl (ran m)" using that(1) by (rule ran_map_upd)
    then have "cache_serves P c'" unfolding cache_serves_def
      using P m c c' that card' by (intro conjI exI [of _ "m(p \<mapsto> fl)"]) auto
    with c' show ?thesis by simp
  qed
  ultimately show ?thesis using c(1,2) by - (rule exI [of _ c], simp)
qed

lemma cache_serves_get:
  assumes "cache_serves P cache"
  shows "\<exists>cache' r. LRU_cache_get cache p = Some (cache', r) \<and> cache_serves P cache' \<and>
    (\<forall>f. r = Some f \<longrightarrow> named f) \<and>
    (r = None \<longrightarrow> p \<in> P \<longrightarrow> named fl \<longrightarrow>
      (\<exists>cache''. LRU_cache_add cache' p fl = Some (cache'', None) \<and> cache_serves P cache''))"
proof -
  obtain m where "lru_holds cache m" "\<forall>f\<in>ran m. named f" using assms by (auto simp: cache_serves_def)
  with cache_serves_map [OF assms this(1), of p fl] show ?thesis by (fastforce simp: ranI)
qed

lemma open_file_ok:
  assumes "cache_serves P cache" and "p \<in> P" and "label = None \<or> label = Some 388 \<and> named fl \<or> label = Some 389 \<and> named fl"
  shows "\<exists>cache' f w. async_io_open_file label p fl cache = Some (cache', f, [], w) \<and> cache_serves P cache' \<and> named f"
proof -
  obtain cache' r where g: "LRU_cache_get cache p = Some (cache', r)" "cache_serves P cache'"
    "\<forall>f. r = Some f \<longrightarrow> named f"
    "r = None \<longrightarrow> named fl \<longrightarrow> (\<exists>c. LRU_cache_add cache' p fl = Some (c, None) \<and> cache_serves P c)"
    using cache_serves_get [OF assms(1), of p fl] assms(2) by blast
  have "p \<noteq> []" "CHR ''.'' \<in> set (last (uri_segs p))" using assms(1,2) by (auto simp: cache_serves_def dotted_def)
  moreover from this have "uri_segs p \<noteq> []" by (simp add: uri_segs_def)
  ultimately show ?thesis using g assms(3)
    by (cases r) (auto simp: async_io_open_file_def named_def)
qed

text \<open>What a connection being received and a buffer being sent look like.\<close>

definition recv_fine :: "recv_context \<Rightarrow> bool" where
  "recv_fine ctx \<longleftrightarrow> (\<exists>str. sds_rep (rc_buffer ctx) str \<and> length str \<le> MAX_REQUEST \<and>
     length str + RECV_CHUNK \<le> sdsalloc (rc_buffer ctx) \<and> sdsalloc (rc_buffer ctx) \<le> 2 * (MAX_REQUEST + RECV_CHUNK))"

definition safe_op :: "op \<Rightarrow> bool" where
  "safe_op q \<longleftrightarrow> (\<forall>ctx. q = Op_recv ctx \<longrightarrow> recv_fine ctx) \<and>
     (\<forall>tid sc. q = Op_pt tid (Pt_send sc) \<longrightarrow> (\<exists>str. sds_rep (sc_buffer sc) str))"

definition safe_thread :: "bytes set \<Rightarrow> thread \<Rightarrow> bool" where
  "safe_thread P th \<longleftrightarrow> th_path th \<in> P \<and> th_self th \<noteq> Fn_send_404 \<and>
     (\<forall>l p. th_child th = Open_file_pt l p \<longrightarrow> p = th_path th \<and> named (th_file th))"

lemma send_head_ok:
  assumes "env_ok E" and "named (th_file th)"
  shows "\<exists>th' sc str. send_head E line th = Some (th', Pt_send sc) \<and> sds_rep (sc_buffer sc) str \<and>
    th_path th' = th_path th \<and> th_self th' = th_self th \<and> th_child th' = Send_buffer_pt (Some 405) str"
proof -
  obtain n where n: "ft_name (th_file th) = Some n" "CHR ''.'' \<in> set n" using assms(2) by (auto simp: named_def)
  let ?h = "file_head n (ft_size (th_file th))"
  have "length ?h < 2 ^ 62" using length_file_head [of n "ft_size (th_file th)"] by simp
  from sdsnewlen_bytes [OF this order_refl, of "pe_alloc E"] assms(1) obtain s where
    "sdsnewlen (pe_alloc E) (Init_bytes ?h) (length ?h) = Some (Some s)" "sds_rep s ?h"
    by (auto simp: env_ok_def)
  with n send_file_head_dotted assms(1) show ?thesis
    by (auto simp: send_head_def env_ok_def async_io_send_buffer_def handle_send_submission_def)
qed

text \<open>Running a callback from one of its entries: it does not fault and keeps the invariants.\<close>

abbreviation safe_result :: "bytes set \<Rightarrow> nat \<Rightarrow> pt_result \<Rightarrow> bool" where
  "safe_result P \<equiv> result_meets (safe_thread P) safe_op (cache_serves P)"

lemma start_open_safe:
  assumes "env_ok E" and "cache_serves P cache" and "th_path th \<in> P" and "th_self th \<noteq> Fn_send_404"
  shows "\<exists>r. start_open E l1 l2 th cache = Some r \<and> safe_result P tid r"
proof -
  obtain cache' f w where o: "async_io_open_file None (th_path th) (th_file th) cache = Some (cache', f, [], w)"
    "cache_serves P cache'" "named f" using open_file_ok [OF assms(2,3)] by blast
  show ?thesis
  proof (cases w)
    case None
    let ?th = "th\<lparr>th_label := Some l1, th_file := f\<rparr>"
    have "named (th_file ?th)" using o(3) by simp
    from send_head_ok [OF assms(1) this, of l2] obtain th' sc str where
      "send_head E l2 ?th = Some (th', Pt_send sc)" "sds_rep (sc_buffer sc) str" "th_path th' = th_path th"
      "th_self th' = th_self th" "th_child th' = Send_buffer_pt (Some 405) str" by auto
    with o None assms(3,4) show ?thesis
      by (auto simp: start_open_def Let_def result_meets_def safe_thread_def safe_op_def)
  next
    case (Some lq)
    then have "snd lq = Pt_openat (th_path th)"
      using o(1) by (auto simp: async_io_open_file_def fault_simps split: option.splits)
    with o Some assms(3,4) show ?thesis
      by (cases lq) (auto simp: start_open_def Let_def result_meets_def safe_thread_def safe_op_def)
  qed
qed

lemma send_head_safe:
  assumes "env_ok E" and "cache_serves P cache" and "th_path th \<in> P" and "th_self th \<noteq> Fn_send_404" and "named (th_file th)"
  shows "\<exists>th' q. send_head E l th = Some (th', q) \<and> safe_result P tid (cache, Some th', Some q, [])"
  using send_head_ok [OF assms(1,5), of l] assms by (fastforce simp: result_meets_def safe_thread_def safe_op_def)

lemma run_callback_safe:
  assumes E: "env_ok E" and c: "cache_serves P cache" and "TEST_PATH \<in> P"
    and "th_self th = Fn_send_file \<and> th_path th \<in> P \<and>
        (th_label th \<in> {None, Some 113, Some 123} \<or> th_label th = Some 77 \<and> named (th_file th)) \<or>
      th_self th = Fn_test \<and>
        (th_label th = None \<or> th_label th = Some 51 \<and> th_path th \<in> P \<and> named (th_file th))"
  shows "\<exists>r. run_callback E th cache = Some r \<and> safe_result P tid r"
proof (cases "th_label th")
  case None
  with assms start_open_safe [OF E c, of th 77 113 tid]
    start_open_safe [OF E c, of "th\<lparr>th_path := TEST_PATH, th_file := pe_junk E\<rparr>" 51 85 tid]
  show ?thesis by (auto simp: run_callback_def route_callback_send_file_def route_callback_test_def)
next
  case (Some l)
  note at = send_head_safe [OF E c, of th 113 tid] send_head_safe [OF E c, of th 85 tid]
  from Some assms(4) consider
      (head) "l = 77" "th_self th = Fn_send_file" "th_path th \<in> P" "named (th_file th)"
    | (body) "l = 113" "th_self th = Fn_send_file" "th_path th \<in> P"
    | (shut) "l = 123" "th_self th = Fn_send_file" "th_path th \<in> P"
    | (test) "l = 51" "th_self th = Fn_test" "th_path th \<in> P" "named (th_file th)" by auto
  then show ?thesis
  proof cases
    case head
    with at(1) Some show ?thesis by (auto simp: run_callback_def route_callback_send_file_def)
  next
    case test
    with at(2) Some show ?thesis by (auto simp: run_callback_def route_callback_test_def)
  qed (use c Some in \<open>auto simp: run_callback_def route_callback_send_file_def async_io_sendfile_def
        result_meets_def safe_thread_def safe_op_def\<close>)
qed

text \<open>
  Resuming a protothread: only the test handler's faults, and only when its header has been sent.
\<close>

lemma pt_resume_safe:
  assumes E: "env_ok E" and c: "cache_serves P cache" and test: "TEST_PATH \<in> P" and th: "safe_thread P th"
    and w: "thread_waits th q"
  shows "if th_self th = Fn_test \<and> (\<exists>sc. q = Pt_send sc) then pt_resume E th cache = None
    else \<exists>r. pt_resume E th cache = Some r \<and> safe_result P tid r"
proof -
  have P: "th_path th \<in> P" "th_self th \<noteq> Fn_send_404" using th by (simp_all add: safe_thread_def)
  have caller: "\<exists>r. resume_caller E t cache' [] = Some r \<and> safe_result P tid r"
    if "cache_serves P cache'" "th_path t \<in> P"
      "(th_label t, th_self t) \<in> {(Some 77, Fn_send_file), (Some 51, Fn_test)} \<and> named (th_file t) \<or>
       (th_label t, th_self t) \<in> {(Some 113, Fn_send_file), (Some 123, Fn_send_file)}" for t cache'
    using run_callback_safe [OF E that(1) test, of "t\<lparr>th_child := No_child\<rparr>" tid] that
    by (auto simp: resume_caller_def)
  have opens: "\<exists>r. pt_resume E th cache = Some r \<and> safe_result P tid r"
    if child: "th_child th = Open_file_pt (Some l) p" "l = 388 \<or> l = 389"
      and lab: "(th_label th, th_self th) \<in> {(Some 77, Fn_send_file), (Some 51, Fn_test)}" for l p
  proof -
    have p: "p = th_path th" "named (th_file th)" using th child(1) by (simp_all add: safe_thread_def)
    with open_file_ok [OF c, of p "Some l" "th_file th"] child(2) P obtain cache' f w' where
      o: "async_io_open_file (Some l) p (th_file th) cache = Some (cache', f, [], w')" "cache_serves P cache'" "named f"
      by blast
    show ?thesis
    proof (cases w')
      case None
      with o child(1) caller [OF o(2), of "th\<lparr>th_file := f\<rparr>"] P lab show ?thesis by (auto simp: pt_resume_def)
    next
      case (Some lq)
      then have "safe_op (Op_pt tid (snd lq))"
        using o(1) child(2) by (auto simp: async_io_open_file_def safe_op_def fault_simps split: option.splits if_splits)
      with Some o child(1) P p show ?thesis
        by (cases lq) (auto simp: pt_resume_def result_meets_def safe_thread_def)
    qed
  qed
  show ?thesis
  proof (cases q)
    case (Pt_openat p)
    with w opens [of 388 p] show ?thesis by (auto simp: thread_waits_def)
  next
    case (Pt_statx fd)
    with w opens [of 389] show ?thesis by (auto simp: thread_waits_def)
  next
    case (Pt_send sc)
    with w P show ?thesis
      using caller [OF c, of th]
      by (auto simp: thread_waits_def pt_resume_def async_io_send_buffer_def resume_caller_def run_callback_def
          route_callback_test_def)
  next
    case (Pt_splice_all sp)
    with w P caller [OF c, of th] show ?thesis
      by (auto simp: thread_waits_def pt_resume_def async_io_sendfile_def)
  next
    case (Pt_close fd)
    with w c show ?thesis
      by (auto simp: thread_waits_def pt_resume_def run_callback_def route_callback_send_file_def result_meets_def)
  qed
qed

text \<open>Receiving: a context with room, and what a completion of it leads to.\<close>

definition kernel_ok :: "op \<Rightarrow> cqe \<Rightarrow> bool" where
  "kernel_ok opn c \<longleftrightarrow> env_ok (cq_env c) \<and>
     (\<forall>ctx. opn = Op_recv ctx \<longrightarrow> 0 < cq_res c \<longrightarrow>
        length (cq_data c) = nat (cq_res c) \<and> nat (cq_res c) \<le> sdsavail (rc_buffer ctx))"

lemma room_fine:
  assumes "\<forall>n. al_ok A n" and "sds_rep b str" and "length str \<le> MAX_REQUEST"
    and "sdsalloc b \<le> 2 * (MAX_REQUEST + RECV_CHUNK)"
  shows "\<exists>b'. sdsMakeRoomFor A b RECV_CHUNK = Some (Some b') \<and> recv_fine (ctx\<lparr>rc_buffer := b'\<rparr>)"
proof -
  obtain b' where b': "sdsMakeRoomFor A b RECV_CHUNK = Some (Some b')" "sds_rep b' str"
    "length str + RECV_CHUNK \<le> sdsalloc b'"
    "sdsavail b < RECV_CHUNK \<longrightarrow> sdsalloc b' = 2 * (length str + RECV_CHUNK)"
    using recv_room [OF assms(1-3)] by blast
  moreover have "b' = b" if "\<not> sdsavail b < RECV_CHUNK" using b'(1) that by (simp add: sdsMakeRoomFor_def)
  then have "sdsalloc b' \<le> 2 * (MAX_REQUEST + RECV_CHUNK)" using b'(4) assms(3,4) by (cases "sdsavail b < RECV_CHUNK") auto
  ultimately show ?thesis using assms(3) by (auto simp: recv_fine_def)
qed

lemma accept_fine:
  assumes "env_ok E"
  shows "\<exists>ctx q. handle_recv_submission (pe_alloc E) fd None = Some (ctx, q) \<and> recv_fine ctx"
proof -
  have A: "\<forall>n. al_ok (pe_alloc E) n" using assms by (simp add: env_ok_def)
  obtain b where b: "sdsempty (pe_alloc E) = Some (Some b)" "sds_rep b []" "sdsavail b = 0"
    using sdsempty_spec [OF A] by blast
  have "sdsalloc b \<le> 2 * (MAX_REQUEST + RECV_CHUNK)" using b(3) sds_rep_avail [OF b(2)] by (simp)
  from room_fine [OF A b(2) _ this, of "\<lparr>rc_client_fd = fd, rc_buffer = b, rc_request = zero_request\<rparr>"] b(1)
  show ?thesis by (auto simp: handle_recv_submission_def)
qed

lemma recv_completion_fine:
  assumes f: "recv_fine ctx" and k: "kernel_ok (Op_recv ctx) c"
  shows "\<exists>r. handle_recv_completion (pe_alloc (cq_env c)) (cq_res c) (cq_data c) ctx = Some r \<and>
    (\<forall>ctx' q. r = Recv_more ctx' q \<longrightarrow> recv_fine ctx') \<and>
    (\<forall>req fd. r = Recv_request req fd \<longrightarrow> fd = rc_client_fd ctx \<and> rq_method req \<noteq> http_method_unknown \<and>
      (\<exists>uri. view (rq_raw req) (rq_URI req) = Some uri))"
proof (cases "cq_res c \<le> 0")
  case False
  let ?A = "pe_alloc (cq_env c)" and ?d = "cq_data c"
  have A: "\<forall>n. al_ok ?A n" using k by (simp add: kernel_ok_def env_ok_def)
  obtain str where str: "sds_rep (rc_buffer ctx) str" "length str \<le> MAX_REQUEST"
    "length str + RECV_CHUNK \<le> sdsalloc (rc_buffer ctx)" "sdsalloc (rc_buffer ctx) \<le> 2 * (MAX_REQUEST + RECV_CHUNK)"
    using f by (auto simp: recv_fine_def)
  have d: "int (length ?d) = cq_res c" "?d \<noteq> []" "length str + length ?d \<le> sdsalloc (rc_buffer ctx)"
    using k False sds_rep_avail [OF str(1)] str(3) by (auto simp: kernel_ok_def)
  have small: "length ?d < 2 ^ 32" "length (str @ ?d) < 2 ^ 31"
    using d(3) str(4) by (simp_all add: MAX_REQUEST_def RECV_CHUNK_def)
  from recv_append [OF str(1) d(3,2) small(1)] obtain buf b where b:
    "mem_write (sd_buf (rc_buffer ctx)) (length str) ?d = Some buf"
    "sdsIncrLen ((rc_buffer ctx)\<lparr>sd_buf := buf\<rparr>) (int (length ?d)) = Some b" "sds_rep b (str @ ?d)" by blast
  have "sd_type (rc_buffer ctx) \<noteq> SDS_TYPE_5"
    using str(1,3) by (auto simp: sdsalloc_def sds_rep_def RECV_CHUNK_def)
  then have alloc: "sdsalloc b = sdsalloc (rc_buffer ctx)"
    using b(2) by (auto simp: sdsIncrLen_def sdsalloc_def fault_simps Let_def split: if_splits)
  let ?req = "(rc_request ctx)\<lparr>rq_raw := str @ ?d\<rparr>"
  obtain req n where p: "request_parse ?req = Some (req, n)" using request_parse_returns [of ?req] small(2) by auto
  have acc: "rq_method req \<noteq> http_method_unknown \<and> (\<exists>uri. view (rq_raw req) (rq_URI req) = Some uri)" if "0 < n"
    using request_parse_accepts [OF p that] small(2) by (auto simp: request_shows_def wf_request_def)
  note run = handle_recv_completion_def Let_def sds_rep_len [OF str(1)] b(1) sds_bytes_rep [OF b(3)] p sds_rep_len [OF b(3)]
  show ?thesis
  proof (cases "n < 0 \<or> MAX_REQUEST < length (str @ ?d)")
    case True
    with False b(2) d(1) show ?thesis by (auto simp: run)
  next
    case fits: False
    show ?thesis
    proof (cases "n = 0")
      case True
      from room_fine [OF A b(3), of "ctx\<lparr>rc_buffer := b, rc_request := req\<rparr>"] fits alloc str(4) obtain b' where
        "sdsMakeRoomFor ?A b RECV_CHUNK = Some (Some b')" "recv_fine (ctx\<lparr>rc_request := req, rc_buffer := b'\<rparr>)" by auto
      with False True fits b(2) d(1) show ?thesis by (auto simp: run handle_recv_submission_def)
    next
      case nz: False
      with False fits b(2) d(1) acc show ?thesis by (auto simp: run)
    qed
  qed
qed (simp add: handle_recv_completion_def)

lemma send_completion_fine:
  assumes "sds_rep (sc_buffer sc) str"
  shows "\<exists>r. handle_send_completion res sc = Some r \<and>
    (\<forall>sc' q. r = Inr (sc', q) \<longrightarrow> (\<exists>str'. sds_rep (sc_buffer sc') str'))"
  using sdsrange_spec [OF assms, of res "- 1"]
  by (auto simp: handle_send_completion_def handle_send_submission_def)

lemma action_thread_safe:
  assumes "router_handle_request rtr req = Some acts" and "act \<in> set acts" and "env_ok E"
    and "cache_serves (served_paths rtr) cache"
  shows "\<exists>r. run_callback E (action_thread fd act) cache = Some r \<and> safe_result (served_paths rtr) tid r"
proof -
  have "TEST_PATH \<in> served_paths rtr" by (simp add: served_paths_def)
  note run = run_callback_safe [OF assms(3,4) this, of "action_thread fd act" tid]
  show ?thesis
    using assms(1,2) by (intro run, cases act)
      (auto simp: action_thread_def prep_route_callback_send_file_def handler_thread_def served_paths_def split: handler.split)
qed

interpretation safe: server_invariant rtr kernel_ok "safe_thread (served_paths rtr)" safe_op "cache_serves (served_paths rtr)"
  "\<lambda>_ _. True" for rtr
proof (unfold_locales, goal_cases)
  case (3 c ctx e)
  then show ?case using accept_fine [of "cq_env c" "cq_res c"] by (auto simp: safe_op_def kernel_ok_def)
next
  case (4 ctx c ctx' e)
  then show ?case using recv_completion_fine [of ctx c] by (auto simp: safe_op_def)
next
  case (5 ctx c req fd acts act cache r tid)
  then show ?case using action_thread_safe [of rtr req acts act "cq_env c" cache fd tid] by (auto simp: kernel_ok_def)
next
  case (6 th tid q c cache r)
  have "TEST_PATH \<in> served_paths rtr" by (simp add: served_paths_def)
  moreover have "safe_thread (served_paths rtr) (written q c th)"
    using 6(1) by (simp add: safe_thread_def named_def)
  ultimately show ?case
    using 6 pt_resume_safe [of "cq_env c" "served_paths rtr" cache "written q c th" q tid]
    by (auto simp: kernel_ok_def split: if_splits)
next
  case (7 tid sc c sc' e)
  then obtain str where "sds_rep (sc_buffer sc) str" by (auto simp: safe_op_def)
  from send_completion_fine [OF this, of "cq_res c"] 7(3) show ?case by (auto simp: safe_op_def)
qed (auto simp: safe_op_def safe_thread_def)

text \<open>Every completion but one kind succeeds.\<close>

lemma start_actions_total:
  assumes "router_handle_request rtr req = Some acts" and "env_ok E"
  shows "set as \<subseteq> set acts \<Longrightarrow> safe.inv rtr s \<Longrightarrow> \<exists>s'. start_actions E fd as s = Some s'"
proof (induction as arbitrary: s)
  case (Cons a as)
  have c: "cache_serves (served_paths rtr) (sv_cache s)" using Cons.prems(2) by (simp add: safe.inv_def)
  obtain r where r: "run_callback E (action_thread fd a) (sv_cache s) = Some r"
    "safe_result (served_paths rtr) (sv_next s) r"
    using action_thread_safe [OF assms(1) _ assms(2) c] Cons.prems(1) by fastforce
  have "safe.inv rtr (install (sv_next s) r (s\<lparr>sv_next := Suc (sv_next s)\<rparr>))"
    using Cons.prems(2) r(2) by (cases r)
      (auto simp: safe.inv_def result_meets_def install_def safe.idle split: option.splits if_splits)
  from Cons.IH [OF _ this] Cons.prems(1) r(1) show ?case by (simp add: start_thread_def)
qed simp

definition test_sent :: "server \<Rightarrow> op \<Rightarrow> cqe \<Rightarrow> bool" where
  "test_sent s opn c \<longleftrightarrow> (\<exists>tid sc th. opn = Op_pt tid (Pt_send sc) \<and> sv_threads s tid = Some th \<and>
     th_self th = Fn_test \<and> handle_send_completion (cq_res c) sc = Some (Inl ()))"

lemma resume_total:
  assumes inv: "safe.inv rtr s" and th: "sv_threads s tid = Some th" and w: "thread_waits th q" and E: "env_ok E"
  shows "resume_thread E tid s = None \<longleftrightarrow> th_self th = Fn_test \<and> (\<exists>sc. q = Pt_send sc)"
proof -
  have "cache_serves (served_paths rtr) (sv_cache s)" "safe_thread (served_paths rtr) th"
    using inv th by (auto simp: safe.inv_def)
  moreover have "TEST_PATH \<in> served_paths rtr" by (simp add: served_paths_def)
  ultimately show ?thesis using pt_resume_safe [OF E _ _ _ w, of "served_paths rtr" "sv_cache s" tid] th
    by (auto simp: resume_thread_def split: if_splits)
qed

lemma completion_total:
  assumes inv: "safe.inv rtr s" and q: "safe_op opn" and k: "kernel_ok opn c"
    and th: "\<And>tid q. opn = Op_pt tid q \<Longrightarrow> \<exists>th. sv_threads s tid = Some th \<and> thread_waits th q"
    and answers: "\<And>req uri. view (rq_raw req) (rq_URI req) = Some uri \<Longrightarrow> rq_method req \<noteq> http_method_unknown \<Longrightarrow>
      \<exists>acts. router_handle_request rtr req = Some acts"
  shows "completion_table opn c s = None \<longleftrightarrow> test_sent s opn c"
proof (cases opn)
  case Op_accept
  then show ?thesis using k accept_fine [of "cq_env c" "cq_res c"]
    by (auto simp: completion_table_def handle_accept_completion_def test_sent_def kernel_ok_def)
next
  case (Op_recv ctx)
  then have f: "recv_fine ctx" "kernel_ok (Op_recv ctx) c" using q k by (simp_all add: safe_op_def)
  obtain r where r: "handle_recv_completion (pe_alloc (cq_env c)) (cq_res c) (cq_data c) ctx = Some r"
    "\<forall>req fd. r = Recv_request req fd \<longrightarrow> rq_method req \<noteq> http_method_unknown \<and>
      (\<exists>uri. view (rq_raw req) (rq_URI req) = Some uri)"
    using recv_completion_fine [OF f] by blast
  have "sv_rtr s = rtr" "env_ok (cq_env c)" using inv k by (simp_all add: safe.inv_def kernel_ok_def)
  have "\<exists>s'. recv_completion c ctx s = Some s'"
  proof (cases r)
    case (Recv_request req fd)
    obtain acts where acts: "router_handle_request rtr req = Some acts" using r(2) Recv_request answers by blast
    from start_actions_total [OF this \<open>env_ok (cq_env c)\<close> subset_refl inv, of fd] acts r(1) Recv_request \<open>sv_rtr s = rtr\<close>
    show ?thesis by (simp add: recv_completion_def)
  qed (use r(1) in \<open>simp_all add: recv_completion_def\<close>)
  then show ?thesis using Op_recv by (auto simp: completion_table_def test_sent_def)
next
  case (Op_pt tid q)
  have E: "env_ok (cq_env c)" using k by (simp add: kernel_ok_def)
  obtain th where th: "sv_threads s tid = Some th" "thread_waits th q" using assms(4) Op_pt by blast
  then have thr: "safe_thread (served_paths rtr) th" using inv by (simp add: safe.inv_def)
  note direct = resume_total [OF inv th E]
  have wrote: "update_file tid f s \<bind> resume_thread (cq_env c) tid = None \<longleftrightarrow> th_self th = Fn_test \<and> (\<exists>sc. q = Pt_send sc)"
    if "safe_thread (served_paths rtr) (th\<lparr>th_file := f (th_file th)\<rparr>)" for f
  proof -
    obtain s1 where s1: "update_file tid f s = Some s1" using th(1) by (simp add: update_file_def)
    have "thread_waits (th\<lparr>th_file := f (th_file th)\<rparr>) q" using th(2) by simp
    moreover have "safe.inv rtr s1" "sv_threads s1 tid = Some (th\<lparr>th_file := f (th_file th)\<rparr>)"
      using inv th(1) that s1 by (auto simp: update_file_def safe.inv_def split: if_splits)
    ultimately show ?thesis using resume_total [of rtr s1 tid _ q "cq_env c"] E s1 by simp
  qed
  have fd: "safe_thread (served_paths rtr) (th\<lparr>th_file := (th_file th)\<lparr>ft_fd := cq_res c\<rparr>\<rparr>)"
    and sz: "safe_thread (served_paths rtr) (th\<lparr>th_file := (th_file th)\<lparr>ft_size := cq_size c\<rparr>\<rparr>)"
    using thr by (simp_all add: safe_thread_def)
  show ?thesis
  proof (cases q)
    case (Pt_send sc)
    then obtain str where "sds_rep (sc_buffer sc) str" using assms(2) Op_pt by (auto simp: safe_op_def)
    then obtain r where "handle_send_completion (cq_res c) sc = Some r" using send_completion_fine by blast
    with Pt_send Op_pt direct th show ?thesis
      by (cases r) (auto simp: completion_table_def send_completion_def test_sent_def)
  qed (use Op_pt direct th wrote [of "\<lambda>f. f\<lparr>ft_fd := cq_res c\<rparr>", OF fd] wrote [of "\<lambda>f. f\<lparr>ft_size := cq_size c\<rparr>", OF sz]
      in \<open>auto simp: completion_table_def handle_openat_completion_def handle_statx_completion_def
        splice_all_completion_def handle_close_completion_def test_sent_def split: option.split\<close>)
qed (simp add: completion_table_def handle_close_completion_def test_sent_def)

lemma served_small:
  assumes "router_setup (Some es) specs = Some rtr"
  shows "finite (served_paths rtr)" and "card (served_paths rtr) < 16"
proof -
  let ?Q = "set (TEST_PATH # INDEX_PATH # map ((@) PUBLIC_DIR) (files_under es ''/''))"
  have sub: "served_paths rtr \<subseteq> ?Q" using served_paths_main [OF assms] by auto
  then show "finite (served_paths rtr)" by (rule finite_subset) simp
  have "card (served_paths rtr) \<le> card ?Q" using sub by (intro card_mono) auto
  also have "card ?Q \<le> length (TEST_PATH # INDEX_PATH # map ((@) PUBLIC_DIR) (files_under es ''/''))" by (rule card_length)
  finally show "card (served_paths rtr) < 16" using router_setup_files(1) [OF assms] by simp
qed

lemma uri_segs_public:
  assumes "f \<in> set (files_under es ''/'')"
  shows "last (uri_segs (PUBLIC_DIR @ f)) = last (uri_segs f)"
proof -
  obtain s where f: "f = CHR ''/'' # s" using files_under_prefix [OF assms] by auto
  have "split_at ''/'' f = [] # split_at ''/'' s" using split_at_char_cons [of "CHR ''/''" "[]" s] by (simp add: f)
  moreover have "split_at ''/'' (PUBLIC_DIR @ f) = ''assets'' # ''public'' # split_at ''/'' s"
    using split_at_char_cons [of "CHR ''/''" "''assets''" "''public'' @ CHR ''/'' # s"]
      split_at_char_cons [of "CHR ''/''" "''public''" s] by (simp add: f)
  ultimately show ?thesis using split_at_nonempty [of "''/''" s] by (simp add: uri_segs_def f)
qed

lemma public_dotted: "f \<in> set (files_under es ''/'') \<Longrightarrow> dotted f \<Longrightarrow> dotted (PUBLIC_DIR @ f)"
  using uri_segs_public [of f es] by (simp add: dotted_def)

lemma index_dotted: "dotted INDEX_PATH" "dotted TEST_PATH"
proof -
  have "split_at ''/'' (join_with ''/'' [''assets'', ''public'', ''index.html'']) = [''assets'', ''public'', ''index.html'']"
    "split_at ''/'' (join_with ''/'' [''assets'', ''public'', ''test.html'']) = [''assets'', ''public'', ''test.html'']"
    by (rule split_join; simp)+
  then show "dotted INDEX_PATH" "dotted TEST_PATH" by (simp_all add: dotted_def uri_segs_def)
qed

lemma fresh_cache:
  assumes "router_setup (Some es) specs = Some rtr" and "\<forall>f\<in>set (files_under es ''/''). dotted f"
    and "async_io_file_cache = Some cache"
  shows "cache_serves (served_paths rtr) cache"
proof -
  have "dotted p" if "p \<in> served_paths rtr" for p
    using that served_paths_main [OF assms(1)] assms(2) index_dotted public_dotted by blast
  moreover have "lru_holds cache Map.empty \<and> lc_size cache = 16 \<and> 16 \<le> hm_unused (lc_hmap cache)"
    using lru_create_total [of 16 280, where ?'v = file_t] assms(3) by (auto simp: async_io_file_cache_def)
  ultimately show ?thesis
    unfolding cache_serves_def using served_small [OF assms(1)] by (intro conjI exI [of _ Map.empty]) auto
qed

text \<open>The state of the server \<open>main\<close> runs, at any moment of a run on a lawful kernel.\<close>

lemma safe_reachable:
  assumes "router_setup (Some es) specs = Some rtr" and "\<forall>f\<in>set (files_under es ''/''). dotted f"
    and "async_io_file_cache = Some cache" and "reachable kernel_ok (server_run rtr cache) s"
  shows "safe.inv rtr s" and "threads_ok None s"
proof -
  have "threads_ok None (server_run rtr cache)" by (rule reachable_threads_ok [OF reachable.here])
  moreover have "safe.inv rtr (server_run rtr cache)" using fresh_cache [OF assms(1-3)] by (simp add: safe.inv_def safe_op_def)
  ultimately show "safe.inv rtr s" "threads_ok None s" using safe.inv_reachable [OF assms(4)] by simp_all
qed

lemma process_faults:
  assumes made: "router_setup (Some es) specs = Some rtr" and ne: "files_under es ''/'' \<noteq> []"
    and "\<forall>f\<in>set (files_under es ''/''). dotted f" and "async_io_file_cache = Some cache"
    and "reachable kernel_ok (server_run rtr cache) s" and i: "i < length (sv_ops s)" and k: "kernel_ok (sv_ops s ! i) c"
  shows "process_cqe i c s = None \<longleftrightarrow> test_sent s (sv_ops s ! i) c"
proof -
  note ok = safe_reachable [OF made assms(3-5)]
  let ?s = "s\<lparr>sv_ops := remove_nth i (sv_ops s)\<rparr>"
  have "safe.inv rtr ?s" and q: "safe_op (sv_ops s ! i)"
    using ok(1) i by (auto simp: safe.inv_def remove_nth_def dest: in_set_takeD in_set_dropD)
  moreover have "\<exists>th. sv_threads ?s tid = Some th \<and> thread_waits th q" if "sv_ops s ! i = Op_pt tid q" for tid q
    using removed_pt_ok [OF ok(2) i that] by (metis server.select_convs(3) server.surjective server.update_convs(5))
  moreover have "\<exists>acts. router_handle_request rtr req = Some acts"
    if "view (rq_raw req) (rq_URI req) = Some uri" "rq_method req \<noteq> http_method_unknown" for req uri
    using router_dispatch [OF made ne that] by blast
  ultimately have "completion_table (sv_ops s ! i) c ?s = None \<longleftrightarrow> test_sent ?s (sv_ops s ! i) c"
    using completion_total [of rtr ?s "sv_ops s ! i" c] k by blast
  then show ?thesis using i by (simp add: process_cqe_def test_sent_def)
qed

end
