(* ===== verification/Exchange.thy ===== *)
theory Exchange
  imports Serving
begin

text \<open>
  Whole exchanges with a client: the answer to a request for a public file, step by step from
  the accept to the close, for a file that is not cached and for one that is, and what happens
  when the file cannot be opened.
\<close>

section \<open>The server between two requests and during one\<close>

definition idle :: "handler router_t \<Rightarrow> file_cache \<Rightarrow> nat \<Rightarrow> server" where
  "idle rtr ca n = \<lparr>sv_rtr = rtr, sv_cache = ca, sv_threads = Map.empty, sv_next = n, sv_ops = replicate 8 Op_accept\<rparr>"

definition busy :: "handler router_t \<Rightarrow> file_cache \<Rightarrow> nat \<Rightarrow> thread \<Rightarrow> pt_op \<Rightarrow> server" where
  "busy rtr ca n th q =
     \<lparr>sv_rtr = rtr, sv_cache = ca, sv_threads = [n \<mapsto> th], sv_next = Suc n, sv_ops = replicate 8 Op_accept @ [Op_pt n q]\<rparr>"

lemma server_run_idle: "server_run rtr ca = idle rtr ca 0"
  by (simp add: idle_def server_run_def handle_accept_submission_def submit_def eval_nat_numeral)

lemma busy_ops: "sv_ops (busy rtr ca n th q) = replicate 8 Op_accept @ [Op_pt n q]"
  by (simp add: busy_def)

lemma busy_sel [simp]: "last (sv_ops (busy rtr ca n th q)) = Op_pt n q" "sv_cache (busy rtr ca n th q) = ca"
  by (simp_all add: busy_def)

text \<open>The completion of the one operation of the protothread.\<close>

abbreviation alone :: "handler router_t \<Rightarrow> file_cache \<Rightarrow> nat \<Rightarrow> thread \<Rightarrow> server" where
  "alone rtr ca n th \<equiv>
     \<lparr>sv_rtr = rtr, sv_cache = ca, sv_threads = [n \<mapsto> th], sv_next = Suc n, sv_ops = replicate 8 Op_accept\<rparr>"

lemma busy_completes:
  "process_cqe 8 c (busy rtr ca n th q) = completion_table (Op_pt n q) c (alone rtr ca n th)"
  by (simp add: process_cqe_def busy_def remove_nth_def nth_append)

lemma alone_resumes:
  assumes "pt_resume E th ca = Some (ca', th', q', [])"
  shows "resume_thread E n (alone rtr ca n th) =
    Some (case (th', q') of (Some t, Some q) \<Rightarrow> busy rtr ca' n t q
      | _ \<Rightarrow> install n (ca', th', q', []) (alone rtr ca n th))"
  using assms by (auto simp: resume_thread_def install_def busy_def split: option.split)

lemma update_alone:
  "update_file n f (alone rtr ca n th) = Some (alone rtr ca n (th\<lparr>th_file := f (th_file th)\<rparr>))"
  by (simp add: update_file_def)

lemma sdsMakeRoomFor_empty:
  assumes "\<forall>k. al_ok A k"
  shows "\<exists>ctx q. handle_recv_submission A fd None = Some (ctx, q) \<and> rc_client_fd ctx = fd \<and>
    sds_rep (rc_buffer ctx) [] \<and> 8192 \<le> sdsalloc (rc_buffer ctx)"
proof -
  obtain s where s: "sdsempty A = Some (Some s)" "sds_rep s []" "sdsavail s = 0"
    using sdsempty_spec [OF assms] by blast
  with recv_room [OF assms s(2)] show ?thesis
    by (auto simp: handle_recv_submission_def RECV_CHUNK_def)
qed

text \<open>A client connects and its whole request arrives in one piece.\<close>

abbreviation received :: "bytes \<Rightarrow> pt_env \<Rightarrow> cqe" where
  "received d E \<equiv> \<lparr>cq_res = int (length d), cq_data = d, cq_size = 0, cq_env = E\<rparr>"

abbreviation result :: "int \<Rightarrow> pt_env \<Rightarrow> cqe" where
  "result r E \<equiv> \<lparr>cq_res = r, cq_data = [], cq_size = 0, cq_env = E\<rparr>"

lemma request_steps:
  assumes E: "env_ok E" and wf: "wf_request m u fs" and small: "length (print_request m u fs) \<le> 8192"
    and rtr: "\<And>req. view (rq_raw req) (rq_URI req) = Some u \<Longrightarrow> rq_method req = m \<Longrightarrow> router_handle_request rtr req = Some acts"
    and fd: "0 \<le> fd"
  obtains ctx where "process_cqe 0 (result fd E) (idle rtr ca n) =
      Some ((idle rtr ca n)\<lparr>sv_ops := replicate 7 Op_accept @ [Op_recv ctx, Op_accept]\<rparr>)"
    and "process_cqe 7 (received (print_request m u fs) E) ((idle rtr ca n)\<lparr>sv_ops := replicate 7 Op_accept @ [Op_recv ctx, Op_accept]\<rparr>) =
      start_actions E fd acts (idle rtr ca n)"
    and "8192 \<le> sdsavail (rc_buffer ctx)"
proof -
  let ?d = "print_request m u fs"
  have A: "\<forall>k. al_ok (pe_alloc E) k" using E by (simp add: env_ok_def)
  obtain ctx q where ctx: "handle_recv_submission (pe_alloc E) fd None = Some (ctx, q)" "rc_client_fd ctx = fd"
    "sds_rep (rc_buffer ctx) []" "8192 \<le> sdsalloc (rc_buffer ctx)" using sdsMakeRoomFor_empty [OF A] by blast
  have s1: "process_cqe 0 (result fd E) (idle rtr ca n) =
      Some ((idle rtr ca n)\<lparr>sv_ops := replicate 7 Op_accept @ [Op_recv ctx, Op_accept]\<rparr>)"
    using ctx(1) fd by (simp add: process_cqe_def idle_def completion_table_def handle_accept_completion_def
        handle_accept_submission_def submit_def remove_nth_def eval_nat_numeral)
  have len: "length ?d < 2 ^ 31" "length ?d \<le> MAX_REQUEST" "?d \<noteq> []"
    using small length_print_request_ge [of m u fs] by (auto simp: MAX_REQUEST_def)
  obtain req where req: "request_parse ((rc_request ctx)\<lparr>rq_raw := ?d\<rparr>) = Some (req, int (length ?d))"
    "request_shows req m u fs"
    using request_parse_whole [OF wf _ len(1), of "(rc_request ctx)\<lparr>rq_raw := ?d\<rparr>" "[]"] by auto
  have "router_handle_request rtr req = Some acts" using rtr req(2) by (simp add: request_shows_def)
  moreover have "handle_recv_completion (pe_alloc E) (int (length ?d)) ?d ctx = Some (Recv_request req fd)"
    using handle_recv_completion_spec(2) [OF A ctx(3) len(3) _ _ _, of req "int (length ?d)"] req(1) small ctx(2,4) len
    by simp
  ultimately have s2: "process_cqe 7 (received ?d E) ((idle rtr ca n)\<lparr>sv_ops := replicate 7 Op_accept @ [Op_recv ctx, Op_accept]\<rparr>) =
      start_actions E fd acts (idle rtr ca n)"
    by (simp add: process_cqe_def idle_def completion_table_def recv_completion_def remove_nth_def nth_append eval_nat_numeral)
  have "sdsavail (rc_buffer ctx) \<ge> 8192" using sds_rep_avail [OF ctx(3)] ctx(4) by simp
  with that s1 s2 show thesis by blast
qed

lemma request_arrives:
  assumes E: "env_ok E" and wf: "wf_request m u fs" and small: "length (print_request m u fs) \<le> 8192"
    and rtr: "\<And>req. view (rq_raw req) (rq_URI req) = Some u \<Longrightarrow> rq_method req = m \<Longrightarrow> router_handle_request rtr req = Some acts"
    and fd: "0 \<le> fd"
  shows "async_io_process [(0, result fd E), (7, received (print_request m u fs) E)] (idle rtr ca n) =
    start_actions E fd acts (idle rtr ca n)"
    and "reachable krn s0 (idle rtr ca n) \<Longrightarrow> start_actions E fd acts (idle rtr ca n) = Some s' \<Longrightarrow>
      (\<And>opn c. kernel_ok opn c \<Longrightarrow> \<forall>tid q. opn \<noteq> Op_pt tid q \<Longrightarrow> krn opn c) \<Longrightarrow> reachable krn s0 s'"
proof -
  let ?d = "print_request m u fs"
  obtain ctx where s1: "process_cqe 0 (result fd E) (idle rtr ca n) =
      Some ((idle rtr ca n)\<lparr>sv_ops := replicate 7 Op_accept @ [Op_recv ctx, Op_accept]\<rparr>)"
    and s2: "process_cqe 7 (received ?d E) ((idle rtr ca n)\<lparr>sv_ops := replicate 7 Op_accept @ [Op_recv ctx, Op_accept]\<rparr>) =
      start_actions E fd acts (idle rtr ca n)"
    and avail: "8192 \<le> sdsavail (rc_buffer ctx)" by (rule request_steps [OF assms])
  show "async_io_process [(0, result fd E), (7, received ?d E)] (idle rtr ca n) =
      start_actions E fd acts (idle rtr ca n)"
    using s1 s2 by (cases "start_actions E fd acts (idle rtr ca n)") simp_all
  assume r: "reachable krn s0 (idle rtr ca n)" and "start_actions E fd acts (idle rtr ca n) = Some s'"
    and krn: "\<And>opn c. kernel_ok opn c \<Longrightarrow> \<forall>tid q. opn \<noteq> Op_pt tid q \<Longrightarrow> krn opn c"
  let ?s1 = "(idle rtr ca n)\<lparr>sv_ops := replicate 7 Op_accept @ [Op_recv ctx, Op_accept]\<rparr>"
  have "server_step krn (idle rtr ca n) ?s1"
    using s1 E by (intro completes [of 0]) (simp_all add: idle_def kernel_ok_def krn)
  with r have r1: "reachable krn s0 ?s1" by (rule reachable.step)
  have "server_step krn ?s1 s'"
    using s2 \<open>start_actions E fd acts (idle rtr ca n) = Some s'\<close> small E avail
    by (intro completes [of 7]) (simp_all add: nth_append kernel_ok_def krn)
  with r1 show "reachable krn s0 s'" by (rule reachable.step)
qed

section \<open>The stages of sending a file\<close>

definition file_thread :: "callback_fn \<Rightarrow> int \<Rightarrow> bytes \<Rightarrow> file_t \<Rightarrow> nat \<Rightarrow> bytes \<Rightarrow> child \<Rightarrow> thread" where
  "file_thread self fd p fl lab raw ch =
     \<lparr>th_self = self, th_label = Some lab, th_client_fd = fd, th_path = p, th_file = fl,
      th_raw_res = raw, th_child = ch\<rparr>"

lemma file_thread_sel [simp]:
  "th_self (file_thread self fd p fl lab raw ch) = self" "th_label (file_thread self fd p fl lab raw ch) = Some lab"
  "th_client_fd (file_thread self fd p fl lab raw ch) = fd" "th_path (file_thread self fd p fl lab raw ch) = p"
  "th_file (file_thread self fd p fl lab raw ch) = fl" "th_raw_res (file_thread self fd p fl lab raw ch) = raw"
  "th_child (file_thread self fd p fl lab raw ch) = ch"
  "(file_thread self fd p fl lab raw ch)\<lparr>th_file := fl'\<rparr> = file_thread self fd p fl' lab raw ch"
  "(file_thread self fd p fl lab raw ch)\<lparr>th_child := ch'\<rparr> = file_thread self fd p fl lab raw ch'"
  "(file_thread self fd p fl lab raw ch)\<lparr>th_label := Some lab'\<rparr> = file_thread self fd p fl lab' raw ch"
  "(file_thread self fd p fl lab raw ch)\<lparr>th_raw_res := raw'\<rparr> = file_thread self fd p fl lab raw' ch"
  by (simp_all add: file_thread_def)

lemma prep_as_thread:
  "(prep_route_callback_send_file fd p)\<lparr>th_label := Some l, th_file := fl\<rparr> = file_thread Fn_send_file fd p fl l [] No_child"
  by (simp add: prep_route_callback_send_file_def file_thread_def)

text \<open>A header is sent: its bytes are those of \<^const>\<open>file_head\<close>.\<close>

text \<open>The lines at which a callback waits for its file and for its header.\<close>

definition open_line :: "callback_fn \<Rightarrow> nat" where "open_line self = (if self = Fn_test then 51 else 77)"
definition head_line :: "callback_fn \<Rightarrow> nat" where "head_line self = (if self = Fn_test then 85 else 113)"

lemma head_sent:
  assumes "env_ok E" and "ft_name fl = Some nm" and "CHR ''.'' \<in> set nm"
  shows "\<exists>sc. send_head E l (file_thread self fd p fl lab raw No_child) =
      Some (file_thread self fd p fl l (file_head nm (ft_size fl)) (Send_buffer_pt (Some 405) (file_head nm (ft_size fl))), Pt_send sc) \<and>
    sc_client_fd sc = fd \<and> sds_rep (sc_buffer sc) (file_head nm (ft_size fl))"
proof -
  let ?h = "file_head nm (ft_size fl)"
  have "length ?h < 2 ^ 62" using length_file_head [of nm "ft_size fl"] by simp
  from sdsnewlen_bytes [OF this order_refl, of "pe_alloc E"] assms(1) obtain s where
    "sdsnewlen (pe_alloc E) (Init_bytes ?h) (length ?h) = Some (Some s)" "sds_rep s ?h" by (auto simp: env_ok_def)
  with assms send_file_head_dotted show ?thesis
    by (auto simp: send_head_def env_ok_def async_io_send_buffer_def handle_send_submission_def)
qed

lemma file_requested:
  assumes "LRU_cache_get ca p = Some (ca', None)" and "p \<noteq> []"
  shows "start_actions E fd [Send_file p] (idle rtr ca n) = Some (busy rtr ca' n
    (file_thread Fn_send_file fd p (zero_file\<lparr>ft_name := Some (last (uri_segs p))\<rparr>) 77 [] (Open_file_pt (Some 388) p)) (Pt_openat p))"
proof -
  have "uri_segs p \<noteq> []" using assms(2) split_at_nonempty by (simp add: uri_segs_def)
  moreover have "th_self (prep_route_callback_send_file fd p) = Fn_send_file"
    "th_label (prep_route_callback_send_file fd p) = None" "th_path (prep_route_callback_send_file fd p) = p"
    "th_file (prep_route_callback_send_file fd p) = zero_file" by (simp_all add: prep_route_callback_send_file_def)
  ultimately show ?thesis using assms(1)
    by (simp add: start_thread_def action_thread_def run_callback_def route_callback_send_file_def start_open_def
        async_io_open_file_def prep_as_thread install_def idle_def busy_def Let_def)
qed

lemma file_cached:
  assumes "LRU_cache_get ca p = Some (ca', Some fl)" and "env_ok E" and "ft_name fl = Some nm" and "CHR ''.'' \<in> set nm"
  shows "\<exists>sc. start_actions E fd [Send_file p] (idle rtr ca n) = Some (busy rtr ca' n
      (file_thread Fn_send_file fd p fl 113 (file_head nm (ft_size fl)) (Send_buffer_pt (Some 405) (file_head nm (ft_size fl)))) (Pt_send sc)) \<and>
    sc_client_fd sc = fd \<and> sds_rep (sc_buffer sc) (file_head nm (ft_size fl))"
proof -
  have "th_self (prep_route_callback_send_file fd p) = Fn_send_file"
    "th_label (prep_route_callback_send_file fd p) = None" "th_path (prep_route_callback_send_file fd p) = p"
    by (simp_all add: prep_route_callback_send_file_def)
  with head_sent [OF assms(2-4), of 113 Fn_send_file fd p 77 "[]"] assms(1) show ?thesis
    by (auto simp: start_thread_def action_thread_def run_callback_def route_callback_send_file_def start_open_def
        async_io_open_file_def prep_as_thread install_def idle_def busy_def Let_def)
qed

text \<open>The file is opened and its size found; a failure leaves the descriptor or the size as it was.\<close>

lemma file_opened:
  assumes "LRU_cache_get ca p = Some (ca', None)"
  shows "process_cqe 8 (result r E) (busy rtr ca n (file_thread self fd p fl (open_line self) [] (Open_file_pt (Some 388) p)) (Pt_openat p)) =
    (let fl' = (if r < 0 then fl else fl\<lparr>ft_fd := r\<rparr>)
     in Some (busy rtr ca' n (file_thread self fd p fl' (open_line self) [] (Open_file_pt (Some 389) p)) (Pt_statx (ft_fd fl'))))"
proof -
  have "pt_resume E (file_thread self fd p fl' (open_line self) [] (Open_file_pt (Some 388) p)) ca =
      Some (ca', Some (file_thread self fd p fl' (open_line self) [] (Open_file_pt (Some 389) p)), Some (Pt_statx (ft_fd fl')), [])" for fl'
    using assms by (simp add: pt_resume_def async_io_open_file_def Let_def)
  note resume = alone_resumes [OF this, of n rtr]
  show ?thesis
    by (simp add: busy_completes completion_table_def handle_openat_completion_def update_alone resume Let_def)
qed

lemma file_measured:
  assumes "self \<noteq> Fn_send_404" and "LRU_cache_get ca p = Some (ca', None)" and "\<And>fl. LRU_cache_add ca' p fl = Some (ca2 fl, None)"
    and "env_ok E" and "ft_name fl = Some nm" and "CHR ''.'' \<in> set nm"
    and fl': "fl' = (if r < 0 then fl else fl\<lparr>ft_size := stx\<rparr>)"
  shows "\<exists>sc. process_cqe 8 \<lparr>cq_res = r, cq_data = [], cq_size = stx, cq_env = E\<rparr>
      (busy rtr ca n (file_thread self fd p fl (open_line self) [] (Open_file_pt (Some 389) p)) (Pt_statx x)) =
    Some (busy rtr (ca2 fl') n (file_thread self fd p fl' (head_line self) (file_head nm (ft_size fl'))
      (Send_buffer_pt (Some 405) (file_head nm (ft_size fl')))) (Pt_send sc)) \<and>
    sc_client_fd sc = fd \<and> sds_rep (sc_buffer sc) (file_head nm (ft_size fl'))"
proof -
  have nm: "ft_name fl' = Some nm" using assms(5) fl' by simp
  from head_sent [OF assms(4) this assms(6), of "head_line self" self fd p "open_line self" "[]"] obtain sc where
    sc: "send_head E (head_line self) (file_thread self fd p fl' (open_line self) [] No_child) =
      Some (file_thread self fd p fl' (head_line self) (file_head nm (ft_size fl')) (Send_buffer_pt (Some 405) (file_head nm (ft_size fl'))), Pt_send sc)"
    "sc_client_fd sc = fd" "sds_rep (sc_buffer sc) (file_head nm (ft_size fl'))" by blast
  have "pt_resume E (file_thread self fd p fl' (open_line self) [] (Open_file_pt (Some 389) p)) ca =
      Some (ca2 fl', Some (file_thread self fd p fl' (head_line self) (file_head nm (ft_size fl'))
        (Send_buffer_pt (Some 405) (file_head nm (ft_size fl')))), Some (Pt_send sc), [])"
    using assms(1-3) sc(1)
    by (cases self) (simp_all add: pt_resume_def async_io_open_file_def resume_caller_def run_callback_def
        route_callback_send_file_def route_callback_test_def open_line_def head_line_def)
  from alone_resumes [OF this, of n rtr] fl' sc show ?thesis
    by (auto simp: busy_completes completion_table_def handle_statx_completion_def update_alone)
qed

text \<open>The header has been taken by the kernel, and the file goes through the pipe.\<close>

definition pipes_of :: "pt_env \<Rightarrow> int \<times> int" where
  "pipes_of E = (case pe_pipe E of Some p \<Rightarrow> p | None \<Rightarrow> (0, 0))"

lemma header_taken:
  assumes "sds_rep (sc_buffer sc) h" and "h \<noteq> []"
  shows "process_cqe 8 (result (int (length h)) E) (busy rtr ca n (file_thread Fn_send_file fd p fl 113 raw (Send_buffer_pt (Some 405) b)) (Pt_send sc)) =
    Some (busy rtr ca n (file_thread Fn_send_file fd p fl 123 raw (Sendfile_pt (Some 427)))
      (Pt_splice_all (sendfile_context (ft_fd fl) fd (ft_size fl) (pipes_of E))))"
proof -
  obtain s' where s': "sdsrange (sc_buffer sc) (int (length h)) (- 1) = Some s'"
    "sds_rep s' (range_of h (int (length h)) (- 1))" using sdsrange_spec [OF assms(1)] by blast
  have "range_of h (int (length h)) (- 1) = []" using range_of_drop [of "length h" h] assms(2) by simp
  with s' have c: "handle_send_completion (int (length h)) sc = Some (Inl ())" by (simp add: handle_send_completion_def)
  have "pt_resume E (file_thread Fn_send_file fd p fl 113 raw (Send_buffer_pt (Some 405) b)) ca =
      Some (ca, Some (file_thread Fn_send_file fd p fl 123 raw (Sendfile_pt (Some 427))),
        Some (Pt_splice_all (sendfile_context (ft_fd fl) fd (ft_size fl) (pipes_of E))), [])"
    by (simp add: pt_resume_def async_io_send_buffer_def resume_caller_def run_callback_def route_callback_send_file_def
        async_io_sendfile_def pipes_of_def)
  from alone_resumes [OF this, of n rtr] c show ?thesis
    by (simp add: busy_completes completion_table_def send_completion_def)
qed

definition filled_context :: "int \<Rightarrow> int \<Rightarrow> nat \<Rightarrow> int \<times> int \<Rightarrow> splice_all_context" where
  "filled_context ffd fd k pipes =
     (sendfile_context ffd fd (of_nat k) pipes)\<lparr>sp_nbytes := 0, sp_in_pipe := of_nat k, sp_is_draining := True\<rparr>"

lemma file_filled:
  "process_cqe 8 (result (int k) E) (busy rtr ca n th (Pt_splice_all (sendfile_context ffd fd (of_nat k) pipes))) =
    Some (busy rtr ca n th (Pt_splice_all (filled_context ffd fd k pipes)))"
  unfolding busy_completes
  using u32_of_u64 [of k] by (simp add: completion_table_def splice_all_completion_def handle_splice_all_completion_def
      sendfile_context_def filled_context_def submit_def busy_def Let_def)

lemma file_drained:
  "process_cqe 8 (result (int k) E)
      (busy rtr ca n (file_thread Fn_send_file fd p fl 123 raw (Sendfile_pt (Some 427))) (Pt_splice_all (filled_context ffd fd k pipes))) =
    Some (busy rtr ca n (file_thread Fn_send_file fd p fl 127 raw No_child) (Pt_close fd))"
proof -
  have "pt_resume E (file_thread Fn_send_file fd p fl 123 raw (Sendfile_pt (Some 427))) ca =
      Some (ca, Some (file_thread Fn_send_file fd p fl 127 raw No_child), Some (Pt_close fd), [])"
    by (simp add: pt_resume_def resume_caller_def run_callback_def route_callback_send_file_def async_io_sendfile_def)
  from alone_resumes [OF this, of n rtr] show ?thesis
    by (simp add: busy_completes completion_table_def splice_all_completion_def handle_splice_all_completion_def
        sendfile_context_def filled_context_def Let_def)
qed

lemma connection_closed:
  "process_cqe 8 (result r E) (busy rtr ca n (file_thread Fn_send_file fd p fl 127 raw No_child) (Pt_close fd)) = Some (idle rtr ca (Suc n))"
proof -
  have "pt_resume E (file_thread Fn_send_file fd p fl 127 raw No_child) ca = Some (ca, None, None, [])"
    by (simp add: pt_resume_def run_callback_def route_callback_send_file_def)
  from alone_resumes [OF this, of n rtr] show ?thesis
    by (simp add: busy_completes completion_table_def handle_close_completion_def install_def idle_def)
qed

text \<open>The request for a public file that is not below \<open>/test\<close> starts the sending of that file only.\<close>

definition asks_for :: "dirent list \<Rightarrow> handler router_t \<Rightarrow> bytes \<Rightarrow> (bytes \<times> bytes \<times> bytes \<times> bytes) list \<Rightarrow> bool" where
  "asks_for es rtr f fs \<longleftrightarrow> router_setup (Some es) main_routes = Some rtr \<and> f \<in> set (files_under es ''/'') \<and> dotted f \<and>
     (\<forall>rest. uri_segs f \<noteq> '''' # ''test'' # rest) \<and> wf_request http_method_get f fs \<and>
     length (print_request http_method_get f fs) \<le> 8192"

lemma asks_for_actions:
  assumes "asks_for es rtr f fs" and "view (rq_raw req) (rq_URI req) = Some f" and "rq_method req = http_method_get"
  shows "router_handle_request rtr req = Some [Send_file (PUBLIC_DIR @ f)]"
proof -
  have made: "router_setup (Some es) main_routes = Some rtr" and f: "f \<in> set (files_under es ''/'')" "dotted f"
    "\<forall>rest. uri_segs f \<noteq> '''' # ''test'' # rest" using assms(1) by (auto simp: asks_for_def)
  have ne: "files_under es ''/'' \<noteq> []" using f(1) by auto
  obtain h where h: "trie_find_handler (routing_table rtr) http_method_get f = Some h"
    "router_handle_request rtr req = Some (dispatch (files_under es ''/'') h http_method_get f)"
    using router_dispatch [OF made ne assms(2)] assms(3) by auto
  have "h = None"
    using main_handler [OF router_setup_files(2) [OF made], of http_method_get f] f(3) h(1) by auto
  moreover have "f \<noteq> ''/''"
  proof
    assume "f = ''/''"
    moreover have "split_at ''/'' (join_with ''/'' ['''', '''']) = ['''', '''']" by (rule split_join) simp_all
    ultimately show False using f(2) by (simp add: dotted_def uri_segs_def)
  qed
  moreover have "CHR ''.'' \<in> set f"
  proof -
    have "uri_segs f \<noteq> []" using f(2) split_at_nonempty by (simp add: dotted_def uri_segs_def)
    have "set t \<subseteq> set (join_with ''/'' ts)" if "t \<in> set ts" for t and ts :: "bytes list"
      using that by (induction "''/'' :: bytes" ts rule: join_with.induct) auto
    from this [OF last_in_set [OF \<open>uri_segs f \<noteq> []\<close>]] f(2) show ?thesis by (auto simp: join_uri_segs dotted_def)
  qed
  ultimately show ?thesis using h(2) f(1) by (simp add: dispatch_def public_hit_def)
qed

section \<open>Whole exchanges\<close>

lemma get_arrives:
  assumes "asks_for es rtr f fs" and "env_ok E" and "0 \<le> fd"
  shows "async_io_process [(0, result fd E), (7, received (print_request http_method_get f fs) E)] (idle rtr ca n) =
    start_actions E fd [Send_file (PUBLIC_DIR @ f)] (idle rtr ca n)"
  using assms asks_for_actions [OF assms(1)]
  by (intro request_arrives(1)) (simp_all add: asks_for_def)

text \<open>The four uses of the cache while a file is opened that it does not hold.\<close>

lemma cache_opening:
  assumes "lru_holds ca m" and "m p = None" and "card (dom m) < lc_size ca" and "0 < hm_unused (lc_hmap ca)"
  obtains c1 c2 c3 :: file_cache and c4 where "LRU_cache_get ca p = Some (c1, None)" "LRU_cache_get c1 p = Some (c2, None)"
    "LRU_cache_get c2 p = Some (c3, None)" "\<And>v. LRU_cache_add c3 p v = Some (c4 v, None)"
    "\<And>v. lru_holds (c4 v) (m(p \<mapsto> v))"
proof -
  have again: "\<exists>c'. LRU_cache_get c p = Some (c', None) \<and> lru_holds c' m \<and> lc_hmap c' = lc_hmap c \<and> lc_size c' = lc_size c"
    if "lru_holds c m" for c :: file_cache using lru_get_holds [OF that, of p] assms(2) by auto
  obtain c1 where c1: "LRU_cache_get ca p = Some (c1, None)" "lru_holds c1 m" "lc_hmap c1 = lc_hmap ca" "lc_size c1 = lc_size ca"
    using again [OF assms(1)] by blast
  obtain c2 where c2: "LRU_cache_get c1 p = Some (c2, None)" "lru_holds c2 m" "lc_hmap c2 = lc_hmap c1" "lc_size c2 = lc_size c1"
    using again [OF c1(2)] by blast
  obtain c3 where c3: "LRU_cache_get c2 p = Some (c3, None)" "lru_holds c3 m" "lc_hmap c3 = lc_hmap c2" "lc_size c3 = lc_size c2"
    using again [OF c2(2)] by blast
  have "\<forall>v. \<exists>c. LRU_cache_add c3 p v = Some (c, None) \<and> lru_holds c (m(p \<mapsto> v))"
    using lru_add_holds [OF c3(2) assms(2)] c1 c2 c3 assms(3,4) by fastforce
  then obtain c4 where "\<And>v. LRU_cache_add c3 p v = Some (c4 v, None)" "\<And>v. lru_holds (c4 v) (m(p \<mapsto> v))" by metis
  with that c1 c2 c3 show thesis by blast
qed

text \<open>
  The first part of an exchange, whatever the results of \<open>openat\<close> and \<open>statx\<close>: the header
  that is then being sent, and what is in the cache.
\<close>

lemma get_uncached:
  assumes ask: "asks_for es rtr f fs" and E: "env_ok E" and fd: "0 \<le> fd"
    and ca: "lru_holds ca m" and none: "m (PUBLIC_DIR @ f) = None" and room: "card (dom m) < lc_size ca" "0 < hm_unused (lc_hmap ca)"
    and fl: "fl = \<lparr>ft_fd = (if r1 < 0 then 0 else r1), ft_name = Some (last (uri_segs f)), ft_path = None,
      ft_size = (if r2 < 0 then 0 else stx)\<rparr>"
  shows "\<exists>s1 ca' sc raw b. async_io_process [(0, result fd E), (7, received (print_request http_method_get f fs) E)] (idle rtr ca n) = Some s1 \<and>
    sv_ops s1 = replicate 8 Op_accept @ [Op_pt n (Pt_openat (PUBLIC_DIR @ f))] \<and>
    async_io_process [(8, result r1 E), (8, \<lparr>cq_res = r2, cq_data = [], cq_size = stx, cq_env = E\<rparr>)] s1 =
      Some (busy rtr ca' n (file_thread Fn_send_file fd (PUBLIC_DIR @ f) fl 113 raw (Send_buffer_pt (Some 405) b)) (Pt_send sc)) \<and>
    sc_client_fd sc = fd \<and> sds_rep (sc_buffer sc) (file_head (last (uri_segs f)) (ft_size fl)) \<and>
    lru_holds ca' (m(PUBLIC_DIR @ f \<mapsto> fl)) \<and>
    (\<exists>s1'. process_cqe 8 (result r1 E) s1 = Some s1' \<and>
       sv_ops s1' = replicate 8 Op_accept @ [Op_pt n (Pt_statx (ft_fd fl))])"
proof -
  let ?p = "PUBLIC_DIR @ f" and ?nm = "last (uri_segs f)"
  have f: "f \<in> set (files_under es ''/'')" "dotted f" using ask by (simp_all add: asks_for_def)
  obtain c1 c2 c3 c4 where c: "LRU_cache_get ca ?p = Some (c1, None)" "LRU_cache_get c1 ?p = Some (c2, None)"
    "LRU_cache_get c2 ?p = Some (c3, None)" "\<And>v. LRU_cache_add c3 ?p v = Some (c4 v, None)"
    "\<And>v. lru_holds (c4 v) (m(?p \<mapsto> v))" using cache_opening [OF ca none room] by metis
  let ?f0 = "zero_file\<lparr>ft_name := Some ?nm\<rparr>"
  define f1 where "f1 = (if r1 < 0 then ?f0 else ?f0\<lparr>ft_fd := r1\<rparr>)"
  have f1: "ft_name f1 = Some ?nm" "fl = (if r2 < 0 then f1 else f1\<lparr>ft_size := stx\<rparr>)"
    by (simp_all add: f1_def fl zero_file_def)
  note start = file_requested [OF c(1), of E fd rtr n, unfolded uri_segs_public [OF f(1)]]
  have nonempty: "?p \<noteq> []" by simp
  have dot: "CHR ''.'' \<in> set ?nm" using f(2) by (simp add: dotted_def)
  obtain sc where sc: "process_cqe 8 \<lparr>cq_res = r2, cq_data = [], cq_size = stx, cq_env = E\<rparr>
      (busy rtr c2 n (file_thread Fn_send_file fd ?p f1 77 [] (Open_file_pt (Some 389) ?p)) (Pt_statx (ft_fd f1))) =
    Some (busy rtr (c4 fl) n (file_thread Fn_send_file fd ?p fl 113 (file_head ?nm (ft_size fl))
      (Send_buffer_pt (Some 405) (file_head ?nm (ft_size fl)))) (Pt_send sc))"
    "sc_client_fd sc = fd" "sds_rep (sc_buffer sc) (file_head ?nm (ft_size fl))"
    using file_measured [of Fn_send_file, OF _ c(3) c(4) E f1(1) dot f1(2), of rtr n fd "ft_fd f1"]
    by (auto simp: open_line_def head_line_def)
  let ?s1 = "busy rtr c1 n (file_thread Fn_send_file fd ?p ?f0 77 [] (Open_file_pt (Some 388) ?p)) (Pt_openat ?p)"
  let ?s1' = "busy rtr c2 n (file_thread Fn_send_file fd ?p f1 77 [] (Open_file_pt (Some 389) ?p)) (Pt_statx (ft_fd f1))"
  let ?s2 = "busy rtr (c4 fl) n (file_thread Fn_send_file fd ?p fl 113 (file_head ?nm (ft_size fl))
      (Send_buffer_pt (Some 405) (file_head ?nm (ft_size fl)))) (Pt_send sc)"
  have arrived: "async_io_process [(0, result fd E), (7, received (print_request http_method_get f fs) E)] (idle rtr ca n) = Some ?s1"
    using get_arrives [OF ask E fd, of ca n] start [OF nonempty] by (rule trans)
  have opened: "process_cqe 8 (result r1 E) ?s1 = Some ?s1'"
    using file_opened [OF c(2), of r1 E rtr n Fn_send_file fd ?f0] by (simp add: f1_def Let_def open_line_def)
  have measured: "async_io_process [(8, result r1 E), (8, \<lparr>cq_res = r2, cq_data = [], cq_size = stx, cq_env = E\<rparr>)] ?s1 = Some ?s2"
    using opened sc(1) by (simp add: open_line_def head_line_def)
  have ops: "sv_ops ?s1' = replicate 8 Op_accept @ [Op_pt n (Pt_statx (ft_fd fl))]"
    by (simp add: busy_ops f1(2))
  show ?thesis
    by (rule exI [of _ ?s1], rule exI [of _ "c4 fl"], rule exI [of _ sc],
        rule exI [of _ "file_head ?nm (ft_size fl)"], rule exI [of _ "file_head ?nm (ft_size fl)"])
      (intro conjI arrived busy_ops measured sc(2,3) c(5) exI [of _ ?s1'] opened ops)
qed

text \<open>A request for the route of \<open>main.c\<close>, whose target has no dot, starts the test handler only.\<close>

definition asks_test :: "dirent list \<Rightarrow> handler router_t \<Rightarrow> bytes \<Rightarrow> (bytes \<times> bytes \<times> bytes \<times> bytes) list \<Rightarrow> bool" where
  "asks_test es rtr u fs \<longleftrightarrow> router_setup (Some es) main_routes = Some rtr \<and> files_under es ''/'' \<noteq> [] \<and>
     (\<exists>rest. uri_segs u = '''' # ''test'' # rest) \<and> CHR ''.'' \<notin> set u \<and> wf_request http_method_get u fs \<and>
     length (print_request http_method_get u fs) \<le> 8192"

lemma asks_test_actions:
  assumes "asks_test es rtr u fs" and "view (rq_raw req) (rq_URI req) = Some u" and "rq_method req = http_method_get"
  shows "router_handle_request rtr req = Some [Run_handler Route_callback_test]"
proof -
  have made: "router_setup (Some es) main_routes = Some rtr" and ne: "files_under es ''/'' \<noteq> []"
    and u: "\<exists>rest. uri_segs u = '''' # ''test'' # rest" "CHR ''.'' \<notin> set u" using assms(1) by (auto simp: asks_test_def)
  obtain h where h: "trie_find_handler (routing_table rtr) http_method_get u = Some h"
    "router_handle_request rtr req = Some (dispatch (files_under es ''/'') h http_method_get u)"
    using router_dispatch [OF made ne assms(2)] assms(3) by auto
  have "h = Some Route_callback_test"
    using main_handler [OF router_setup_files(2) [OF made], of http_method_get u] u(1) h(1) by simp
  moreover have "uri_segs ''/'' = ['''', '''']"
    using split_at_char_cons [of "CHR ''/''" "[]" "[]"] split_at_char_none [of "CHR ''/''" "[]"] by (simp add: uri_segs_def)
  then have "u \<noteq> ''/''" using u(1) by auto
  ultimately show ?thesis using h(2) u(2) by (simp add: dispatch_def public_hit_def)
qed

lemma test_requested:
  assumes "LRU_cache_get ca TEST_PATH = Some (ca', None)"
  shows "start_actions E fd [Run_handler Route_callback_test] (idle rtr ca n) = Some (busy rtr ca' n
    (file_thread Fn_test fd TEST_PATH ((pe_junk E)\<lparr>ft_name := Some ''test.html''\<rparr>) 51 [] (Open_file_pt (Some 388) TEST_PATH))
    (Pt_openat TEST_PATH))"
proof -
  have "uri_segs (join_with ''/'' [''assets'', ''public'', ''test.html'']) = [''assets'', ''public'', ''test.html'']"
    unfolding uri_segs_def by (subst split_join) simp_all
  then have "sdssplitlen TEST_PATH ''/'' = Some [''assets'', ''public'', ''test.html'']" by simp
  moreover have "(handler_thread fd Route_callback_test)\<lparr>th_path := TEST_PATH, th_file := pe_junk E, th_label := Some 51, th_file := fl\<rparr> =
      file_thread Fn_test fd TEST_PATH fl 51 [] No_child" for fl
    by (simp add: handler_thread_def file_thread_def)
  moreover have "th_self (handler_thread fd Route_callback_test) = Fn_test" "th_label (handler_thread fd Route_callback_test) = None"
    by (simp_all add: handler_thread_def)
  ultimately show ?thesis using assms
    by (simp add: start_thread_def action_thread_def run_callback_def route_callback_test_def start_open_def
        async_io_open_file_def install_def idle_def busy_def Let_def)
qed

text \<open>The header of the test page is sent; the next completion enters the handler and faults.\<close>

lemma test_header_taken:
  assumes "handle_send_completion (cq_res c) sc = Some (Inl ())"
  shows "process_cqe 8 c (busy rtr ca n (file_thread Fn_test fd p fl 85 raw (Send_buffer_pt (Some 405) b)) (Pt_send sc)) = None"
  using assms by (simp add: busy_completes completion_table_def send_completion_def resume_thread_def pt_resume_def
      async_io_send_buffer_def resume_caller_def run_callback_def route_callback_test_def)

lemma busy_reaches:
  assumes "reachable krn s0 (busy rtr ca n th q)" and "krn (Op_pt n q) c"
    and "process_cqe 8 c (busy rtr ca n th q) = Some s'"
  shows "reachable krn s0 s'"
  by (rule reachable.step [OF assms(1)], rule completes [of 8, OF _ _ assms(3)])
    (use assms(2) in \<open>simp_all add: busy_def nth_append\<close>)

lemma test_run:
  assumes ask: "asks_test es rtr u fs" and E: "env_ok E" and fd: "0 \<le> fd"
    and ca: "lru_holds ca m" and none: "m TEST_PATH = None" and room: "card (dom m) < lc_size ca" "0 < hm_unused (lc_hmap ca)"
    and fl: "fl = (pe_junk E)\<lparr>ft_fd := ffd, ft_name := Some ''test.html'', ft_size := stx\<rparr>" and ffd: "0 \<le> ffd"
  shows "\<exists>s1 ca' sc raw b. async_io_process [(0, result fd E), (7, received (print_request http_method_get u fs) E)] (idle rtr ca n) = Some s1 \<and>
    sv_ops s1 = replicate 8 Op_accept @ [Op_pt n (Pt_openat TEST_PATH)] \<and>
    async_io_process [(8, result ffd E), (8, \<lparr>cq_res = 0, cq_data = [], cq_size = stx, cq_env = E\<rparr>)] s1 =
      Some (busy rtr ca' n (file_thread Fn_test fd TEST_PATH fl 85 raw (Send_buffer_pt (Some 405) b)) (Pt_send sc)) \<and>
    sc_client_fd sc = fd \<and> sds_rep (sc_buffer sc) (file_head ''test.html'' stx) \<and>
    (\<forall>s0. reachable kernel_ok s0 (idle rtr ca n) \<longrightarrow>
      reachable kernel_ok s0 (busy rtr ca' n (file_thread Fn_test fd TEST_PATH fl 85 raw (Send_buffer_pt (Some 405) b)) (Pt_send sc)))"
proof -
  obtain c1 c2 c3 c4 where c: "LRU_cache_get ca TEST_PATH = Some (c1, None)" "LRU_cache_get c1 TEST_PATH = Some (c2, None)"
    "LRU_cache_get c2 TEST_PATH = Some (c3, None)" "\<And>v. LRU_cache_add c3 TEST_PATH v = Some (c4 v, None)"
    using cache_opening [OF ca none room] by metis
  let ?f0 = "(pe_junk E)\<lparr>ft_name := Some ''test.html''\<rparr>"
  note start = test_requested [OF c(1), of E fd rtr n]
  note arrives = request_arrives [OF E _ _ asks_test_actions [OF ask] fd, where ca = ca and n = n]
  have op: "process_cqe 8 (result ffd E) (busy rtr c1 n (file_thread Fn_test fd TEST_PATH ?f0 51 [] (Open_file_pt (Some 388) TEST_PATH)) (Pt_openat TEST_PATH)) =
      Some (busy rtr c2 n (file_thread Fn_test fd TEST_PATH (?f0\<lparr>ft_fd := ffd\<rparr>) 51 [] (Open_file_pt (Some 389) TEST_PATH)) (Pt_statx ffd))"
    using file_opened [OF c(2), of ffd E rtr n Fn_test fd ?f0] ffd by (simp add: open_line_def)
  obtain sc where st: "process_cqe 8 \<lparr>cq_res = 0, cq_data = [], cq_size = stx, cq_env = E\<rparr>
      (busy rtr c2 n (file_thread Fn_test fd TEST_PATH (?f0\<lparr>ft_fd := ffd\<rparr>) 51 [] (Open_file_pt (Some 389) TEST_PATH)) (Pt_statx ffd)) =
    Some (busy rtr (c4 fl) n (file_thread Fn_test fd TEST_PATH fl 85 (file_head ''test.html'' stx)
      (Send_buffer_pt (Some 405) (file_head ''test.html'' stx))) (Pt_send sc))"
    "sc_client_fd sc = fd" "sds_rep (sc_buffer sc) (file_head ''test.html'' stx)"
    using file_measured [of Fn_test, OF _ c(3) c(4) E, of "?f0\<lparr>ft_fd := ffd\<rparr>" "''test.html''" fl 0 stx rtr n fd ffd]
    by (auto simp: open_line_def head_line_def fl)
  have get: "wf_request http_method_get u fs" "length (print_request http_method_get u fs) \<le> 8192"
    using ask by (simp_all add: asks_test_def)
  have run: "async_io_process [(0, result fd E), (7, received (print_request http_method_get u fs) E)] (idle rtr ca n) =
      Some (busy rtr c1 n (file_thread Fn_test fd TEST_PATH ?f0 51 [] (Open_file_pt (Some 388) TEST_PATH)) (Pt_openat TEST_PATH))"
    using arrives(1) [OF get] start by simp
  have "reachable kernel_ok s0 (busy rtr (c4 fl) n (file_thread Fn_test fd TEST_PATH fl 85 (file_head ''test.html'' stx)
      (Send_buffer_pt (Some 405) (file_head ''test.html'' stx))) (Pt_send sc))" if r: "reachable kernel_ok s0 (idle rtr ca n)" for s0
    using busy_reaches [OF busy_reaches [OF arrives(2) [OF get _ _ r start] _ op] _ st(1)] E by (simp add: kernel_ok_def)
  with run op st show ?thesis by (intro exI conjI) (auto simp: busy_def)
qed

section \<open>Properties\<close>

text \<open>A router with two public files, an environment and a request for one of them.\<close>

lemma example_site:
  "\<exists>rtr ca. asks_for example_dir rtr ''/index.html'' [] \<and> asks_test example_dir rtr ''/test'' [] \<and>
     async_io_file_cache = Some ca \<and> lru_holds ca Map.empty \<and> lc_size ca = 16 \<and> 0 < hm_unused (lc_hmap ca) \<and>
     (\<forall>f\<in>set (files_under example_dir ''/''). dotted f)"
proof -
  obtain rtr where rtr: "router_setup (Some example_dir) main_routes = Some rtr" using example_router by blast
  obtain ca :: file_cache where ca: "async_io_file_cache = Some ca" "lru_holds ca Map.empty" "lc_size ca = 16"
    "16 \<le> hm_unused (lc_hmap ca)"
    using lru_create_total [of 16 280, where ?'v = file_t] by (auto simp: async_io_file_cache_def)
  have segs: "uri_segs ''/index.html'' = ['''', ''index.html'']" "uri_segs ''/test'' = ['''', ''test'']"
    using split_at_char_cons [of "CHR ''/''" "[]" "''index.html''"] split_at_char_none [of "CHR ''/''" "''index.html''"]
      split_at_char_cons [of "CHR ''/''" "[]" "''test''"] split_at_char_none [of "CHR ''/''" "''test''"]
    by (simp_all add: uri_segs_def)
  have dots: "dotted ''/index.html''" "dotted ''/test/a.html''"
    by (simp_all add: dotted_def segs uri_segs_example)
  have "asks_for example_dir rtr ''/index.html'' []"
    using rtr dots(1) by (simp add: asks_for_def example_files hidden_def segs wf_request_def request_line_def method_name_def print_request_def)
  moreover have "asks_test example_dir rtr ''/test'' []"
    using rtr by (simp add: asks_test_def example_files hidden_def segs wf_request_def request_line_def method_name_def print_request_def)
  ultimately show ?thesis using ca dots by (intro exI [of _ rtr] exI [of _ ca]) (simp add: example_files hidden_def)
qed

lemma example_env_ok [simp]: "env_ok example_env"
  by (simp add: env_ok_def)

abbreviation measured :: "int \<Rightarrow> nat \<Rightarrow> pt_env \<Rightarrow> cqe" where
  "measured r k E \<equiv> \<lparr>cq_res = r, cq_data = [], cq_size = of_nat k, cq_env = E\<rparr>"

text \<open>
  C2. A whole exchange, for a file of at most 64 KiB that is not in the cache and is moved into
  the pipe and out of it in one piece each.  A client that sends a well-formed GET for a public
  file that is not below \<open>/test\<close> makes the server open exactly that file, measure the descriptor
  it got, send the client the header with the file's type and size, move that descriptor's bytes
  into the pipe and from the pipe to the client, and close the client's connection: at each of
  these points that operation is, but for the eight accepts, the only one in flight.  The server
  is then as before, with the file in its cache.
\<close>

theorem get_served:
  assumes "asks_for es rtr f fs" and "env_ok E" and "0 \<le> fd" and "0 \<le> ffd"
    and "lru_holds ca m" and "m (PUBLIC_DIR @ f) = None" and "card (dom m) < lc_size ca" and "0 < hm_unused (lc_hmap ca)"
    and "0 < k" and "k \<le> 65536"
    and "h = file_head (last (uri_segs f)) (of_nat k)"
  shows "\<exists>s1 s1' s2 s3 s4 s5 sc ca'.
    async_io_process [(0, result fd E), (7, received (print_request http_method_get f fs) E)] (idle rtr ca n) = Some s1 \<and>
    sv_ops s1 = replicate 8 Op_accept @ [Op_pt n (Pt_openat (PUBLIC_DIR @ f))] \<and>
    process_cqe 8 (result ffd E) s1 = Some s1' \<and>
    sv_ops s1' = replicate 8 Op_accept @ [Op_pt n (Pt_statx ffd)] \<and>
    process_cqe 8 (measured 0 k E) s1' = Some s2 \<and>
    sv_ops s2 = replicate 8 Op_accept @ [Op_pt n (Pt_send sc)] \<and> sc_client_fd sc = fd \<and> sds_bytes (sc_buffer sc) = h \<and>
    process_cqe 8 (result (int (length h)) E) s2 = Some s3 \<and>
    sv_ops s3 = replicate 8 Op_accept @ [Op_pt n (Pt_splice_all (sendfile_context ffd fd (of_nat k) (pipes_of E)))] \<and>
    process_cqe 8 (result (int k) E) s3 = Some s4 \<and>
    sv_ops s4 = replicate 8 Op_accept @ [Op_pt n (Pt_splice_all (filled_context ffd fd k (pipes_of E)))] \<and>
    process_cqe 8 (result (int k) E) s4 = Some s5 \<and>
    sv_ops s5 = replicate 8 Op_accept @ [Op_pt n (Pt_close fd)] \<and>
    process_cqe 8 (result r E) s5 = Some (idle rtr ca' (Suc n)) \<and>
    lru_holds ca' (m(PUBLIC_DIR @ f \<mapsto>
      \<lparr>ft_fd = ffd, ft_name = Some (last (uri_segs f)), ft_path = None, ft_size = of_nat k\<rparr>))"
proof -
  define fl where "fl = \<lparr>ft_fd = ffd, ft_name = Some (last (uri_segs f)), ft_path = None, ft_size = of_nat k :: u64\<rparr>"
  have fl: "fl = \<lparr>ft_fd = (if ffd < 0 then 0 else ffd), ft_name = Some (last (uri_segs f)), ft_path = None,
      ft_size = (if (0 :: int) < 0 then 0 else of_nat k)\<rparr>" using assms(4) by (simp add: fl_def)
  have stx: "ft_size fl = of_nat k" "ft_fd fl = ffd" by (simp_all add: fl_def)
  let ?p = "PUBLIC_DIR @ f"
  obtain s1 s1' ca' sc raw b where run:
    "async_io_process [(0, result fd E), (7, received (print_request http_method_get f fs) E)] (idle rtr ca n) = Some s1"
    "sv_ops s1 = replicate 8 Op_accept @ [Op_pt n (Pt_openat ?p)]"
    "async_io_process [(8, result ffd E), (8, measured 0 k E)] s1 =
      Some (busy rtr ca' n (file_thread Fn_send_file fd ?p fl 113 raw (Send_buffer_pt (Some 405) b)) (Pt_send sc))"
    "sc_client_fd sc = fd" "sds_rep (sc_buffer sc) h" "lru_holds ca' (m(?p \<mapsto> fl))"
    "process_cqe 8 (result ffd E) s1 = Some s1'" "sv_ops s1' = replicate 8 Op_accept @ [Op_pt n (Pt_statx ffd)]"
    using get_uncached [OF assms(1-3,5-8) fl] unfolding stx assms(11) by blast
  define th where "th = file_thread Fn_send_file fd ?p fl 123 raw (Sendfile_pt (Some 427))"
  define s2 where "s2 = busy rtr ca' n (file_thread Fn_send_file fd ?p fl 113 raw (Send_buffer_pt (Some 405) b)) (Pt_send sc)"
  define s3 where "s3 = busy rtr ca' n th (Pt_splice_all (sendfile_context ffd fd (of_nat k) (pipes_of E)))"
  define s4 where "s4 = busy rtr ca' n th (Pt_splice_all (filled_context ffd fd k (pipes_of E)))"
  define s5 where "s5 = busy rtr ca' n (file_thread Fn_send_file fd ?p fl 127 raw No_child) (Pt_close fd)"
  have measured: "process_cqe 8 (measured 0 k E) s1' = Some s2"
    using run(3,7) unfolding s2_def by (cases "process_cqe 8 (measured 0 k E) s1'") simp_all
  have "h \<noteq> []" using assms(11) by (simp add: file_head_def)
  from header_taken [OF run(5) this, of E rtr ca' n fd ?p fl raw b]
  have sent: "process_cqe 8 (result (int (length h)) E) s2 = Some s3"
    unfolding s2_def s3_def th_def by (simp only: stx)
  have filled: "process_cqe 8 (result (int k) E) s3 = Some s4" unfolding s3_def s4_def by (rule file_filled)
  have drained: "process_cqe 8 (result (int k) E) s4 = Some s5"
    unfolding s4_def s5_def th_def by (rule file_drained)
  have closed: "process_cqe 8 (result r E) s5 = Some (idle rtr ca' (Suc n))"
    unfolding s5_def by (rule connection_closed)
  have ops: "sv_ops s2 = replicate 8 Op_accept @ [Op_pt n (Pt_send sc)]"
    "sv_ops s3 = replicate 8 Op_accept @ [Op_pt n (Pt_splice_all (sendfile_context ffd fd (of_nat k) (pipes_of E)))]"
    "sv_ops s4 = replicate 8 Op_accept @ [Op_pt n (Pt_splice_all (filled_context ffd fd k (pipes_of E)))]"
    "sv_ops s5 = replicate 8 Op_accept @ [Op_pt n (Pt_close fd)]"
    unfolding s2_def s3_def s4_def s5_def by (rule busy_ops)+
  show ?thesis
    by (rule exI [of _ s1], rule exI [of _ s1'], rule exI [of _ s2], rule exI [of _ s3], rule exI [of _ s4],
        rule exI [of _ s5], rule exI [of _ sc], rule exI [of _ ca'])
      (intro conjI run(1,2,4,7,8) measured sent filled drained closed run(6) [unfolded fl_def] sds_bytes_rep [OF run(5)] ops)
qed

theorem get_served_witness:
  "\<exists>rtr ca s1 s1' s2 sc s5 ca'. router_setup (Some example_dir) main_routes = Some rtr \<and> async_io_file_cache = Some ca \<and>
     async_io_process [(0, result 5 example_env),
       (7, received (print_request http_method_get ''/index.html'' []) example_env)] (server_run rtr ca) = Some s1 \<and>
     sv_ops s1 = replicate 8 Op_accept @ [Op_pt 0 (Pt_openat (PUBLIC_DIR @ ''/index.html''))] \<and>
     process_cqe 8 (result 6 example_env) s1 = Some s1' \<and> process_cqe 8 (measured 0 1000 example_env) s1' = Some s2 \<and>
     sv_ops s2 = replicate 8 Op_accept @ [Op_pt 0 (Pt_send sc)] \<and> sc_client_fd sc = 5 \<and>
     sv_ops s5 = replicate 8 Op_accept @ [Op_pt 0 (Pt_close 5)] \<and>
     process_cqe 8 (result 0 example_env) s5 = Some (idle rtr ca' (Suc 0))"
proof -
  obtain rtr and ca :: file_cache where site: "asks_for example_dir rtr ''/index.html'' []" "async_io_file_cache = Some ca"
    "lru_holds ca Map.empty" "lc_size ca = 16" "0 < hm_unused (lc_hmap ca)" using example_site by blast
  have made: "router_setup (Some example_dir) main_routes = Some rtr" using site(1) by (simp add: asks_for_def)
  have pre: "0 \<le> (5 :: int)" "0 \<le> (6 :: int)" "Map.empty (PUBLIC_DIR @ ''/index.html'') = None"
    "card (dom Map.empty) < lc_size ca" "0 < (1000 :: nat)" "(1000 :: nat) \<le> 65536" using site(4) by simp_all
  show ?thesis unfolding server_run_idle
    using get_served [OF site(1) example_env_ok pre(1,2) site(3) pre(3,4) site(5) pre(5,6) refl, of 0 0] site(2) made
    by blast
qed

text \<open>
  C20. A file that is cached is not opened or measured again: the header announces the size
  that was found when it was first opened, and the same descriptor is read.
\<close>

theorem get_from_cache:
  assumes "asks_for es rtr f fs" and "env_ok E" and "0 \<le> fd" and "lru_holds ca m"
    and "m (PUBLIC_DIR @ f) = Some fl" and "ft_name fl = Some nm" and "CHR ''.'' \<in> set nm"
  shows "\<exists>s1 s2 sc.
    async_io_process [(0, result fd E), (7, received (print_request http_method_get f fs) E)] (idle rtr ca n) = Some s1 \<and>
    last (sv_ops s1) = Op_pt n (Pt_send sc) \<and> sc_client_fd sc = fd \<and>
    sds_bytes (sc_buffer sc) = file_head nm (ft_size fl) \<and>
    process_cqe 8 (result (int (length (file_head nm (ft_size fl)))) E) s1 = Some s2 \<and>
    last (sv_ops s2) = Op_pt n (Pt_splice_all (sendfile_context (ft_fd fl) fd (ft_size fl) (pipes_of E)))"
proof -
  let ?h = "file_head nm (ft_size fl)"
  obtain ca' where ca': "LRU_cache_get ca (PUBLIC_DIR @ f) = Some (ca', Some fl)"
    using lru_get_holds [OF assms(4), of "PUBLIC_DIR @ f"] assms(5) by auto
  obtain sc where sc: "start_actions E fd [Send_file (PUBLIC_DIR @ f)] (idle rtr ca n) = Some (busy rtr ca' n
      (file_thread Fn_send_file fd (PUBLIC_DIR @ f) fl 113 ?h (Send_buffer_pt (Some 405) ?h)) (Pt_send sc))"
    "sc_client_fd sc = fd" "sds_rep (sc_buffer sc) ?h"
    using file_cached [OF ca' assms(2,6,7), of fd rtr n] by blast
  let ?s1 = "busy rtr ca' n (file_thread Fn_send_file fd (PUBLIC_DIR @ f) fl 113 ?h (Send_buffer_pt (Some 405) ?h)) (Pt_send sc)"
  let ?s2 = "busy rtr ca' n (file_thread Fn_send_file fd (PUBLIC_DIR @ f) fl 123 ?h (Sendfile_pt (Some 427)))
    (Pt_splice_all (sendfile_context (ft_fd fl) fd (ft_size fl) (pipes_of E)))"
  have run: "async_io_process [(0, result fd E), (7, received (print_request http_method_get f fs) E)] (idle rtr ca n) = Some ?s1"
    using get_arrives [OF assms(1-3), of ca n] sc(1) by (rule trans)
  have "?h \<noteq> []" by (simp add: file_head_def)
  have sent: "process_cqe 8 (result (int (length ?h)) E) ?s1 = Some ?s2" by (rule header_taken [OF sc(3) \<open>?h \<noteq> []\<close>])
  show ?thesis
    by (rule exI [of _ ?s1], rule exI [of _ ?s2], rule exI [of _ sc])
      (intro conjI run busy_sel(1) sc(2) sent sds_bytes_rep [OF sc(3)])
qed

theorem get_from_cache_witness:
  "\<exists>rtr ca s1 sc. router_setup (Some example_dir) main_routes = Some rtr \<and>
     lru_holds ca [''assets/public/index.html'' \<mapsto> \<lparr>ft_fd = 6, ft_name = Some ''index.html'', ft_path = None, ft_size = 1000\<rparr>] \<and>
     async_io_process [(0, result 5 example_env),
       (7, received (print_request http_method_get ''/index.html'' []) example_env)] (idle rtr ca 1) = Some s1 \<and>
     last (sv_ops s1) = Op_pt 1 (Pt_send sc) \<and> sds_bytes (sc_buffer sc) = file_head ''index.html'' 1000"
proof -
  obtain rtr and ca :: file_cache where site: "asks_for example_dir rtr ''/index.html'' []" "lru_holds ca Map.empty" "lc_size ca = 16"
    "0 < hm_unused (lc_hmap ca)" using example_site by blast
  let ?fl = "\<lparr>ft_fd = 6, ft_name = Some ''index.html'', ft_path = None, ft_size = 1000 :: u64\<rparr>"
  obtain ca' where "lru_holds ca' [''assets/public/index.html'' \<mapsto> ?fl]"
    using lru_add_holds [OF site(2), of "''assets/public/index.html''" ?fl] site(3,4) by auto
  with get_from_cache [OF site(1) example_env_ok _ this, of 5 ?fl "''index.html''" 1] site(1)
  show ?thesis by (auto simp: asks_for_def)
qed

text \<open>
  C18. When the file cannot be opened, nobody notices: the failed completion only resumes the
  protothread, which answers 200 with whatever size is found for descriptor 0, goes on to send
  descriptor 0, and stores it in the cache under the file's name.
\<close>

theorem missing_file_answers_200:
  assumes "asks_for es rtr f fs" and "env_ok E" and "0 \<le> fd" and "r1 < 0"
    and "lru_holds ca m" and "m (PUBLIC_DIR @ f) = None" and "card (dom m) < lc_size ca" and "0 < hm_unused (lc_hmap ca)"
    and "stx' = (if r2 < 0 then 0 else stx)" and "h = file_head (last (uri_segs f)) stx'"
  shows "\<exists>s1 s2 s3 sc.
    async_io_process [(0, result fd E), (7, received (print_request http_method_get f fs) E)] (idle rtr ca n) = Some s1 \<and>
    async_io_process [(8, result r1 E), (8, \<lparr>cq_res = r2, cq_data = [], cq_size = stx, cq_env = E\<rparr>)] s1 = Some s2 \<and>
    last (sv_ops s2) = Op_pt n (Pt_send sc) \<and> sds_bytes (sc_buffer sc) = h \<and> take 15 h = ''HTTP/1.1 200 OK'' \<and>
    lru_holds (sv_cache s2) (m(PUBLIC_DIR @ f \<mapsto>
      \<lparr>ft_fd = 0, ft_name = Some (last (uri_segs f)), ft_path = None, ft_size = stx'\<rparr>)) \<and>
    process_cqe 8 (result (int (length h)) E) s2 = Some s3 \<and>
    last (sv_ops s3) = Op_pt n (Pt_splice_all (sendfile_context 0 fd stx' (pipes_of E)))"
proof -
  define fl where "fl = \<lparr>ft_fd = 0, ft_name = Some (last (uri_segs f)), ft_path = None, ft_size = stx'\<rparr>"
  have fl: "fl = \<lparr>ft_fd = (if r1 < 0 then 0 else r1), ft_name = Some (last (uri_segs f)), ft_path = None,
      ft_size = (if r2 < 0 then 0 else stx)\<rparr>" using assms(4,9) by (simp add: fl_def)
  have sel: "ft_fd fl = 0" "ft_size fl = stx'" by (simp_all add: fl_def)
  obtain s1 ca' sc raw b where run:
    "async_io_process [(0, result fd E), (7, received (print_request http_method_get f fs) E)] (idle rtr ca n) = Some s1"
    "async_io_process [(8, result r1 E), (8, \<lparr>cq_res = r2, cq_data = [], cq_size = stx, cq_env = E\<rparr>)] s1 =
      Some (busy rtr ca' n (file_thread Fn_send_file fd (PUBLIC_DIR @ f) fl 113 raw (Send_buffer_pt (Some 405) b)) (Pt_send sc))"
    "sds_rep (sc_buffer sc) h" "lru_holds ca' (m(PUBLIC_DIR @ f \<mapsto> fl))"
    using get_uncached [OF assms(1-3,5-8) fl] unfolding sel assms(10) by blast
  have h: "h \<noteq> []" "take 15 h = ''HTTP/1.1 200 OK''" by (simp_all add: assms(10) file_head_def)
  note sent = header_taken [OF run(3) h(1), of E rtr ca' n fd "PUBLIC_DIR @ f" fl raw b, unfolded sel]
  show ?thesis
    by (intro exI conjI, rule run(1), rule run(2), rule busy_sel(1), rule sds_bytes_rep [OF run(3)], rule h(2),
        use run(4) in \<open>simp add: fl_def\<close>, rule sent, rule busy_sel(1))
qed

theorem missing_file_answers_200_witness:
  "\<exists>rtr ca s1 s2 sc. async_io_process [(0, result 5 example_env),
       (7, received (print_request http_method_get ''/index.html'' []) example_env)] (server_run rtr ca) = Some s1 \<and>
     async_io_process [(8, result (- 2) example_env), (8, result (- 22) example_env)] s1 = Some s2 \<and>
     last (sv_ops s2) = Op_pt 0 (Pt_send sc) \<and> take 15 (sds_bytes (sc_buffer sc)) = ''HTTP/1.1 200 OK''"
proof -
  obtain rtr and ca :: file_cache where site: "asks_for example_dir rtr ''/index.html'' []"
    "lru_holds ca Map.empty" "lc_size ca = 16" "0 < hm_unused (lc_hmap ca)" using example_site by blast
  from missing_file_answers_200 [OF site(1) example_env_ok _ _ site(2) _ _ site(4) refl refl,
      where fd = 5 and ?r1.0 = "- 2" and ?r2.0 = "- 22" and stx = 0 and n = 0] site
  show ?thesis by (intro exI [of _ rtr] exI [of _ ca]) (auto simp: server_run_idle)
qed

text \<open>
  C19. The page of the route \<open>/test\<close>: its header is sent in full, and then the handler reads a
  variable that no longer exists, so the server faults before a byte of the page is sent.
\<close>

theorem test_page_faults:
  assumes "asks_test es rtr u fs" and "env_ok E" and "0 \<le> fd" and "0 \<le> ffd"
    and "lru_holds ca m" and "m TEST_PATH = None" and "card (dom m) < lc_size ca" and "0 < hm_unused (lc_hmap ca)"
    and "h = file_head ''test.html'' (of_nat k)"
  shows "\<exists>s1 s2 sc.
    async_io_process [(0, result fd E), (7, received (print_request http_method_get u fs) E)] (idle rtr ca n) = Some s1 \<and>
    last (sv_ops s1) = Op_pt n (Pt_openat TEST_PATH) \<and>
    async_io_process [(8, result ffd E), (8, measured 0 k E)] s1 = Some s2 \<and>
    last (sv_ops s2) = Op_pt n (Pt_send sc) \<and> sc_client_fd sc = fd \<and> sds_bytes (sc_buffer sc) = h \<and>
    process_cqe 8 (result (int (length h)) E) s2 = None"
proof -
  obtain s1 ca' sc raw b where run:
    "async_io_process [(0, result fd E), (7, received (print_request http_method_get u fs) E)] (idle rtr ca n) = Some s1"
    "sv_ops s1 = replicate 8 Op_accept @ [Op_pt n (Pt_openat TEST_PATH)]"
    "async_io_process [(8, result ffd E), (8, measured 0 k E)] s1 =
      Some (busy rtr ca' n (file_thread Fn_test fd TEST_PATH
        ((pe_junk E)\<lparr>ft_fd := ffd, ft_name := Some ''test.html'', ft_size := of_nat k\<rparr>) 85 raw (Send_buffer_pt (Some 405) b)) (Pt_send sc))"
    "sc_client_fd sc = fd" "sds_rep (sc_buffer sc) h"
    using test_run [OF assms(1-3,5-8) refl assms(4)] unfolding assms(9) by blast
  have "h \<noteq> []" using assms(9) by (simp add: file_head_def)
  then have "range_of h (int (length h)) (- 1) = []" using range_of_drop [of "length h" h] by simp
  then have "handle_send_completion (int (length h)) sc = Some (Inl ())"
    using sdsrange_spec [OF run(5), of "int (length h)" "- 1"] by (auto simp: handle_send_completion_def)
  then have fault: "process_cqe 8 (result (int (length h)) E) (busy rtr ca' n (file_thread Fn_test fd TEST_PATH
      ((pe_junk E)\<lparr>ft_fd := ffd, ft_name := Some ''test.html'', ft_size := of_nat k\<rparr>) 85 raw (Send_buffer_pt (Some 405) b)) (Pt_send sc)) = None"
    by (intro test_header_taken) simp
  show ?thesis
    by (intro exI conjI, rule run(1), simp add: run(2), rule run(3), rule busy_sel(1), rule run(4),
        rule sds_bytes_rep [OF run(5)], rule fault)
qed

theorem test_page_faults_witness:
  "\<exists>rtr ca s1 s2. async_io_process [(0, result 5 example_env),
       (7, received (print_request http_method_get ''/test'' []) example_env)] (server_run rtr ca) = Some s1 \<and>
     async_io_process [(8, result 6 example_env), (8, measured 0 1000 example_env)] s1 = Some s2 \<and>
     process_cqe 8 (result (int (length (file_head ''test.html'' 1000))) example_env) s2 = None"
proof -
  obtain rtr and ca :: file_cache where site: "asks_test example_dir rtr ''/test'' []"
    "lru_holds ca Map.empty" "lc_size ca = 16" "0 < hm_unused (lc_hmap ca)" using example_site by blast
  from test_page_faults [OF site(1) example_env_ok _ _ site(2) _ _ site(4) refl, of 5 6 0 1000] site
  show ?thesis by (intro exI [of _ rtr] exI [of _ ca]) (auto simp: server_run_idle)
qed

text \<open>
  C12. Every file the server ever asks the kernel to open is the index page, the test page, or
  a file the walk of the public directory listed, whatever the clients send and whatever the
  kernel answers.
\<close>

theorem opened_files_confined:
  assumes "router_setup (Some es) specs = Some rtr" and "reachable krn (server_run rtr cache) s"
    and "Op_pt tid (Pt_openat p) \<in> set (sv_ops s)"
  shows "p \<in> {INDEX_PATH, TEST_PATH} \<union> (@) PUBLIC_DIR ` set (files_under es ''/'')"
  using opened_paths [OF assms(2,3)] served_paths_main [OF assms(1)] by auto

theorem opened_files_confined_witness:
  "\<exists>rtr ca s tid p. router_setup (Some example_dir) main_routes = Some rtr \<and>
     reachable kernel_ok (server_run rtr ca) s \<and> Op_pt tid (Pt_openat p) \<in> set (sv_ops s) \<and>
     p \<in> {''assets/public/index.html'', ''assets/public/test.html'', ''assets/public/test/a.html''}"
proof -
  obtain rtr and ca :: file_cache where site: "asks_for example_dir rtr ''/index.html'' []" "lru_holds ca Map.empty"
    using example_site by blast
  have made: "router_setup (Some example_dir) main_routes = Some rtr" using site(1) by (simp add: asks_for_def)
  let ?p = "PUBLIC_DIR @ ''/index.html''"
  obtain c1 where c1: "LRU_cache_get ca ?p = Some (c1, None)" using lru_get_holds [OF site(2), of ?p] by auto
  have "?p \<noteq> []" by simp
  note start = file_requested [OF c1 this, of example_env 5 rtr 0]
  have "wf_request http_method_get ''/index.html'' []" "length (print_request http_method_get ''/index.html'' []) \<le> 8192"
    using site(1) by (simp_all add: asks_for_def)
  note r = request_arrives(2) [OF example_env_ok this asks_for_actions [OF site(1)] _ _ start]
  let ?s = "busy rtr c1 0 (file_thread Fn_send_file 5 ?p (zero_file\<lparr>ft_name := Some (last (uri_segs ?p))\<rparr>) 77 []
    (Open_file_pt (Some 388) ?p)) (Pt_openat ?p)"
  have s: "reachable kernel_ok (server_run rtr ca) ?s" "Op_pt 0 (Pt_openat ?p) \<in> set (sv_ops ?s)"
    using r [of kernel_ok "server_run rtr ca"] by (simp_all add: server_run_idle reachable.here busy_def)
  have "?p \<in> {''assets/public/index.html'', ''assets/public/test.html'', ''assets/public/test/a.html''}"
    using opened_files_confined [OF made s] by (auto simp: example_files hidden_def)
  with made s show ?thesis by blast
qed

text \<open>
  C13. The discipline of the protothreads: in every reachable state each protothread has exactly
  one operation in flight, of the kind and for the child its labels wait for, and no operation
  belongs to a protothread that has ended; so a completion never resumes a protothread at the
  wrong place or after its end.
\<close>

theorem one_operation_per_protothread:
  assumes "reachable krn (server_run rtr cache) s"
  shows "(case sv_threads s tid of
      None \<Rightarrow> ops_for tid s = []
    | Some th \<Rightarrow> (\<exists>q. ops_for tid s = [Op_pt tid q] \<and> thread_waits th q))"
  using reachable_threads_ok [OF assms] by (auto simp: threads_ok_def thread_agrees_def split: option.splits)

theorem one_operation_per_protothread_witness:
  "\<exists>rtr ca s th. reachable kernel_ok (server_run rtr ca) s \<and> sv_threads s 0 = Some th \<and>
     (\<exists>q. ops_for 0 s = [Op_pt 0 q] \<and> thread_waits th q)"
proof -
  obtain rtr and ca :: file_cache where site: "asks_test example_dir rtr ''/test'' []"
    "lru_holds ca Map.empty" "lc_size ca = 16" "0 < hm_unused (lc_hmap ca)" using example_site by blast
  obtain ca' sc raw b where r: "reachable kernel_ok (server_run rtr ca)
      (busy rtr ca' 0 (file_thread Fn_test 5 TEST_PATH (zero_file\<lparr>ft_fd := 6, ft_name := Some ''test.html'', ft_size := 1000\<rparr>) 85 raw
        (Send_buffer_pt (Some 405) b)) (Pt_send sc))" (is "reachable _ _ ?s")
    using test_run [OF site(1) example_env_ok _ site(2) _ _ site(4) refl,
      where fd = 5 and ffd = 6 and stx = 1000 and n = 0] site(3)
    by (auto simp: server_run_idle intro: reachable.here)
  obtain th where th: "sv_threads ?s 0 = Some th" by (simp add: busy_def)
  have "\<exists>q. ops_for 0 ?s = [Op_pt 0 q] \<and> thread_waits th q"
    using one_operation_per_protothread [OF r, of 0] unfolding th by simp
  with r th show ?thesis by blast
qed

end
