(* ===== verification/Isolation.thy ===== *)
theory Isolation
  imports Exchange
begin

text \<open>
  Whose data goes where: however the operations of several clients interleave, each operation
  in flight works for the client and on the file of its own protothread.
\<close>

section \<open>What an operation in flight does for its protothread\<close>

definition serves :: "thread \<Rightarrow> pt_op \<Rightarrow> bool" where
  "serves th q =
     (case q of
        Pt_openat p \<Rightarrow> p = th_path th
      | Pt_statx fd \<Rightarrow> fd = ft_fd (th_file th)
      | Pt_send sc \<Rightarrow> sc_client_fd sc = th_client_fd th \<and>
          (\<exists>name k. ft_name (th_file th) = Some name \<and>
             sds_rep (sc_buffer sc) (drop k (file_head name (ft_size (th_file th)))))
      | Pt_splice_all sp \<Rightarrow> sp_fd_in sp = ft_fd (th_file th) \<and> sp_fd_out sp = th_client_fd th
      | Pt_close fd \<Rightarrow> fd = th_client_fd th)"

lemma send_head_rep:
  assumes "env_ok E" and "send_head E line th = Some (th', q)"
  obtains sc name where "q = Pt_send sc" and "sc_client_fd sc = th_client_fd th" and "ft_name (th_file th) = Some name"
    and "sds_rep (sc_buffer sc) (file_head name (ft_size (th_file th)))"
proof -
  from assms(2) obtain name where n: "ft_name (th_file th) = Some name"
    by (cases "ft_name (th_file th)") (auto simp: send_head_def)
  have "send_file_head (pe_alloc E) (pe_buf E) name (ft_size (th_file th)) \<noteq> None"
    using assms(2) n by (auto simp: send_head_def fault_simps)
  then have "CHR ''.'' \<in> set name"
    using conjunct2 [OF send_file_head_spec [where A = "pe_alloc E" and buf = "pe_buf E" and name = name and stx_size = "ft_size (th_file th)"]] assms(1)
    by (auto simp: env_ok_def)
  then have h: "send_file_head (pe_alloc E) (pe_buf E) name (ft_size (th_file th)) =
      Some (file_head name (ft_size (th_file th)))" (is "_ = Some ?h")
    using send_file_head_dotted assms(1) by (simp add: env_ok_def)
  have "length ?h < 2 ^ 62" using length_file_head [of name "ft_size (th_file th)"] by simp
  from sdsnewlen_bytes [OF this order_refl, of "pe_alloc E"] obtain r where
    "sdsnewlen (pe_alloc E) (Init_bytes ?h) (length ?h) = Some r" "\<forall>s. r = Some s \<longrightarrow> sds_rep s ?h" by auto
  with assms(2) n h that show thesis
    by (auto simp: send_head_def async_io_send_buffer_def handle_send_submission_def fault_simps)
qed

lemma send_head_serves:
  assumes "env_ok E" and "send_head E line th = Some (th', q)"
  shows "serves th' q"
proof -
  from send_head_rep [OF assms] obtain sc name where q: "q = Pt_send sc" "sc_client_fd sc = th_client_fd th"
    "ft_name (th_file th) = Some name" "sds_rep (sc_buffer sc) (drop 0 (file_head name (ft_size (th_file th))))" by auto
  moreover have "th_client_fd th' = th_client_fd th" "th_file th' = th_file th" using send_head_waits [OF assms(2)] by auto
  ultimately show ?thesis unfolding serves_def by (auto intro: exI [of _ 0])
qed

lemma start_open_serves:
  assumes "env_ok E" and "start_open E l1 l2 th cache = Some r"
  shows "result_rel serves r"
proof -
  obtain cache' fl ev w where o: "async_io_open_file None (th_path th) (th_file th) cache = Some (cache', fl, ev, w)"
    using assms(2) by (auto simp: start_open_def fault_simps)
  show ?thesis
  proof (cases w)
    case None
    with o assms show ?thesis
      by (auto simp: start_open_def fault_simps result_rel_def Let_def dest: send_head_serves)
  next
    case (Some lq)
    then have "lq = (388, Pt_openat (th_path th))"
      using o by (auto simp: async_io_open_file_def fault_simps split: option.splits)
    with o Some assms(2) show ?thesis by (auto simp: start_open_def Let_def result_rel_def serves_def)
  qed
qed

text \<open>Every callback but the one that sends a 404.\<close>

lemma run_callback_serves:
  assumes "env_ok E" and "th_self th \<noteq> Fn_send_404" and "run_callback E th cache = Some r"
  shows "result_rel serves r"
proof (cases "th_label th")
  case None
  with assms start_open_serves [OF assms(1)] show ?thesis
    by (cases "th_self th") (auto simp: run_callback_def route_callback_send_file_def route_callback_test_def)
next
  case (Some l)
  with assms show ?thesis
    by (cases "th_self th")
      (auto simp: run_callback_def route_callback_send_file_def route_callback_test_def async_io_sendfile_def
        sendfile_context_def result_rel_def fault_simps serves_def [of _ "Pt_splice_all _"] serves_def [of _ "Pt_close _"]
        split: if_splits dest: send_head_serves)
qed

lemma pt_resume_serves:
  assumes "env_ok E" and "th_self th \<noteq> Fn_send_404" and "thread_waits th q" and "pt_resume E th cache = Some r"
  shows "result_rel serves r"
  using assms(3,4)
proof (cases rule: pt_resume_cases)
  case (opened p cache')
  then show ?thesis by (simp add: result_rel_def serves_def)
next
  case (called th' cache' ev c t q' ev')
  have "th_self th' \<noteq> Fn_send_404" using called(1) assms(2) by auto
  from run_callback_serves [OF assms(1) this called(2)] called(3) show ?thesis by (simp add: result_rel_def)
qed (simp add: result_rel_def)

text \<open>After a send the rest is still the rest of the same header.\<close>

lemma send_completion_drop:
  assumes "sds_rep (sc_buffer sc) str" and "handle_send_completion res sc = Some (Inr (sc', e))"
  shows "sc_client_fd sc' = sc_client_fd sc \<and> (\<exists>k. sds_rep (sc_buffer sc') (drop k str))"
proof -
  obtain b where b: "sdsrange (sc_buffer sc) res (- 1) = Some b" "sds_rep b (range_of str res (- 1))"
    using sdsrange_spec [OF assms(1)] by blast
  have res: "0 \<le> res" and ne: "0 < sdslen b" and sc': "sc' = \<lparr>sc_client_fd = sc_client_fd sc, sc_buffer = b\<rparr>"
    using assms(2) b(1) by (auto simp: handle_send_completion_def handle_send_submission_def split: if_splits)
  have "range_of str res (- 1) = drop (nat res) str"
    using res ne sds_rep_len [OF b(2)] by (auto simp: range_of_def Let_def max_def min_def split: if_splits)
  with b(2) sc' show ?thesis by auto
qed

lemma sent_serves:
  assumes "serves th (Pt_send sc)" and "handle_send_completion res sc = Some (Inr (sc', e))"
  shows "serves th (Pt_send sc')"
  using assms send_completion_drop [OF _ assms(2)] by (fastforce simp: serves_def)

text \<open>The fourth instance of the invariants: those of the absence of faults, with the relation.\<close>

interpretation own: server_invariant rtr kernel_ok "safe_thread (served_paths rtr)" safe_op "cache_serves (served_paths rtr)"
  serves for rtr
proof (unfold_locales, goal_cases)
  case (9 ctx c cache fd act r)
  have "th_self (action_thread fd act) \<noteq> Fn_send_404"
    by (auto simp: action_thread_def prep_route_callback_send_file_def handler_thread_def split: action.split handler.split)
  with 9 run_callback_serves [of "cq_env c" "action_thread fd act" cache r] show ?case by (simp add: kernel_ok_def)
next
  case (10 th tid q c cache r)
  then show ?case using pt_resume_serves [of "cq_env c" "written q c th" q cache r] by (simp add: kernel_ok_def safe_thread_def)
next
  case (11 th sc tid c sc' e)
  then show ?case by (elim sent_serves)
next
  case (12 th sp tid c sp' e)
  then show ?case by (auto simp: serves_def handle_splice_all_completion_def Let_def split: if_splits)
next
  case (6 th tid q c cache r)
  then show ?case by (intro safe.resumed [of rtr th tid q c cache r]) simp_all
qed (fact safe.idle safe.accepted safe.received safe.started safe.sent safe.spliced)+

lemma own_reachable:
  assumes "router_setup (Some es) specs = Some rtr" and "\<forall>f\<in>set (files_under es ''/''). dotted f"
    and "async_io_file_cache = Some cache" and "reachable kernel_ok (server_run rtr cache) s"
  shows "own.inv rtr s" and "threads_ok None s"
proof -
  have "threads_ok None (server_run rtr cache)" by (rule reachable_threads_ok [OF reachable.here])
  moreover have "own.inv rtr (server_run rtr cache)" using fresh_cache [OF assms(1-3)] by (simp add: own.inv_def safe_op_def)
  ultimately show "own.inv rtr s" "threads_ok None s" using own.inv_reachable [OF assms(4)] by simp_all
qed

section \<open>Properties\<close>

text \<open>
  C7. No client is served another's data, in whatever order the operations of the clients complete:
  in every reachable state an operation of a protothread opens the path of that protothread,
  measures its file, sends what is left of the header of its file, moves its file, or closes,
  and each of the last three on the connection of its own client.
\<close>

theorem answers_stay_apart:
  assumes "main_program (Some es) = Some s0" and "\<forall>f\<in>set (files_under es ''/''). dotted f"
    and "reachable kernel_ok s0 s" and "Op_pt tid q \<in> set (sv_ops s)"
  shows "\<exists>th. sv_threads s tid = Some th \<and>
    (case q of
       Pt_openat p \<Rightarrow> p = th_path th
     | Pt_statx fd \<Rightarrow> fd = ft_fd (th_file th)
     | Pt_send sc \<Rightarrow> sc_client_fd sc = th_client_fd th \<and>
         (\<exists>name k. ft_name (th_file th) = Some name \<and>
            sds_rep (sc_buffer sc) (drop k (file_head name (ft_size (th_file th)))))
     | Pt_splice_all sp \<Rightarrow> sp_fd_in sp = ft_fd (th_file th) \<and> sp_fd_out sp = th_client_fd th
     | Pt_close fd \<Rightarrow> fd = th_client_fd th)"
proof -
  from assms(1) obtain cache rtr where made: "async_io_file_cache = Some cache" "router_setup (Some es) main_routes = Some rtr"
    "s0 = server_run rtr cache" by (rule main_programE)
  note own = own_reachable [OF made(2) assms(2) made(1), of s]
  have r: "reachable kernel_ok (server_run rtr cache) s" using assms(3) made(3) by simp
  obtain th where th: "sv_threads s tid = Some th" using op_thread [OF own(2) [OF r] assms(4)] by blast
  with own(1) [OF r] assms(4) have "serves th q" by (auto simp: own.inv_def)
  with th show ?thesis unfolding serves_def by blast
qed

theorem answers_stay_apart_witness:
  "\<exists>s0 s sc. main_program (Some example_dir) = Some s0 \<and> reachable kernel_ok s0 s \<and>
     Op_pt 0 (Pt_send sc) \<in> set (sv_ops s) \<and> sc_client_fd sc = 5"
proof -
  obtain rtr and ca :: file_cache where site: "asks_test example_dir rtr ''/test'' []" "async_io_file_cache = Some ca"
    "lru_holds ca Map.empty" "lc_size ca = 16" "0 < hm_unused (lc_hmap ca)"
    "\<forall>f\<in>set (files_under example_dir ''/''). dotted f" using example_site by blast
  have main: "main_program (Some example_dir) = Some (server_run rtr ca)"
    using site(1) by (simp add: main_program_parts site(2) asks_test_def)
  obtain ca' sc raw b where r: "reachable kernel_ok (server_run rtr ca)
      (busy rtr ca' 0 (file_thread Fn_test 5 TEST_PATH (zero_file\<lparr>ft_fd := 6, ft_name := Some ''test.html'', ft_size := 1000\<rparr>) 85 raw
        (Send_buffer_pt (Some 405) b)) (Pt_send sc))" (is "reachable _ _ ?s")
    using test_run [OF site(1) example_env_ok _ site(3) _ _ site(5) refl,
      where fd = 5 and ffd = 6 and stx = 1000 and n = 0] site(4)
    by (auto simp: server_run_idle intro: reachable.here)
  have op: "Op_pt 0 (Pt_send sc) \<in> set (sv_ops ?s)" by (simp add: busy_def)
  have "sc_client_fd sc = 5" using answers_stay_apart [OF main site(6) r op] by (auto simp: busy_def)
  with main r op show ?thesis by blast
qed

end
