(* ===== verification/Logger.thy ===== *)
theory Logger
  imports Prelude
begin

text \<open>
  The log (\<open>core/util/logger.c\<close>): what one call prints for a level and a message that has
  already been formatted.
\<close>

datatype LOG_LEVEL = LOG_LEVEL_FATAL | LOG_LEVEL_ERROR | LOG_LEVEL_WARNING | LOG_LEVEL_INFO | LOG_LEVEL_DEBUG

abbreviation ESC :: byte where "ESC \<equiv> CHR 0x1B"

definition ANSI_RESET :: bytes where "ANSI_RESET = ESC # ''[0m''"
definition ANSI_RED :: bytes where "ANSI_RED = ESC # ''[38;5;196m''"
definition ANSI_YELLOW :: bytes where "ANSI_YELLOW = ESC # ''[38;5;11m''"
definition ANSI_BLUE :: bytes where "ANSI_BLUE = ESC # ''[38;5;33m''"
definition ANSI_MAGENTA :: bytes where "ANSI_MAGENTA = ESC # ''[38;5;199m''"
definition ANSI_TURQUOISE :: bytes where "ANSI_TURQUOISE = ESC # ''[38;5;86m''"
definition ANSI_BOLD :: bytes where "ANSI_BOLD = ESC # ''[1m''"

lemmas ansi_defs = ANSI_RESET_def ANSI_RED_def ANSI_YELLOW_def ANSI_BLUE_def ANSI_MAGENTA_def ANSI_TURQUOISE_def ANSI_BOLD_def

definition log_colors :: "LOG_LEVEL \<Rightarrow> bytes" where
  "log_colors level =
     (case level of
        LOG_LEVEL_FATAL \<Rightarrow> ANSI_MAGENTA @ ANSI_BOLD
      | LOG_LEVEL_ERROR \<Rightarrow> ANSI_RED @ ANSI_BOLD
      | LOG_LEVEL_WARNING \<Rightarrow> ANSI_YELLOW
      | LOG_LEVEL_INFO \<Rightarrow> ANSI_TURQUOISE
      | LOG_LEVEL_DEBUG \<Rightarrow> ANSI_BLUE)"

definition log_tags :: "LOG_LEVEL \<Rightarrow> bytes" where
  "log_tags level =
     (case level of
        LOG_LEVEL_FATAL \<Rightarrow> ''[FATAL]''
      | LOG_LEVEL_ERROR \<Rightarrow> ''[ERROR]''
      | LOG_LEVEL_WARNING \<Rightarrow> ''[WARNING]''
      | LOG_LEVEL_INFO \<Rightarrow> ''[INFO]''
      | LOG_LEVEL_DEBUG \<Rightarrow> ''[DEBUG]'')"

definition logger_log :: "LOG_LEVEL \<Rightarrow> bytes \<Rightarrow> bytes" where
  "logger_log log_level msg = log_colors log_level @ log_tags log_level @ '' '' @ msg @ ANSI_RESET @ [LF]"

text \<open>A printed line shows its level and its message.\<close>

lemma logger_log_inj: "logger_log l m = logger_log l' m' \<longleftrightarrow> l = l' \<and> m = m'"
  by (cases l; cases l')
    (simp_all add: logger_log_def log_colors_def log_tags_def ansi_defs)

end
