(* ===== verification/Startup.thy ===== *)
theory Startup
  imports Exchange Logger
begin

text \<open>
  The start of the process with the results of the system calls: the set-up of the ring
  (\<open>async_io_setup\<close>), the socket (\<open>server_setup\<close> of \<open>network/server.c\<close>), and \<open>main\<close>, which
  goes on whatever they report.
\<close>

section \<open>The environment\<close>

text \<open>The results of the calls to the system, and what can be observed of the process.\<close>

record sys =
  sys_ring :: int
  sys_socket :: int
  sys_setsockopt :: int
  sys_bind :: int
  sys_listen :: int

datatype event =
    Ev_log LOG_LEVEL bytes
  | Ev_ring_init nat nat nat
  | Ev_ring_exit
  | Ev_ignore_sigpipe
  | Ev_socket
  | Ev_reuseaddr int
  | Ev_bind int nat
  | Ev_getsockname int
  | Ev_listen int nat
  | Ev_close int

abbreviation log_fatal :: "bytes \<Rightarrow> event" where "log_fatal \<equiv> Ev_log LOG_LEVEL_FATAL"
abbreviation log_info :: "bytes \<Rightarrow> event" where "log_info \<equiv> Ev_log LOG_LEVEL_INFO"

text \<open>The standard output of the process.\<close>

definition printed :: "event list \<Rightarrow> bytes" where
  "printed evs = concat (map (\<lambda>e. case e of Ev_log l m \<Rightarrow> logger_log l m | _ \<Rightarrow> []) evs)"

section \<open>The ring\<close>

text \<open>The static state of \<open>async_io.c\<close>: whether the ring has been set up, the cache, the socket, the router.\<close>

record uring_state =
  us_ring :: bool
  us_cache :: "file_cache option"
  us_srv_fd :: int
  us_rtr :: "handler router_t option"

definition zero_state :: uring_state where
  "zero_state = \<lparr>us_ring = False, us_cache = None, us_srv_fd = 0, us_rtr = None\<rparr>"

text \<open>A ring of 64 entries whose kernel thread is bound to processor 3 and sleeps after 2000 ms.\<close>

definition async_io_setup :: "sys \<Rightarrow> uring_state \<Rightarrow> (uring_state \<times> event list) option" where
  "async_io_setup K st =
     (if sys_ring K < 0
      then Some (st, [Ev_ring_init 64 3 2000, log_fatal ''async_io_setup - io_uring init failed.''])
      else do {
        cache \<leftarrow> async_io_file_cache;
        Some (st\<lparr>us_ring := True, us_cache := Some cache\<rparr>, [Ev_ring_init 64 3 2000])
      })"

definition async_io_update_values :: "int \<Rightarrow> handler router_t \<Rightarrow> uring_state \<Rightarrow> uring_state" where
  "async_io_update_values server_fd rtr st = st\<lparr>us_srv_fd := server_fd, us_rtr := Some rtr\<rparr>"

text \<open>
  The shutdown, which \<open>main\<close> never reaches: the nodes and keys of the cache are freed; the
  descriptors it holds are not closed.
\<close>

definition async_io_shutdown :: "uring_state \<Rightarrow> (file_t dll_entry dll_heap \<times> bytes option list \<times> event list) option" where
  "async_io_shutdown st = do {
     cache \<leftarrow> us_cache st;
     (h, keys) \<leftarrow> LRU_cache_destroy cache;
     guard (us_ring st);
     Some (h, keys, [Ev_ring_exit])
   }"

text \<open>
  A submission takes an entry of the ring; when the ring is full there is none, which is logged,
  and the entry is filled in all the same.
\<close>

definition io_uring_get_sqe_wrapper :: "'a option \<Rightarrow> 'a option \<times> event list" where
  "io_uring_get_sqe_wrapper sqe =
     (sqe, if sqe = None then [Ev_log LOG_LEVEL_ERROR ''uring_get_and_check_sqe - sqe was null.''] else [])"

definition submit_entry :: "'a option \<Rightarrow> op \<Rightarrow> server \<Rightarrow> server option \<times> event list" where
  "submit_entry entry opn s =
     (case io_uring_get_sqe_wrapper entry of
        (None, ev) \<Rightarrow> (None, ev)
      | (Some sqe, ev) \<Rightarrow> (Some (submit opn s), ev))"

lemma submit_entry_simps [simp]:
  "submit_entry (Some e) opn s = (Some (submit opn s), [])"
  "submit_entry None opn s = (None, [Ev_log LOG_LEVEL_ERROR ''uring_get_and_check_sqe - sqe was null.''])"
  by (simp_all add: submit_entry_def io_uring_get_sqe_wrapper_def)

section \<open>The socket\<close>

record server_config =
  scf_port :: int

record server_obj =
  so_socket_fd :: int
  so_conf :: server_config
  so_rtr :: "handler router_t"

text \<open>The descriptor of a new server is what the memory held.\<close>

definition server_create :: "int \<Rightarrow> server_config \<Rightarrow> handler router_t \<Rightarrow> server_obj" where
  "server_create junk s_conf rtr = \<lparr>so_socket_fd = junk, so_conf = s_conf, so_rtr = rtr\<rparr>"

definition server_setup :: "sys \<Rightarrow> server_obj \<Rightarrow> server_obj \<times> bool \<times> event list" where
  "server_setup K srv =
     (let ev = [Ev_ignore_sigpipe, log_info ''Starting server...'', log_info ''Setting up socket...'', Ev_socket];
          srv = srv\<lparr>so_socket_fd := sys_socket K\<rparr>
      in if so_socket_fd srv = - 1 then (srv, False, ev @ [log_fatal ''server_start - Socket creation failed.''])
      else let ev = ev @ [Ev_reuseaddr (so_socket_fd srv)]
      in if sys_setsockopt K < 0
         then (srv, False, ev @ [log_fatal ''server_start - setsockopt failed.'', Ev_close (so_socket_fd srv)])
      else let ev = ev @ [Ev_bind (so_socket_fd srv) 8080]
      in if sys_bind K = - 1
         then (srv, False, ev @ [log_fatal ''server_start - Bind failed.'', Ev_close (so_socket_fd srv)])
      else let ev = ev @ [Ev_getsockname (so_socket_fd srv), Ev_listen (so_socket_fd srv) 512]
      in if sys_listen K = - 1
         then (srv, False, ev @ [log_fatal ''server_start - Listen failed.'', Ev_close (so_socket_fd srv)])
      else (srv, True, ev @ [log_info ''server_setup - Successful.'']))"

text \<open>The set-up succeeds if each call does; otherwise it closes the socket it has created, once and last.\<close>

definition is_close :: "event \<Rightarrow> bool" where
  "is_close e = (case e of Ev_close fd \<Rightarrow> True | _ \<Rightarrow> False)"

definition is_bind :: "event \<Rightarrow> bool" where
  "is_bind e = (case e of Ev_bind fd port \<Rightarrow> True | _ \<Rightarrow> False)"

lemma is_close_simps [simp]: "is_close (Ev_close fd)" "\<not> is_close (Ev_log l m)" "\<not> is_close Ev_ignore_sigpipe"
  "\<not> is_close Ev_socket" "\<not> is_close (Ev_reuseaddr fd)" "\<not> is_close (Ev_bind fd port)" "\<not> is_close (Ev_getsockname fd)"
  "\<not> is_close (Ev_listen fd n)" "\<not> is_close (Ev_ring_init a b c)" "\<not> is_close Ev_ring_exit"
  by (simp_all add: is_close_def)

lemma is_bind_simps [simp]: "is_bind (Ev_bind fd port)" "\<not> is_bind (Ev_log l m)" "\<not> is_bind Ev_ignore_sigpipe"
  "\<not> is_bind Ev_socket" "\<not> is_bind (Ev_reuseaddr fd)" "\<not> is_bind (Ev_close fd)" "\<not> is_bind (Ev_getsockname fd)"
  "\<not> is_bind (Ev_listen fd n)" "\<not> is_bind (Ev_ring_init a b c)" "\<not> is_bind Ev_ring_exit"
  by (simp_all add: is_bind_def)

definition setup_succeeds :: "sys \<Rightarrow> bool" where
  "setup_succeeds K \<longleftrightarrow> sys_socket K \<noteq> - 1 \<and> 0 \<le> sys_setsockopt K \<and> sys_bind K \<noteq> - 1 \<and> sys_listen K \<noteq> - 1"

lemma server_setup_spec:
  "\<exists>ev. server_setup K srv = (srv\<lparr>so_socket_fd := sys_socket K\<rparr>, setup_succeeds K, ev) \<and>
     filter is_close ev = (if setup_succeeds K \<or> sys_socket K = - 1 then [] else [Ev_close (sys_socket K)]) \<and>
     is_close (last ev) = (\<not> setup_succeeds K \<and> sys_socket K \<noteq> - 1) \<and>
     filter is_bind ev = (if sys_socket K = - 1 \<or> sys_setsockopt K < 0 then [] else [Ev_bind (sys_socket K) 8080])"
  by (auto simp: server_setup_def setup_succeeds_def Let_def)

section \<open>The start of the loop and \<open>main\<close>\<close>

text \<open>
  The first line of \<open>server_run\<close> prints the configured port.  Submitting to a ring that has not
  been set up is a fault.
\<close>

definition server_banner :: "server_obj \<Rightarrow> event" where
  "server_banner srv = log_info (''Server listening on port '' @ decimal (scf_port (so_conf srv)) @ ''.'' @ [LF, HT] @
     ''Visit: http://localhost:'' @ decimal (scf_port (so_conf srv)) @ ''/index.html'')"

definition server_loop :: "uring_state \<Rightarrow> server option" where
  "server_loop st = do {
     guard (us_ring st);
     cache \<leftarrow> us_cache st;
     rtr \<leftarrow> us_rtr st;
     Some (server_run rtr cache)
   }"

record started =
  sd_server :: server
  sd_state :: uring_state
  sd_setup :: bool
  sd_events :: "event list"

definition main_startup :: "sys \<Rightarrow> int \<Rightarrow> dirent list option \<Rightarrow> started option" where
  "main_startup K junk dir = do {
     (st, ev1) \<leftarrow> async_io_setup K zero_state;
     rtr \<leftarrow> router_create dir;
     rt_test \<leftarrow> route_create http_method_get ''/test'' (Some Route_callback_test);
     rtr \<leftarrow> router_add_route rtr rt_test;
     let srv = server_create junk \<lparr>scf_port = 8080\<rparr> rtr;
     let (srv, ok, ev2) = server_setup K srv;
     let st = async_io_update_values (so_socket_fd srv) (so_rtr srv) st;
     s \<leftarrow> server_loop st;
     Some \<lparr>sd_server = s, sd_state = st, sd_setup = ok, sd_events = ev1 @ ev2 @ [server_banner srv]\<rparr>
   }"

text \<open>The server that runs does not depend on what the socket calls reported.\<close>

lemma main_startup_server:
  "map_option sd_server (main_startup K junk dir) = (if sys_ring K < 0 then None else main_program dir)"
proof (cases "sys_ring K < 0")
  case True
  then show ?thesis
    by (auto simp: main_startup_def async_io_setup_def zero_state_def server_loop_def async_io_update_values_def
        Let_def split_def split: Option.bind_splits)
next
  case False
  obtain cache :: file_cache where "async_io_file_cache = Some cache" using file_cache_made by blast
  with False show ?thesis
    by (auto simp: \<open>async_io_file_cache = Some cache\<close> main_startup_def main_program_def async_io_setup_def server_loop_def
        async_io_update_values_def server_setup_def server_create_def Let_def split_def split: Option.bind_splits)
qed

lemma main_startupE:
  assumes "main_startup K junk dir = Some d"
  obtains ev1 ev2 srv where "main_program dir = Some (sd_server d)" and "0 \<le> sys_ring K"
    and "server_setup K srv = (srv\<lparr>so_socket_fd := sys_socket K\<rparr>, sd_setup d, ev2)"
    and "sd_setup d = setup_succeeds K" and "us_srv_fd (sd_state d) = sys_socket K"
    and "sd_events d = ev1 @ ev2 @ [server_banner srv]" and "filter is_close ev1 = []" and "scf_port (so_conf srv) = 8080"
proof -
  have made: "main_program dir = Some (sd_server d)" "0 \<le> sys_ring K"
    using main_startup_server [of K junk dir] assms by (auto split: if_splits)
  obtain st ev1 rtr where parts: "async_io_setup K zero_state = Some (st, ev1)"
    "do { let srv = server_create junk \<lparr>scf_port = 8080\<rparr> rtr;
          let (srv, ok, ev2) = server_setup K srv;
          let st = async_io_update_values (so_socket_fd srv) (so_rtr srv) st;
          s \<leftarrow> server_loop st;
          Some \<lparr>sd_server = s, sd_state = st, sd_setup = ok, sd_events = ev1 @ ev2 @ [server_banner srv]\<rparr> } = Some d"
    using assms by (auto simp: main_startup_def fault_simps)
  let ?srv = "server_create junk \<lparr>scf_port = 8080\<rparr> rtr"
  obtain ev2 where ev2: "server_setup K ?srv = (?srv\<lparr>so_socket_fd := sys_socket K\<rparr>, setup_succeeds K, ev2)"
    using server_setup_spec [of K ?srv] by blast
  have "filter is_close ev1 = []" using parts(1) by (auto simp: async_io_setup_def fault_simps split: if_splits)
  moreover have "sd_setup d = setup_succeeds K" "us_srv_fd (sd_state d) = sys_socket K"
    "sd_events d = ev1 @ ev2 @ [server_banner ?srv]"
    using parts(2) ev2 by (auto simp: async_io_update_values_def server_banner_def fault_simps Let_def)
  moreover have "scf_port (so_conf ?srv) = 8080" by (simp add: server_create_def)
  ultimately show thesis using that [of ?srv ev2 ev1] made ev2 by simp
qed

text \<open>The static state and the server the loop works on.\<close>

lemma main_startup_state:
  assumes "main_startup K junk dir = Some d"
  shows "us_ring (sd_state d) \<and> us_cache (sd_state d) = Some (sv_cache (sd_server d)) \<and>
    us_rtr (sd_state d) = Some (sv_rtr (sd_server d)) \<and> us_srv_fd (sd_state d) = sys_socket K"
proof -
  obtain st ev1 rtr where parts: "do { let srv = server_create junk \<lparr>scf_port = 8080\<rparr> rtr;
          let (srv, ok, ev2) = server_setup K srv;
          let st = async_io_update_values (so_socket_fd srv) (so_rtr srv) st;
          s \<leftarrow> server_loop st;
          Some \<lparr>sd_server = s, sd_state = st, sd_setup = ok, sd_events = ev1 @ ev2 @ [server_banner srv]\<rparr> } = Some d"
    using assms by (auto simp: main_startup_def fault_simps)
  let ?srv = "server_create junk \<lparr>scf_port = 8080\<rparr> rtr"
  obtain ev2 where "server_setup K ?srv = (?srv\<lparr>so_socket_fd := sys_socket K\<rparr>, setup_succeeds K, ev2)"
    using server_setup_spec [of K ?srv] by blast
  with parts show ?thesis by (auto simp: async_io_update_values_def server_loop_def fault_simps Let_def)
qed

text \<open>Accepts that fail are not repeated.\<close>

lemma failing_accepts:
  assumes "\<forall>(i, c)\<in>set cs. cq_res c < 0" and "sv_ops s = replicate n Op_accept" and "async_io_process cs s = Some s'"
  shows "length cs \<le> n \<and> sv_ops s' = replicate (n - length cs) Op_accept \<and> sv_threads s' = sv_threads s"
  using assms
proof (induction cs arbitrary: s n)
  case (Cons ic cs)
  obtain i c where ic: "ic = (i, c)" by (cases ic)
  obtain t where t: "process_cqe i c s = Some t" "async_io_process cs t = Some s'"
    using Cons.prems(3) by (auto simp: ic fault_simps)
  have i: "i < n" using t(1) Cons.prems(2) by (simp add: process_cqe_def split: if_splits)
  have c: "cq_res c < 0" using Cons.prems(1) by (simp add: ic)
  have "t = s\<lparr>sv_ops := remove_nth i (sv_ops s)\<rparr>"
    using t(1) i c Cons.prems(2) by (simp add: process_cqe_def completion_table_def handle_accept_completion_def)
  moreover have "remove_nth i (replicate n Op_accept) = replicate (n - 1) Op_accept"
    using i by (simp add: remove_nth_def min_def flip: replicate_add)
  ultimately have "sv_ops t = replicate (n - 1) Op_accept" "sv_threads t = sv_threads s" using Cons.prems(2) by simp_all
  with Cons.IH [OF _ this(1) t(2)] Cons.prems(1) i show ?case by (cases n) simp_all
qed simp

section \<open>Properties\<close>

text \<open>
  C16. A failed start.  When \<open>server_setup\<close> reports a failure the socket it created has been
  closed, and \<open>main\<close> goes on all the same: it takes over the descriptor, closed or \<open>-1\<close>, prints
  that the server listens, and submits its eight accepts.  With all of them failing, as accepts on
  such a descriptor do, the process is left with no operation in flight and no protothread: it
  turns in its loop for ever without ever serving anybody.
\<close>

theorem failed_setup_serves_nobody:
  assumes "main_startup K junk (Some es) = Some d" and "\<not> sd_setup d"
    and "\<forall>(i, c)\<in>set cs. cq_res c < 0" and "async_io_process cs (sd_server d) = Some s"
  shows "us_srv_fd (sd_state d) = sys_socket K \<and>
    filter is_close (sd_events d) = (if sys_socket K = - 1 then [] else [Ev_close (sys_socket K)]) \<and>
    (\<exists>out. printed (sd_events d) = out @ logger_log LOG_LEVEL_INFO
       (''Server listening on port 8080.'' @ [LF, HT] @ ''Visit: http://localhost:8080/index.html'')) \<and>
    length cs \<le> 8 \<and> sv_ops s = replicate (8 - length cs) Op_accept \<and> sv_threads s = Map.empty"
proof -
  from assms(1) obtain ev1 ev2 srv where d: "main_program (Some es) = Some (sd_server d)"
    "server_setup K srv = (srv\<lparr>so_socket_fd := sys_socket K\<rparr>, sd_setup d, ev2)" "sd_setup d = setup_succeeds K"
    "us_srv_fd (sd_state d) = sys_socket K" "sd_events d = ev1 @ ev2 @ [server_banner srv]" "filter is_close ev1 = []"
    "scf_port (so_conf srv) = 8080" by (rule main_startupE)
  have "filter is_close ev2 = (if sys_socket K = - 1 then [] else [Ev_close (sys_socket K)])"
    using server_setup_spec [of K srv] d(2,3) assms(2) by auto
  then have "filter is_close (sd_events d) = (if sys_socket K = - 1 then [] else [Ev_close (sys_socket K)])"
    using d(5,6) by (simp add: server_banner_def)
  moreover from d(1) obtain cache rtr where "sd_server d = server_run rtr cache" by (rule main_programE)
  then have "sv_ops (sd_server d) = replicate 8 Op_accept" "sv_threads (sd_server d) = Map.empty" by simp_all
  from failing_accepts [OF assms(3) this(1) assms(4)] this(2)
  have "length cs \<le> 8 \<and> sv_ops s = replicate (8 - length cs) Op_accept \<and> sv_threads s = Map.empty" by simp
  moreover have "decimal 8080 = ''8080''" by (simp add: decimal_def digits.simps char_of_def bit_iff_odd)
  then have "printed (sd_events d) = printed (ev1 @ ev2) @ logger_log LOG_LEVEL_INFO
       (''Server listening on port 8080.'' @ [LF, HT] @ ''Visit: http://localhost:8080/index.html'')"
    using d(5,7) by (simp add: printed_def server_banner_def)
  ultimately show ?thesis using d(4) by blast
qed

theorem failed_setup_serves_nobody_witness:
  "\<exists>d s. main_startup \<lparr>sys_ring = 0, sys_socket = 3, sys_setsockopt = 0, sys_bind = - 1, sys_listen = 0\<rparr> 0 (Some example_dir) = Some d \<and>
     \<not> sd_setup d \<and> filter is_close (sd_events d) = [Ev_close 3] \<and>
     async_io_process (replicate 8 (0, completed (- 9))) (sd_server d) = Some s \<and> sv_ops s = [] \<and> sv_threads s = Map.empty"
proof -
  let ?K = "\<lparr>sys_ring = 0, sys_socket = 3, sys_setsockopt = 0, sys_bind = - 1, sys_listen = 0\<rparr>" and ?cs = "replicate 8 (0, completed (- 9))"
  obtain rtr and ca :: file_cache where site: "asks_test example_dir rtr ''/test'' []" "async_io_file_cache = Some ca"
    using example_site by blast
  have "main_program (Some example_dir) = Some (server_run rtr ca)"
    using site(1) by (simp add: main_program_parts site(2) asks_test_def)
  then obtain d where d: "main_startup ?K 0 (Some example_dir) = Some d" "sd_server d = server_run rtr ca"
    using main_startup_server [of ?K 0 "Some example_dir"] by auto
  from d(1) have "\<not> sd_setup d" by (rule main_startupE) (simp add: setup_succeeds_def)
  moreover have run: "async_io_process ?cs (sd_server d) = Some ((server_run rtr ca)\<lparr>sv_ops := []\<rparr>)"
    by (simp add: d(2) eval_nat_numeral process_cqe_def completion_table_def handle_accept_completion_def remove_nth_def)
  moreover from failed_setup_serves_nobody [OF d(1) calculation(1) _ this]
  have "filter is_close (sd_events d) = [Ev_close 3]" by simp
  ultimately show ?thesis using d(1) by auto
qed

text \<open>
  C21. The start of the program, for a public directory that can be read.  It reaches its loop
  exactly when the ring can be set up and the directory holds at most seven files that are not
  hidden, whatever the socket calls report; otherwise it faults, without a ring on the first
  submission.  When it does, eight accepts are in flight and nothing else, the file cache is
  empty and takes sixteen files, the table of public files holds exactly the files of the
  directory, and the only requests that reach a handler are the GETs of \<open>/test\<close> and of the
  paths below it.
\<close>

theorem main_starts:
  assumes "readable es"
  shows "case main_startup K junk (Some es) of
      None \<Rightarrow> sys_ring K < 0 \<or> 7 < length (files_under es ''/'')
    | Some d \<Rightarrow> 0 \<le> sys_ring K \<and> length (files_under es ''/'') \<le> 7 \<and> us_ring (sd_state d) \<and>
        us_cache (sd_state d) = Some (sv_cache (sd_server d)) \<and> us_rtr (sd_state d) = Some (sv_rtr (sd_server d)) \<and>
        us_srv_fd (sd_state d) = sys_socket K \<and>
        sv_ops (sd_server d) = replicate 8 Op_accept \<and> sv_threads (sd_server d) = Map.empty \<and>
        lru_holds (sv_cache (sd_server d)) Map.empty \<and> lc_size (sv_cache (sd_server d)) = 16 \<and>
        (files_under es ''/'' \<noteq> [] \<longrightarrow>
          dom (hm_map (public_directory_hmap (sv_rtr (sd_server d)))) = set (files_under es ''/'')) \<and>
        (\<forall>m uri. m \<noteq> http_method_unknown \<longrightarrow>
          trie_find_handler (routing_table (sv_rtr (sd_server d))) m uri =
            Some (if m = http_method_get \<and> (\<exists>rest. uri_segs uri = '''' # ''test'' # rest)
              then Some Route_callback_test else None))"
proof (cases "main_startup K junk (Some es)")
  case None
  with main_startup_server [of K junk "Some es"] main_program_starts [OF assms] show ?thesis
    by (auto split: if_splits)
next
  case (Some d)
  have d: "main_program (Some es) = Some (sd_server d)" "0 \<le> sys_ring K"
    using main_startup_server [of K junk "Some es"] Some by (auto split: if_splits)
  from main_program_starts [OF assms] main_startup_state [OF Some] Some d show ?thesis by simp
qed

theorem main_starts_witness:
  "\<exists>d. main_startup \<lparr>sys_ring = 0, sys_socket = 3, sys_setsockopt = 0, sys_bind = 0, sys_listen = 0\<rparr> 0 (Some example_dir) = Some d \<and>
     length (sv_ops (sd_server d)) = 8 \<and>
     dom (hm_map (public_directory_hmap (sv_rtr (sd_server d)))) = {''/index.html'', ''/test/a.html''}"
proof -
  let ?K = "\<lparr>sys_ring = 0, sys_socket = 3, sys_setsockopt = 0, sys_bind = 0, sys_listen = 0\<rparr>"
  have "readable example_dir" by (simp add: hidden_def)
  from main_starts [OF this, of ?K 0] show ?thesis
    by (cases "main_startup ?K 0 (Some example_dir)") (simp_all add: example_files hidden_def)
qed

end
