(* ===== verification/Ring.thy ===== *)
theory Ring
  imports Startup
begin

text \<open>
  The submission ring of \<open>async_io.c\<close>: each submission takes one of its 64 entries
  (\<open>io_uring_get_sqe_wrapper\<close>), which the kernel thread gives back when it has read it.  The
  server of \<open>EventLoop\<close> submits as if there always were one; this theory says when that is right,
  and what happens otherwise.
\<close>

section \<open>How much a completion submits\<close>

definition appends :: "nat \<Rightarrow> server \<Rightarrow> server \<Rightarrow> bool" where
  "appends n s s' \<longleftrightarrow> (\<exists>new. sv_ops s' = sv_ops s @ new \<and> length new \<le> n)"

lemma appends_refl [simp]: "appends n s s"
  by (simp add: appends_def)

lemma appends_submit [simp]: "appends (Suc n) s (submit q s)"
  by (simp add: appends_def submit_def)

lemma appends_trans: "appends m s t \<Longrightarrow> appends n t u \<Longrightarrow> appends (m + n) s u"
  by (force simp: appends_def)

lemma appends_mono: "appends m s t \<Longrightarrow> m \<le> n \<Longrightarrow> appends n s t"
  by (force simp: appends_def)

lemma appends_install: "appends (Suc (length ev)) s (install tid (cache, th, opn, ev) s)"
  by (auto simp: appends_def split: option.split)

lemma start_open_ev: "start_open E l1 l2 th cache = Some (ca, t, q, ev) \<Longrightarrow> ev = []"
  by (auto simp: start_open_def async_io_open_file_def fault_simps Let_def split: option.splits if_splits)

lemma run_callback_ev:
  assumes "run_callback E th cache = Some (ca, t, q, ev)"
  shows "ev = []"
proof (cases "th_label th")
  case None
  with assms show ?thesis
    by (cases "th_self th") (auto simp: run_callback_def route_callback_send_file_def route_callback_test_def
        route_callback_send_404_def fault_simps dest: start_open_ev)
next
  case (Some l)
  with assms show ?thesis
    by (cases "th_self th") (auto simp: run_callback_def route_callback_send_file_def route_callback_test_def
        route_callback_send_404_def fault_simps split: if_splits)
qed

lemma open_file_ev:
  assumes "async_io_open_file l p f cache = Some (ca, f', ev, w)"
  shows "length ev \<le> 1"
proof -
  obtain c1 r where g: "LRU_cache_get cache p = Some (c1, r)"
    using assms by (cases "LRU_cache_get cache p") (auto simp: async_io_open_file_def)
  consider "r \<noteq> None" | "r = None" "l = Some 389" | "r = None" "l \<noteq> Some 389" by blast
  then show ?thesis
  proof cases
    case 2
    with assms g obtain c2 e where "LRU_cache_add c1 p f = Some (c2, e)"
      by (cases "LRU_cache_add c1 p f") (auto simp: async_io_open_file_def)
    with 2 assms g show ?thesis by (cases e) (auto simp: async_io_open_file_def)
  qed (use assms g in \<open>auto simp: async_io_open_file_def fault_simps split: if_splits\<close>)
qed

lemma resume_caller_ev: "resume_caller E th cache ev = Some (ca, t, q, ev') \<Longrightarrow> ev' = ev"
  by (auto simp: resume_caller_def fault_simps dest: run_callback_ev)

lemma pt_resume_ev:
  assumes "pt_resume E th cache = Some (ca, t, q, ev)"
  shows "length ev \<le> 1"
proof (cases "th_child th")
  case (Open_file_pt l p)
  with assms obtain ca' f ev' w where o: "async_io_open_file l p (th_file th) cache = Some (ca', f, ev', w)"
    by (auto simp: pt_resume_def fault_simps)
  have "ev = ev'" using assms Open_file_pt o
    by (cases w) (auto simp: pt_resume_def Let_def dest: resume_caller_ev)
  with open_file_ev [OF o] show ?thesis by simp
qed (use assms in \<open>auto simp: pt_resume_def fault_simps split: option.split_asm dest: run_callback_ev resume_caller_ev\<close>)

lemma appends_start: "start_thread E th s = Some s' \<Longrightarrow> appends 1 s s'"
proof -
  assume "start_thread E th s = Some s'"
  then obtain ca t q ev where r: "run_callback E th (sv_cache s) = Some (ca, t, q, ev)"
    "s' = install (sv_next s) (ca, t, q, ev) (s\<lparr>sv_next := Suc (sv_next s)\<rparr>)"
    by (auto simp: start_thread_def fault_simps)
  with run_callback_ev [OF r(1)] show ?thesis
    using appends_install [of ev "s\<lparr>sv_next := Suc (sv_next s)\<rparr>" "sv_next s" ca t q] by (simp add: appends_def)
qed

lemma appends_actions: "start_actions E fd acts s = Some s' \<Longrightarrow> appends (length acts) s s'"
proof (induction acts arbitrary: s)
  case (Cons a acts)
  then obtain t where t: "start_thread E (action_thread fd a) s = Some t" "start_actions E fd acts t = Some s'"
    by (auto simp: fault_simps)
  from appends_trans [OF appends_start [OF t(1)] Cons.IH [OF t(2)]] show ?case by simp
qed simp

lemma appends_resume: "resume_thread E tid s = Some s' \<Longrightarrow> appends 2 s s'"
proof -
  assume "resume_thread E tid s = Some s'"
  then obtain th ca t q ev where r: "pt_resume E th (sv_cache s) = Some (ca, t, q, ev)" "s' = install tid (ca, t, q, ev) s"
    by (auto simp: resume_thread_def fault_simps)
  with pt_resume_ev [OF r(1)] show ?thesis using appends_mono [OF appends_install [of ev s tid ca t q], of 2] by simp
qed

lemma appends_update: "update_file tid f s = Some t \<Longrightarrow> resume_thread E tid t = Some s' \<Longrightarrow> appends 2 s s'"
  using appends_resume [of E tid t s'] by (auto simp: update_file_def appends_def fault_simps)

lemma appends_completion:
  assumes "completion_table opn c s = Some s'"
  shows "appends 2 s s'"
proof (cases opn)
  case Op_accept
  with assms show ?thesis
    by (auto simp: completion_table_def handle_accept_completion_def handle_accept_submission_def submit_def appends_def
        fault_simps split: if_splits)
next
  case (Op_recv ctx)
  with assms have "recv_completion c ctx s = Some s'" by (simp add: completion_table_def)
  then show ?thesis
  proof (cases rule: recv_completion_cases)
    case (request req fd acts)
    obtain sends handler where "acts = map Send_file sends @ map Run_handler handler" "length sends \<le> 1" "length handler \<le> 1"
      using router_starts_few [OF request(2)] by blast
    with appends_mono [OF appends_actions [OF request(3)], of 2] show ?thesis by simp
  next
    case more
    then show ?thesis using appends_submit [of 1 s] by (simp add: numeral_2_eq_2)
  qed simp
next
  case (Op_pt tid q)
  show ?thesis
  proof (cases q)
    case (Pt_send ctx)
    then obtain r where "handle_send_completion (cq_res c) ctx = Some r" and r: "(case r of Inl u \<Rightarrow> resume_thread (cq_env c) tid s
        | Inr (ctx', q) \<Rightarrow> Some (submit (Op_pt tid (Pt_send ctx')) s)) = Some s'"
      using assms Op_pt by (auto simp: completion_table_def send_completion_def fault_simps)
    show ?thesis
    proof (cases r)
      case (Inl u)
      with r appends_resume show ?thesis by auto
    next
      case (Inr cq)
      with r appends_submit [of 1 s] show ?thesis by (auto simp: numeral_2_eq_2 split: prod.splits)
    qed
  next
    case (Pt_splice_all ctx)
    with assms Op_pt appends_submit [of 1 s] show ?thesis
      by (cases "handle_splice_all_completion (cq_res c) ctx")
        (auto simp: completion_table_def splice_all_completion_def numeral_2_eq_2 dest: appends_resume)
  qed (use assms Op_pt in \<open>auto simp: completion_table_def handle_openat_completion_def
      handle_statx_completion_def handle_close_completion_def fault_simps split: if_splits
      dest: appends_resume appends_update\<close>)
qed (use assms in \<open>simp add: completion_table_def handle_close_completion_def\<close>)

lemma process_appends:
  assumes "process_cqe i c s = Some s'"
  obtains new where "sv_ops s' = remove_nth i (sv_ops s) @ new" and "length new \<le> 2" and "i < length (sv_ops s)"
  using assms appends_completion [of "sv_ops s ! i" c "s\<lparr>sv_ops := remove_nth i (sv_ops s)\<rparr>" s']
  by (auto simp: process_cqe_def appends_def split: if_splits)

lemma length_remove_nth: "i < length xs \<Longrightarrow> length (remove_nth i xs) = length xs - 1"
  by (simp add: remove_nth_def)

section \<open>The server on its ring\<close>

text \<open>
  The server with the number of entries the kernel thread has not yet read; a submission without a
  free entry is a fault (\<^const>\<open>submit_entry\<close>).  \<open>io_uring_get_sqe\<close> is a function of liburing and a
  parameter, \<open>get_sqe\<close>, which is given the number of entries in use.  What its manual page says of
  it, that it returns null exactly if the submission queue is full, is the hypothesis \<open>full_at\<close>.
\<close>

definition RING_ENTRIES :: nat where "RING_ENTRIES = 64"

record ring =
  rg_server :: server
  rg_queued :: nat

definition full_at :: "nat \<Rightarrow> (nat \<Rightarrow> unit option) \<Rightarrow> bool" where
  "full_at n get_sqe \<longleftrightarrow> (\<forall>k. get_sqe k = None \<longleftrightarrow> n \<le> k)"

fun ring_submit :: "(nat \<Rightarrow> unit option) \<Rightarrow> op list \<Rightarrow> ring \<Rightarrow> ring option" where
  "ring_submit get_sqe [] r = Some r"
| "ring_submit get_sqe (q # qs) r = do {
     s \<leftarrow> fst (submit_entry (get_sqe (rg_queued r)) q (rg_server r));
     ring_submit get_sqe qs \<lparr>rg_server = s, rg_queued = Suc (rg_queued r)\<rparr>
   }"

text \<open>A completion, with its submissions made one by one.\<close>

definition ring_process :: "(nat \<Rightarrow> unit option) \<Rightarrow> nat \<Rightarrow> cqe \<Rightarrow> ring \<Rightarrow> ring option" where
  "ring_process get_sqe i c r = do {
     s \<leftarrow> process_cqe i c (rg_server r);
     let n = length (sv_ops (rg_server r)) - 1;
     ring_submit get_sqe (drop n (sv_ops s)) (r\<lparr>rg_server := s\<lparr>sv_ops := take n (sv_ops s)\<rparr>\<rparr>)
   }"

text \<open>The kernel thread reads entries, and completes operations, when it likes.\<close>

datatype ring_event = Reads nat | Completes nat cqe

fun ring_run :: "(nat \<Rightarrow> unit option) \<Rightarrow> ring_event list \<Rightarrow> ring \<Rightarrow> ring option" where
  "ring_run get_sqe [] r = Some r"
| "ring_run get_sqe (Reads k # es) r = ring_run get_sqe es (r\<lparr>rg_queued := rg_queued r - k\<rparr>)"
| "ring_run get_sqe (Completes i c # es) r = do { r \<leftarrow> ring_process get_sqe i c r; ring_run get_sqe es r }"

text \<open>The start of the loop on a ring that has just been set up.\<close>

definition ring_start :: "(nat \<Rightarrow> unit option) \<Rightarrow> handler router_t \<Rightarrow> file_cache \<Rightarrow> ring option" where
  "ring_start get_sqe rtr cache =
     ring_submit get_sqe (replicate 8 Op_accept) \<lparr>rg_server = (server_run rtr cache)\<lparr>sv_ops := []\<rparr>, rg_queued = 0\<rparr>"

fun completions :: "ring_event list \<Rightarrow> (nat \<times> cqe) list" where
  "completions [] = []"
| "completions (Reads k # es) = completions es"
| "completions (Completes i c # es) = (i, c) # completions es"

lemma full_at_eq: "full_at n g \<Longrightarrow> g k = (if k < n then Some () else None)"
  by (drule full_at_def [THEN iffD1, THEN spec, of _ _ k]) (cases "g k"; auto)

lemma ring_submit_spec:
  assumes "full_at RING_ENTRIES get_sqe"
  shows "ring_submit get_sqe qs r =
     (if qs \<noteq> [] \<and> RING_ENTRIES < rg_queued r + length qs then None
      else Some (r\<lparr>rg_server := (rg_server r)\<lparr>sv_ops := sv_ops (rg_server r) @ qs\<rparr>, rg_queued := rg_queued r + length qs\<rparr>))"
  by (induction qs arbitrary: r) (auto simp: full_at_eq [OF assms] submit_def)

lemma ring_start_full:
  "full_at RING_ENTRIES get_sqe \<Longrightarrow> ring_start get_sqe rtr cache = Some \<lparr>rg_server = server_run rtr cache, rg_queued = 8\<rparr>"
  by (simp add: ring_start_def ring_submit_spec RING_ENTRIES_def)

text \<open>What a completion leaves in the ring.\<close>

lemma ring_process_spec:
  assumes sqe: "full_at RING_ENTRIES get_sqe" and "process_cqe i c (rg_server r) = Some s"
  shows "\<exists>n\<le>2. length (sv_ops s) + 1 = length (sv_ops (rg_server r)) + n \<and>
    ring_process get_sqe i c r =
      (if 0 < n \<and> RING_ENTRIES < rg_queued r + n then None else Some \<lparr>rg_server = s, rg_queued = rg_queued r + n\<rparr>)"
proof -
  let ?s = "rg_server r"
  from assms(2) obtain new where new: "sv_ops s = remove_nth i (sv_ops ?s) @ new" "length new \<le> 2" "i < length (sv_ops ?s)"
    by (rule process_appends)
  note len = length_remove_nth [OF new(3)]
  define n where "n = length (sv_ops ?s) - 1"
  have split: "drop n (sv_ops s) = new" "take n (sv_ops s) @ new = sv_ops s"
    using len by (simp_all add: new(1) n_def)
  have "ring_process get_sqe i c r = ring_submit get_sqe new (r\<lparr>rg_server := s\<lparr>sv_ops := take n (sv_ops s)\<rparr>\<rparr>)"
    by (simp only: ring_process_def assms(2) Let_def split(1) bind.simps n_def [symmetric])
  also have "\<dots> = (if 0 < length new \<and> RING_ENTRIES < rg_queued r + length new then None
      else Some \<lparr>rg_server = s, rg_queued = rg_queued r + length new\<rparr>)"
    using split(2) by (cases "new = []") (simp_all add: ring_submit_spec [OF sqe])
  finally have "ring_process get_sqe i c r = \<dots>" .
  moreover have "length (sv_ops s) + 1 = length (sv_ops ?s) + length new" using new(1,3) len by simp
  ultimately show ?thesis using new(2) by blast
qed

lemma process_length: "async_io_process cs s = Some s' \<Longrightarrow> length (sv_ops s) \<le> length (sv_ops s') + length cs"
proof (induction cs arbitrary: s)
  case (Cons ic cs)
  obtain i c where ic: "ic = (i, c)" by (cases ic)
  obtain t where t: "process_cqe i c s = Some t" "async_io_process cs t = Some s'"
    using Cons.prems by (auto simp: ic fault_simps)
  from t(1) obtain new where "sv_ops t = remove_nth i (sv_ops s) @ new" "i < length (sv_ops s)" by (rule process_appends)
  with Cons.IH [OF t(2)] show ?case by (simp add: length_remove_nth)
qed simp

lemma ring_process_None: "process_cqe i c (rg_server r) = None \<Longrightarrow> ring_process get_sqe i c r = None"
  by (simp add: ring_process_def)

section \<open>Properties\<close>

text \<open>
  A kernel thread that reads its entries in time: with two entries for each completion, the ring is
  never full.
\<close>

fun keeps_up :: "nat \<Rightarrow> ring_event list \<Rightarrow> bool" where
  "keeps_up q [] = True"
| "keeps_up q (Reads k # es) = keeps_up (q - k) es"
| "keeps_up q (Completes i c # es) = (q + 2 \<le> RING_ENTRIES \<and> keeps_up (q + 2) es)"

lemma ring_run_server:
  "full_at RING_ENTRIES get_sqe \<Longrightarrow> keeps_up q es \<Longrightarrow> rg_queued r \<le> q \<Longrightarrow>
    map_option rg_server (ring_run get_sqe es r) = async_io_process (completions es) (rg_server r)"
proof (induction es arbitrary: q r rule: completions.induct)
  case (2 k es)
  then show ?case using 2(1) [OF 2(2), of "q - k" "r\<lparr>rg_queued := rg_queued r - k\<rparr>"] by simp
next
  case (3 i c es)
  show ?case
  proof (cases "process_cqe i c (rg_server r)")
    case None
    with ring_process_None [OF None] show ?thesis by simp
  next
    case (Some s)
    from ring_process_spec [OF 3(2) Some] obtain n where n: "n \<le> 2"
      "ring_process get_sqe i c r = (if 0 < n \<and> RING_ENTRIES < rg_queued r + n then None
        else Some \<lparr>rg_server = s, rg_queued = rg_queued r + n\<rparr>)" by blast
    with 3 have "ring_process get_sqe i c r = Some \<lparr>rg_server = s, rg_queued = rg_queued r + n\<rparr>" by simp
    with 3(1) [OF 3(2), of "q + 2" "\<lparr>rg_server = s, rg_queued = rg_queued r + n\<rparr>"] 3(3,4) n(1) Some show ?thesis by simp
  qed
qed simp

text \<open>
  C9. The ring does not matter as long as the kernel keeps up.  A completion submits at most two
  operations.  Hence, when the kernel thread reads the entries of the submission ring in time for
  each completion to find two free ones, no submission finds the ring full, and the program on its
  ring does exactly what the server of \<open>EventLoop\<close> does with the same completions, which has an
  entry for each submission: same state after any run, and same faults.
\<close>

theorem ring_transparent:
  assumes "full_at RING_ENTRIES get_sqe" and "ring_start get_sqe rtr cache = Some r" and "keeps_up 8 es"
  shows "map_option rg_server (ring_run get_sqe es r) = async_io_process (completions es) (server_run rtr cache)"
  using ring_run_server [OF assms(1,3), of r] assms(2) by (auto simp: ring_start_full [OF assms(1)])

abbreviation example_sqe :: "nat \<Rightarrow> unit option" where
  "example_sqe k \<equiv> (if k < RING_ENTRIES then Some () else None)"

lemma example_full: "full_at RING_ENTRIES (\<lambda>k. example_sqe k)"
  by (simp add: full_at_def)

theorem ring_transparent_witness:
  "\<exists>r r' rtr ca. ring_start example_sqe rtr ca = Some r \<and>
     ring_run example_sqe [Reads 8, Completes 0 (completed 5), Reads 2, Completes 7 (completed 0)] r = Some r' \<and>
     sv_ops (rg_server r') = replicate 8 Op_accept"
proof -
  fix rtr ca
  obtain ctx q where ctx: "handle_recv_submission std_alloc 5 None = Some (ctx, q)"
    using sdsMakeRoomFor_empty [of std_alloc 5] by auto
  let ?s = "(server_run rtr ca)\<lparr>sv_ops := replicate 7 Op_accept @ [Op_recv ctx, Op_accept]\<rparr>"
  let ?es = "[Reads 8, Completes 0 (completed 5), Reads 2, Completes 7 (completed 0)]"
  have s1: "process_cqe 0 (completed 5) (server_run rtr ca) = Some ?s"
    using ctx by (simp add: process_cqe_def completion_table_def handle_accept_completion_def
        handle_accept_submission_def submit_def remove_nth_def eval_nat_numeral)
  have rm: "remove_nth 7 (sv_ops ?s) = replicate 8 Op_accept" by (simp add: remove_nth_def eval_nat_numeral)
  have i: "7 < length (sv_ops ?s)" "sv_ops ?s ! 7 = Op_recv ctx" by (simp_all add: nth_append)
  have s2: "process_cqe 7 (completed 0) ?s = Some ((server_run rtr ca)\<lparr>sv_ops := replicate 8 Op_accept\<rparr>)"
    unfolding process_cqe_def rm i(2) using i(1)
    by (simp add: completion_table_def recv_completion_def handle_recv_completion_def)
  obtain r where r: "ring_start example_sqe rtr ca = Some r" by (simp add: ring_start_full [OF example_full])
  have "keeps_up 8 ?es" by (simp add: RING_ENTRIES_def)
  from ring_transparent [OF example_full r this] have "map_option rg_server (ring_run example_sqe ?es r) =
      Some ((server_run rtr ca)\<lparr>sv_ops := replicate 8 Op_accept\<rparr>)"
    using s1 s2 by (simp del: ring_run.simps)
  then show ?thesis using r by fastforce
qed

text \<open>A burst: completions that the event loop handles before the kernel thread reads an entry.\<close>

lemma ring_burst:
  assumes sqe: "full_at RING_ENTRIES get_sqe" and "async_io_process cs (rg_server r) = Some s" and "rg_queued r \<le> RING_ENTRIES"
  shows "\<exists>n. n + length (sv_ops (rg_server r)) = length (sv_ops s) + length cs \<and>
    ring_run get_sqe (map (\<lambda>(i, c). Completes i c) cs) r =
      (if rg_queued r + n \<le> RING_ENTRIES then Some \<lparr>rg_server = s, rg_queued = rg_queued r + n\<rparr> else None)"
  using assms(2,3)
proof (induction cs arbitrary: r)
  case (Cons ic cs)
  obtain i c where ic: "ic = (i, c)" by (cases ic)
  obtain t where t: "process_cqe i c (rg_server r) = Some t" "async_io_process cs t = Some s"
    using Cons.prems(1) by (auto simp: ic fault_simps)
  obtain n where n: "length (sv_ops t) + 1 = length (sv_ops (rg_server r)) + n"
    "ring_process get_sqe i c r = (if 0 < n \<and> RING_ENTRIES < rg_queued r + n then None
      else Some \<lparr>rg_server = t, rg_queued = rg_queued r + n\<rparr>)"
    using ring_process_spec [OF sqe t(1)] by blast
  show ?case
  proof (cases "rg_queued r + n \<le> RING_ENTRIES")
    case True
    let ?r = "\<lparr>rg_server = t, rg_queued = rg_queued r + n\<rparr>"
    obtain m where "m + length (sv_ops t) = length (sv_ops s) + length cs"
      "ring_run get_sqe (map (\<lambda>(i, c). Completes i c) cs) ?r =
        (if rg_queued r + n + m \<le> RING_ENTRIES then Some \<lparr>rg_server = s, rg_queued = rg_queued r + n + m\<rparr> else None)"
      using Cons.IH [of ?r] t(2) True by auto
    with n True show ?thesis by (intro exI [of _ "n + m"]) (simp add: ic add.assoc)
  next
    case False
    have "length (sv_ops t) \<le> length (sv_ops s) + length cs" using process_length t(2) by blast
    with n False Cons.prems(2) show ?thesis
      by (intro exI [of _ "length (sv_ops s) + length (ic # cs) - length (sv_ops (rg_server r))"]) (auto simp: ic)
  qed
qed simp

text \<open>
  C17. What happens when the kernel does not keep up.  When the event loop handles completions one
  after the other while the kernel thread does not run, it survives exactly if the entries already
  taken and the operations it submits are at most 64: otherwise a submission gets a null entry,
  logs it, and writes through it.
\<close>

theorem ring_burst_exact:
  assumes "full_at RING_ENTRIES get_sqe" and "async_io_process cs (rg_server r) = Some s" and "rg_queued r \<le> 64"
  shows "ring_run get_sqe (map (\<lambda>(i, c). Completes i c) cs) r \<noteq> None \<longleftrightarrow>
    rg_queued r + (length (sv_ops s) + length cs - length (sv_ops (rg_server r))) \<le> 64"
proof -
  obtain n where "n + length (sv_ops (rg_server r)) = length (sv_ops s) + length cs"
    "ring_run get_sqe (map (\<lambda>(i, c). Completes i c) cs) r =
      (if rg_queued r + n \<le> 64 then Some \<lparr>rg_server = s, rg_queued = rg_queued r + n\<rparr> else None)"
    using ring_burst [OF assms(1,2)] assms(3) by (auto simp: RING_ENTRIES_def)
  moreover from this(1) have "n = length (sv_ops s) + length cs - length (sv_ops (rg_server r))" by simp
  ultimately show ?thesis by simp
qed

text \<open>Clients that have connected and of whose requests nothing has arrived.\<close>

definition crowd :: "handler router_t \<Rightarrow> file_cache \<Rightarrow> (nat \<Rightarrow> recv_context) \<Rightarrow> nat \<Rightarrow> server" where
  "crowd rtr ca f k = (server_run rtr ca)\<lparr>sv_ops := replicate 7 Op_accept @ map (\<lambda>i. Op_recv (f i)) [0..<k] @ [Op_accept]\<rparr>"

abbreviation connects :: "nat \<Rightarrow> ring_event list" where
  "connects n \<equiv> concat (map (\<lambda>k. [Completes (7 + k) (completed (5 + int k)), Reads 2]) [0..<n])"

lemma ring_run_append: "ring_run get_sqe (es @ fs) r = Option.bind (ring_run get_sqe es r) (ring_run get_sqe fs)"
  by (induction es r rule: ring_run.induct) (auto split: Option.bind_split)

lemma crowd_connects:
  assumes "\<forall>k. \<exists>q. handle_recv_submission std_alloc (5 + int k) None = Some (f k, q)"
  shows "ring_run example_sqe (connects n) \<lparr>rg_server = crowd rtr ca f 0, rg_queued = 0\<rparr> = Some \<lparr>rg_server = crowd rtr ca f n, rg_queued = 0\<rparr>"
proof (induction n)
  case (Suc n)
  obtain q where q: "handle_recv_submission std_alloc (5 + int n) None = Some (f n, q)" using assms by blast
  have len: "length (sv_ops (crowd rtr ca f k)) = 8 + k" for k by (simp add: crowd_def)
  have rm: "remove_nth (7 + n) (sv_ops (crowd rtr ca f n)) = replicate 7 Op_accept @ map (\<lambda>i. Op_recv (f i)) [0..<n]"
    by (simp add: crowd_def remove_nth_def)
  have acc: "sv_ops (crowd rtr ca f n) ! (7 + n) = Op_accept" by (simp add: crowd_def nth_append)
  have "process_cqe (7 + n) (completed (5 + int n)) (crowd rtr ca f n) = Some (crowd rtr ca f (Suc n))"
    unfolding process_cqe_def rm acc using q len [of n]
    by (simp add: completion_table_def handle_accept_completion_def handle_accept_submission_def submit_def crowd_def)
  from ring_process_spec [OF example_full, of _ _ "\<lparr>rg_server = crowd rtr ca f n, rg_queued = 0\<rparr>", unfolded ring.simps, OF this]
  have "ring_process example_sqe (7 + n) (completed (5 + int n)) \<lparr>rg_server = crowd rtr ca f n, rg_queued = 0\<rparr> =
      Some \<lparr>rg_server = crowd rtr ca f (Suc n), rg_queued = 2\<rparr>"
    using len by (auto simp: RING_ENTRIES_def)
  with Suc show ?case by (simp add: ring_run_append)
qed simp

text \<open>One byte of a request: the receive is submitted again.\<close>

lemma crowd_sends:
  assumes "\<forall>r\<in>set rs. sds_rep (rc_buffer r) [] \<and> 8192 \<le> sdsalloc (rc_buffer r)"
    and "sv_ops s = replicate 7 Op_accept @ map Op_recv rs @ new"
  shows "\<exists>s'. async_io_process (replicate (length rs) (7, received ''G'' example_env)) s = Some s' \<and>
    length (sv_ops s') = length (sv_ops s)"
  using assms
proof (induction rs arbitrary: s new)
  case (Cons r rs)
  have "memmem ''G'' HDR_END = None"
    using memmem_bound [of "''G''" HDR_END] by (cases "memmem ''G'' HDR_END") auto
  then have "request_parse ((rc_request r)\<lparr>rq_raw := ''G''\<rparr>) = Some ((rc_request r)\<lparr>rq_raw := ''G''\<rparr>, 0)"
    using request_parse_incomplete [of "(rc_request r)\<lparr>rq_raw := ''G''\<rparr>"] by (simp add: MAX_HEADER_BYTES_def)
  then obtain ctx sqe where "handle_recv_completion std_alloc 1 ''G'' r = Some (Recv_more ctx sqe)"
    using handle_recv_completion_spec(3) [of std_alloc r "[]" "''G''" "(rc_request r)\<lparr>rq_raw := ''G''\<rparr>" 0] Cons.prems(1) by (auto simp: MAX_REQUEST_def)
  moreover have "sv_ops s ! 7 = Op_recv r" "remove_nth 7 (sv_ops s) = replicate 7 Op_accept @ map Op_recv rs @ new"
    "7 < length (sv_ops s)"
    using Cons.prems(2) by (simp_all add: nth_append remove_nth_def)
  ultimately have s1: "process_cqe 7 (received ''G'' example_env) s =
      Some (s\<lparr>sv_ops := replicate 7 Op_accept @ map Op_recv rs @ new @ [Op_recv ctx]\<rparr>)"
    by (simp add: process_cqe_def completion_table_def recv_completion_def submit_def)
  with Cons.IH [of "s\<lparr>sv_ops := replicate 7 Op_accept @ map Op_recv rs @ new @ [Op_recv ctx]\<rparr>" "new @ [Op_recv ctx]"]
    Cons.prems show ?case by simp
qed simp

text \<open>Sixty-five clients send their first byte at once.\<close>

theorem ring_burst_exact_witness:
  "\<exists>rtr ca r0 r. ring_start example_sqe rtr ca = Some r0 \<and> ring_run example_sqe (Reads 8 # connects 65) r0 = Some r \<and>
     async_io_process (replicate 65 (7, received ''G'' example_env)) (rg_server r) \<noteq> None \<and>
     ring_run example_sqe (map (\<lambda>(i, c). Completes i c) (replicate 65 (7, received ''G'' example_env))) r = None"
proof -
  fix rtr ca
  have "\<forall>k. \<exists>ctx q. handle_recv_submission std_alloc (5 + int k) None = Some (ctx, q) \<and>
      sds_rep (rc_buffer ctx) [] \<and> 8192 \<le> sdsalloc (rc_buffer ctx)"
    using sdsMakeRoomFor_empty [of std_alloc "5 + int _"] by (intro allI) (auto, blast)
  then obtain f where f: "\<forall>k. \<exists>q. handle_recv_submission std_alloc (5 + int k) None = Some (f k, q)"
    "\<forall>k. sds_rep (rc_buffer (f k)) [] \<and> 8192 \<le> sdsalloc (rc_buffer (f k))" by metis
  let ?r = "\<lparr>rg_server = crowd rtr ca f 65, rg_queued = 0\<rparr>" and ?cs = "replicate 65 (7, received ''G'' example_env)"
  have c0: "crowd rtr ca f 0 = server_run rtr ca" by (simp add: crowd_def server_run_def eval_nat_numeral handle_accept_submission_def submit_def)
  have run: "ring_run example_sqe (Reads 8 # connects 65) \<lparr>rg_server = server_run rtr ca, rg_queued = 8\<rparr> = Some ?r"
    using crowd_connects [OF f(1), of 65 rtr ca] by (simp add: c0 del: upt_rec_numeral)
  have "sv_ops (crowd rtr ca f 65) = replicate 7 Op_accept @ map Op_recv (map f [0..<65]) @ [Op_accept]"
    by (simp add: crowd_def del: upt_rec_numeral)
  from crowd_sends [OF _ this] obtain s' where s': "async_io_process ?cs (rg_server ?r) = Some s'"
    "length (sv_ops s') = length (sv_ops (crowd rtr ca f 65))" using f(2) by (auto simp del: upt_rec_numeral)
  have "ring_run example_sqe (map (\<lambda>(i, c). Completes i c) ?cs) ?r = None"
    using ring_burst_exact [OF example_full s'(1)] s'(2) by simp
  with run s'(1) ring_start_full [OF example_full, of rtr ca] show ?thesis by blast
qed

section \<open>The faults of the program\<close>

text \<open>
  The states of the program on its ring: the kernel thread reads entries when it likes, and
  operations complete in ways the kernel may choose.
\<close>

inductive ring_reachable :: "(nat \<Rightarrow> unit option) \<Rightarrow> (op \<Rightarrow> cqe \<Rightarrow> bool) \<Rightarrow> ring \<Rightarrow> ring \<Rightarrow> bool"
  for get_sqe krn r0 where
  ring_here: "ring_reachable get_sqe krn r0 r0"
| ring_reads: "ring_reachable get_sqe krn r0 r \<Longrightarrow> ring_reachable get_sqe krn r0 (r\<lparr>rg_queued := rg_queued r - k\<rparr>)"
| ring_completes: "ring_reachable get_sqe krn r0 r \<Longrightarrow> i < length (sv_ops (rg_server r)) \<Longrightarrow>
    krn (sv_ops (rg_server r) ! i) c \<Longrightarrow> ring_process get_sqe i c r = Some r' \<Longrightarrow> ring_reachable get_sqe krn r0 r'"

lemma ring_process_server:
  "full_at RING_ENTRIES get_sqe \<Longrightarrow> ring_process get_sqe i c r = Some r' \<Longrightarrow>
   process_cqe i c (rg_server r) = Some (rg_server r')"
  using ring_process_None [of i c r get_sqe] ring_process_spec [of get_sqe i c r]
  by (cases "process_cqe i c (rg_server r)") (auto split: if_splits)

lemma ring_reachable_server:
  assumes "ring_reachable get_sqe krn r0 r" and "full_at RING_ENTRIES get_sqe"
  shows "reachable krn (rg_server r0) (rg_server r)"
  using assms(1)
proof induction
  case (ring_completes r i c r')
  from ring_process_server [OF assms(2) ring_completes(4)]
  have "process_cqe i c (rg_server r) = Some (rg_server r')" .
  from reachable.step [OF ring_completes(5) completes [where krn = krn, OF ring_completes(2,3) this]] show ?case .
qed (simp_all add: reachable.here)

text \<open>With a kernel thread that reads every entry at once, the server of \<open>EventLoop\<close> has no other states.\<close>

lemma reachable_ring:
  assumes "reachable krn (rg_server r0) s" and sqe: "full_at RING_ENTRIES get_sqe"
  shows "ring_reachable get_sqe krn r0 \<lparr>rg_server = s, rg_queued = 0\<rparr>"
  using assms(1)
proof (induction "rg_server r0" s rule: reachable.induct)
  case here
  from ring_reads [OF ring_here, of get_sqe krn r0 "rg_queued r0"] show ?case by (cases r0) simp
next
  case (step s t)
  from step(3) obtain i c where c: "i < length (sv_ops s)" "krn (sv_ops s ! i) c" "process_cqe i c s = Some t"
    by (auto elim: server_step.cases)
  let ?r = "\<lparr>rg_server = s, rg_queued = 0\<rparr>"
  obtain n where "n \<le> 2" "ring_process get_sqe i c ?r =
      (if 0 < n \<and> RING_ENTRIES < rg_queued ?r + n then None else Some \<lparr>rg_server = t, rg_queued = rg_queued ?r + n\<rparr>)"
    using ring_process_spec [OF sqe, of i c ?r t] c(3) by auto
  then have "ring_process get_sqe i c ?r = Some \<lparr>rg_server = t, rg_queued = n\<rparr>" by (simp add: RING_ENTRIES_def)
  from ring_completes [OF step(2) _ _ this] c(1,2)
  have "ring_reachable get_sqe krn r0 \<lparr>rg_server = t, rg_queued = n\<rparr>" by simp
  from ring_reads [OF this, of n] show ?case by simp
qed

text \<open>
  C1. The faults of the program.  Let the public directory hold at least one file, every public
  file have a dot in its name, the ring be set up and the allocator succeed.  In every state the
  program can reach on its ring of 64 entries, a completion the kernel can deliver makes it fault
  in exactly two cases: it ends the sending of the header of the test page; or it makes the server
  submit operations (one or two) for which the ring has not enough entries left.  No request,
  however it is formed or cut into pieces, and no failing operation makes it fault otherwise.
\<close>

theorem program_faults_exactly:
  assumes "main_startup K junk (Some es) = Some d" and "files_under es ''/'' \<noteq> []"
    and "\<forall>f\<in>set (files_under es ''/''). dotted f"
    and "full_at RING_ENTRIES get_sqe" and "ring_start get_sqe (sv_rtr (sd_server d)) (sv_cache (sd_server d)) = Some r0"
    and "ring_reachable get_sqe kernel_ok r0 r"
    and "i < length (sv_ops (rg_server r))" and "kernel_ok (sv_ops (rg_server r) ! i) c"
  shows "ring_process get_sqe i c r = None \<longleftrightarrow>
    (\<exists>tid sc th. sv_ops (rg_server r) ! i = Op_pt tid (Pt_send sc) \<and> sv_threads (rg_server r) tid = Some th \<and>
       th_self th = Fn_test \<and> handle_send_completion (cq_res c) sc = Some (Inl ())) \<or>
    (\<exists>s new. process_cqe i c (rg_server r) = Some s \<and> sv_ops s = remove_nth i (sv_ops (rg_server r)) @ new \<and>
       length new \<in> {1, 2} \<and> 64 < rg_queued r + length new)"
proof -
  let ?s = "rg_server r"
  from assms(1) have "main_program (Some es) = Some (sd_server d)" by (rule main_startupE)
  then obtain cache rtr where made: "async_io_file_cache = Some cache" "router_setup (Some es) main_routes = Some rtr"
    "sd_server d = server_run rtr cache" by (rule main_programE)
  have "r0 = \<lparr>rg_server = server_run rtr cache, rg_queued = 8\<rparr>"
    using assms(5) by (simp add: made(3) ring_start_full [OF assms(4)])
  with ring_reachable_server [OF assms(6,4)] have reach: "reachable kernel_ok (server_run rtr cache) ?s" by simp
  have fault: "process_cqe i c ?s = None \<longleftrightarrow> test_sent ?s (sv_ops ?s ! i) c"
    by (rule process_faults [OF made(2) assms(2,3) made(1) reach assms(7,8)])
  show ?thesis
  proof (cases "process_cqe i c ?s")
    case None
    with ring_process_None [OF None, of get_sqe] fault show ?thesis by (auto simp: test_sent_def)
  next
    case (Some s)
    from Some obtain new where new: "sv_ops s = remove_nth i (sv_ops ?s) @ new" "length new \<le> 2" "i < length (sv_ops ?s)"
      by (rule process_appends)
    obtain n where n: "length (sv_ops s) + 1 = length (sv_ops ?s) + n" "ring_process get_sqe i c r =
        (if 0 < n \<and> RING_ENTRIES < rg_queued r + n then None else Some \<lparr>rg_server = s, rg_queued = rg_queued r + n\<rparr>)"
      using ring_process_spec [OF assms(4) Some] by blast
    have "n = length new" using n(1) new(1,3) by (simp add: length_remove_nth)
    then have "ring_process get_sqe i c r = None \<longleftrightarrow> length new \<in> {1, 2} \<and> 64 < rg_queued r + length new"
    proof -
      have "length new \<in> {1, 2} \<longleftrightarrow> 0 < length new" using new(2) unfolding insert_iff empty_iff by arith
      with n(2) \<open>n = length new\<close> show ?thesis by (auto simp: RING_ENTRIES_def)
    qed
    with Some new(1) fault show ?thesis by (auto simp: test_sent_def)
  qed
qed

text \<open>The header of the test page has been sent, with the ring empty.\<close>

theorem program_faults_exactly_witness:
  "\<exists>d r0 r c. main_startup \<lparr>sys_ring = 0, sys_socket = 3, sys_setsockopt = 0, sys_bind = 0, sys_listen = 0\<rparr> 0 (Some example_dir) = Some d \<and>
     ring_start example_sqe (sv_rtr (sd_server d)) (sv_cache (sd_server d)) = Some r0 \<and>
     ring_reachable example_sqe kernel_ok r0 r \<and> kernel_ok (sv_ops (rg_server r) ! 8) c \<and>
     rg_queued r = 0 \<and> ring_process example_sqe 8 c r = None"
proof -
  let ?K = "\<lparr>sys_ring = 0, sys_socket = 3, sys_setsockopt = 0, sys_bind = 0, sys_listen = 0\<rparr>"
  obtain rtr and ca :: file_cache where site: "asks_test example_dir rtr ''/test'' []" "async_io_file_cache = Some ca"
    "lru_holds ca Map.empty" "lc_size ca = 16" "0 < hm_unused (lc_hmap ca)"
    "\<forall>f\<in>set (files_under example_dir ''/''). dotted f" using example_site by blast
  have made: "router_setup (Some example_dir) main_routes = Some rtr" "files_under example_dir ''/'' \<noteq> []"
    using site(1) by (simp_all add: asks_test_def)
  have main: "main_program (Some example_dir) = Some (server_run rtr ca)"
    by (simp add: main_program_parts made(1) site(2))
  with main_startup_server [of ?K 0 "Some example_dir"] obtain d where
    d: "main_startup ?K 0 (Some example_dir) = Some d" "sd_server d = server_run rtr ca" by auto
  obtain ca' sc raw b where reach: "reachable kernel_ok (server_run rtr ca)
      (busy rtr ca' 0 (file_thread Fn_test 5 TEST_PATH (zero_file\<lparr>ft_fd := 6, ft_name := Some ''test.html'', ft_size := 1000\<rparr>) 85 raw
        (Send_buffer_pt (Some 405) b)) (Pt_send sc))" (is "reachable _ _ ?s")
    using test_run [OF site(1) example_env_ok _ site(3) _ _ site(5) refl,
      where fd = 5 and ffd = 6 and stx = 1000 and n = 0] site(4)
    by (auto simp: server_run_idle intro: reachable.here)
  let ?c = "result (- 32) example_env" and ?r = "\<lparr>rg_server = ?s, rg_queued = 0\<rparr>"
  obtain r0 where start: "ring_start example_sqe (sv_rtr (sd_server d)) (sv_cache (sd_server d)) = Some r0"
    "rg_server r0 = server_run rtr ca" by (simp add: d(2) ring_start_full [OF example_full])
  have rr: "ring_reachable example_sqe kernel_ok r0 ?r"
    using reachable_ring [OF _ example_full] reach start(2) by simp
  have k: "kernel_ok (sv_ops (rg_server ?r) ! 8) ?c" by (simp add: kernel_ok_def busy_def nth_append)
  have "ring_process example_sqe 8 ?c ?r = None"
    using program_faults_exactly [OF d(1) made(2) site(6) example_full start(1) rr _ k]
    by (simp add: busy_def nth_append handle_send_completion_def)
  with d(1) start(1) rr k show ?thesis by (intro exI [of _ d] exI [of _ r0] exI [of _ ?r] exI [of _ ?c]) simp
qed

end
