(* ===== verification/Forgotten.thy ===== *)
theory Forgotten
  imports Ring
begin

text \<open>
  The connections the server forgets: after a refused request, a closed or failed receive, or a
  request that nothing answers, no protothread and no operation is left that works on the
  client's descriptor or will close it.  The closes without a protothread, those of the handler of
  the cache's evictions, are excluded first: the server of \<open>main\<close> never evicts.
\<close>

section \<open>No file is evicted\<close>

lemma resumed_thread:
  assumes ok: "threads_ok None s" and i: "i < length (sv_ops s)" and o: "sv_ops s ! i = Op_pt tid q"
    and p: "process_cqe i c s = Some s'"
  obtains th where "sv_threads s tid = Some th" and "thread_waits th q" and "waits_not tid (s\<lparr>sv_ops := remove_nth i (sv_ops s)\<rparr>)"
    and "completion_table (Op_pt tid q) c (s\<lparr>sv_ops := remove_nth i (sv_ops s)\<rparr>) = Some s'"
proof -
  let ?s = "s\<lparr>sv_ops := remove_nth i (sv_ops s)\<rparr>"
  obtain th where th: "sv_threads s tid = Some th" "thread_waits th q" "threads_ok (Some tid) ?s"
    using removed_pt_ok [OF ok i o] by metis
  then have "ops_for tid ?s = []" unfolding threads_ok_def by (auto dest!: spec [of _ tid])
  from that [OF th(1,2) waits_not_ops [OF this]] p i o show thesis by (simp add: process_cqe_def)
qed

lemma resume_installs:
  assumes "resume_thread E tid (s\<lparr>sv_threads := (sv_threads s)(tid \<mapsto> th)\<rparr>) = Some s'"
  obtains ca t q ev where "pt_resume E th (sv_cache s) = Some (ca, t, q, ev)" and "s' = install tid (ca, t, q, ev) s"
proof -
  obtain r where r: "pt_resume E th (sv_cache s) = Some r" "s' = install tid r (s\<lparr>sv_threads := (sv_threads s)(tid \<mapsto> th)\<rparr>)"
    using assms by (auto simp: resume_thread_def fault_simps)
  obtain ca t q ev where "r = (ca, t, q, ev)" by (cases r)
  with that r show thesis by (simp add: install_def)
qed

definition no_eviction :: "server \<Rightarrow> bool" where
  "no_eviction s \<longleftrightarrow> (\<forall>fd. Op_close_only fd \<notin> set (sv_ops s))"

lemma no_eviction_simps [simp]:
  "no_eviction (submit q s) \<longleftrightarrow> no_eviction s \<and> (\<forall>fd. q \<noteq> Op_close_only fd)"
  "no_eviction (install tid (ca, th, opn, []) s) \<longleftrightarrow> no_eviction s"
  "no_eviction (s\<lparr>sv_next := n\<rparr>) \<longleftrightarrow> no_eviction s"
  by (auto simp: no_eviction_def submit_def split: option.split)

lemma no_eviction_actions: "start_actions E fd acts s = Some s' \<Longrightarrow> no_eviction s \<Longrightarrow> no_eviction s'"
proof (induction acts arbitrary: s)
  case (Cons a acts)
  then obtain r where r: "run_callback E (action_thread fd a) (sv_cache s) = Some r"
    "start_actions E fd acts (install (sv_next s) r (s\<lparr>sv_next := Suc (sv_next s)\<rparr>)) = Some s'"
    by (auto simp: start_thread_def fault_simps)
  obtain ca t q ev where "r = (ca, t, q, ev)" by (cases r)
  with r(1) run_callback_ev have "r = (ca, t, q, [])" by blast
  with Cons.IH [OF r(2)] Cons.prems(2) show ?case by simp
qed simp

lemma pt_resume_no_ev:
  assumes "thread_waits th q" and "safe_thread P th" and "cache_serves P cache" and "pt_resume E th cache = Some (ca, t, p, ev)"
  shows "ev = []"
  using assms(1,4)
proof (cases rule: pt_resume_cases)
  case (called th' cache' ev1 c t1 q' ev2)
  have "ev2 = []" by (rule run_callback_ev [OF called(2)])
  moreover have "ev1 = []"
    using called(1)
  proof (elim disjE exE conjE)
    fix l p f'
    assume a: "th_child th = Open_file_pt (Some l) p" "q = Pt_openat p" "l = 388"
      and o: "async_io_open_file (Some l) p (th_file th) cache = Some (cache', f', ev1, None)"
    show "ev1 = []" using open_file_ok [OF assms(3), of p "Some l" "th_file th"] assms(2) a o by (auto simp: safe_thread_def)
  next
    fix l p f' fd
    assume a: "th_child th = Open_file_pt (Some l) p" "q = Pt_statx fd" "l = 389"
      and o: "async_io_open_file (Some l) p (th_file th) cache = Some (cache', f', ev1, None)"
    show "ev1 = []" using open_file_ok [OF assms(3), of p "Some l" "th_file th"] assms(2) a o by (auto simp: safe_thread_def)
  qed
  ultimately show ?thesis using called(3) by simp
qed simp_all

lemma no_eviction_process:
  assumes inv: "safe.inv rtr s" and ok: "threads_ok None s" and p: "process_cqe i c s = Some s'" and no: "no_eviction s"
  shows "no_eviction s'"
proof -
  let ?s = "s\<lparr>sv_ops := remove_nth i (sv_ops s)\<rparr>"
  have i: "i < length (sv_ops s)" using p by (simp add: process_cqe_def split: if_splits)
  have no': "no_eviction ?s"
    using no by (auto simp: no_eviction_def remove_nth_def dest: in_set_takeD in_set_dropD)
  show ?thesis
  proof (cases "\<exists>tid q. sv_ops s ! i = Op_pt tid q")
    case True
    then obtain tid q where o: "sv_ops s ! i = Op_pt tid q" by blast
    obtain th where th: "sv_threads s tid = Some th" "thread_waits th q" "waits_not tid ?s"
      "completion_table (Op_pt tid q) c ?s = Some s'" using resumed_thread [OF ok i o p] .
    have th': "sv_threads ?s tid = Some th" using th(1) by simp
    from th(4) th' show ?thesis
    proof (cases rule: completion_pt_cases)
      case resumes
      from resumes(1) obtain ca t p1 ev where r: "pt_resume (cq_env c) (written q c th) (sv_cache ?s) = Some (ca, t, p1, ev)"
        "s' = install tid (ca, t, p1, ev) ?s" by (rule resume_installs)
      have "safe_thread (served_paths rtr) (written q c th)" "cache_serves (served_paths rtr) (sv_cache ?s)"
        using inv th(1) by (auto simp: safe.inv_def safe_thread_def named_def)
      from pt_resume_no_ev [OF _ this r(1), of q] th(2) have "ev = []" by simp
      with r(2) no' show ?thesis by simp
    qed (use no' in simp_all)
  next
    case False
    have t: "completion_table (sv_ops s ! i) c ?s = Some s'" using p i by (simp add: process_cqe_def)
    show ?thesis
    proof (cases "sv_ops s ! i")
      case Op_accept
      with t no' show ?thesis
        by (auto simp: completion_table_def handle_accept_completion_def handle_accept_submission_def fault_simps split: if_splits)
    next
      case (Op_recv ctx)
      have "recv_completion c ctx ?s = Some s'" using t Op_recv by (simp add: completion_table_def)
      then show ?thesis using no' by (cases rule: recv_completion_cases) (auto dest: no_eviction_actions)
    qed (use False t no' in \<open>auto simp: completion_table_def handle_close_completion_def\<close>)
  qed
qed

lemma no_eviction_reachable:
  assumes "router_setup (Some es) specs = Some rtr" and "\<forall>f\<in>set (files_under es ''/''). dotted f"
    and "async_io_file_cache = Some cache" and "reachable kernel_ok (server_run rtr cache) s"
  shows "no_eviction s"
  using assms(4)
proof (induction "server_run rtr cache" s rule: reachable.induct)
  case here
  show ?case by (simp add: no_eviction_def)
next
  case (step s t)
  from step(3) obtain i c where "process_cqe i c s = Some t" by (auto elim: server_step.cases)
  from no_eviction_process [OF safe_reachable(1) [OF assms(1-3) step(1)] safe_reachable(2) [OF assms(1-3) step(1)] this step(2)]
  show ?case .
qed

section \<open>Who works on a connection\<close>

text \<open>
  The operations on a client's descriptor: a receive, the operations of a protothread that work on
  the connection, and a close, with or without a protothread.
\<close>

definition client_of :: "pt_op \<Rightarrow> int option" where
  "client_of q = (case q of Pt_send sc \<Rightarrow> Some (sc_client_fd sc) | Pt_splice_all sp \<Rightarrow> Some (sp_fd_out sp)
     | Pt_close fd \<Rightarrow> Some fd | _ \<Rightarrow> None)"

definition uses_client :: "int \<Rightarrow> op \<Rightarrow> bool" where
  "uses_client fd opn \<longleftrightarrow> (case opn of Op_accept \<Rightarrow> False | Op_recv ctx \<Rightarrow> rc_client_fd ctx = fd
     | Op_pt tid q \<Rightarrow> client_of q = Some fd | Op_close_only fd' \<Rightarrow> fd' = fd)"

text \<open>The same without the closes of the evictions, which belong to no connection.\<close>

definition works_on :: "int \<Rightarrow> op \<Rightarrow> bool" where
  "works_on fd opn \<longleftrightarrow> uses_client fd opn \<and> opn \<noteq> Op_close_only fd"

lemma works_on_eq: "works_on fd opn \<longleftrightarrow> (case opn of Op_recv ctx \<Rightarrow> rc_client_fd ctx = fd
     | Op_pt tid q \<Rightarrow> client_of q = Some fd | _ \<Rightarrow> False)"
  by (auto simp: works_on_def uses_client_def split: op.split)

abbreviation apart :: "int \<Rightarrow> nat \<Rightarrow> pt_result \<Rightarrow> bool" where
  "apart fd \<equiv> result_meets (\<lambda>th. th_client_fd th \<noteq> fd) (\<lambda>q. \<not> works_on fd q) (\<lambda>_. True)"

lemma run_callback_apart:
  "run_callback E th cache = Some r \<Longrightarrow> th_client_fd th \<noteq> fd \<Longrightarrow> apart fd tid r"
  by (cases "th_self th")
    (auto simp: run_callback_def route_callback_send_file_def route_callback_test_def route_callback_send_404_def
      async_io_sendfile_def async_io_send_buffer_def handle_send_submission_def result_meets_def works_on_eq
      client_of_def sendfile_context_def fault_simps
      split: option.splits if_splits dest!: start_open_waits send_head_waits)

lemma pt_resume_apart:
  assumes "thread_waits th q" and "pt_resume E th cache = Some r" and "th_client_fd th \<noteq> fd"
  shows "apart fd tid r"
  using assms(1,2)
proof (cases rule: pt_resume_cases)
  case (called th' cache' ev c t q' ev')
  have "th_client_fd th' \<noteq> fd" using called(1) assms(3) by auto
  from run_callback_apart [OF called(2) this, of tid] called(3) show ?thesis by (simp add: result_meets_def)
qed (use assms(3) in \<open>simp_all add: result_meets_def works_on_eq client_of_def\<close>)

lemma recv_submission_client:
  "handle_recv_submission A fd (Some ctx) = Some (ctx', q) \<Longrightarrow> rc_client_fd ctx' = rc_client_fd ctx"
  by (auto simp: handle_recv_submission_def fault_simps)

lemma recv_client:
  assumes "handle_recv_completion A res d ctx = Some r"
  shows "case r of Recv_more ctx' q \<Rightarrow> rc_client_fd ctx' = rc_client_fd ctx
    | Recv_request req fd \<Rightarrow> fd = rc_client_fd ctx | _ \<Rightarrow> True"
proof (cases "res \<le> 0")
  case True
  with assms show ?thesis by (auto simp: handle_recv_completion_def)
next
  case False
  obtain buf where buf: "mem_write (sd_buf (rc_buffer ctx)) (sdslen (rc_buffer ctx)) d = Some buf"
    using assms False by (cases "mem_write (sd_buf (rc_buffer ctx)) (sdslen (rc_buffer ctx)) d")
      (simp_all add: handle_recv_completion_def)
  obtain b where b: "sdsIncrLen ((rc_buffer ctx)\<lparr>sd_buf := buf\<rparr>) res = Some b"
    using assms False buf by (cases "sdsIncrLen ((rc_buffer ctx)\<lparr>sd_buf := buf\<rparr>) res")
      (simp_all add: handle_recv_completion_def)
  obtain req n where p: "request_parse ((rc_request ctx)\<lparr>rq_raw := sds_bytes b\<rparr>) = Some (req, n)"
    using assms False buf b by (cases "request_parse ((rc_request ctx)\<lparr>rq_raw := sds_bytes b\<rparr>)")
      (auto simp: handle_recv_completion_def Let_def)
  let ?ctx = "ctx\<lparr>rc_buffer := b, rc_request := req\<rparr>"
  have r: "(if n < 0 \<or> sdslen b > MAX_REQUEST then Some Recv_refused
      else if n = 0 then do { (ctx, sqe) \<leftarrow> handle_recv_submission A (rc_client_fd ?ctx) (Some ?ctx); Some (Recv_more ctx sqe) }
      else Some (Recv_request req (rc_client_fd ?ctx))) = Some r"
    using assms False buf b p by (simp add: handle_recv_completion_def Let_def)
  show ?thesis
  proof (cases "n = 0 \<and> \<not> sdslen b > MAX_REQUEST")
    case True
    with r obtain ctx' q where "handle_recv_submission A (rc_client_fd ?ctx) (Some ?ctx) = Some (ctx', q)" "r = Recv_more ctx' q"
      by (cases "handle_recv_submission A (rc_client_fd ?ctx) (Some ?ctx)") auto
    moreover from this(1) have "rc_client_fd ctx' = rc_client_fd ctx" by (auto dest: recv_submission_client)
    ultimately show ?thesis by simp
  qed (use r in \<open>auto split: if_splits\<close>)
qed

interpretation apart: server_invariant rtr "\<lambda>opn c. opn = Op_accept \<longrightarrow> cq_res c \<noteq> fd" "\<lambda>th. th_client_fd th \<noteq> fd"
  "\<lambda>q. \<not> works_on fd q" "\<lambda>_. True" "\<lambda>_ _. True" for rtr fd
proof (unfold_locales, goal_cases)
  case (3 c ctx e)
  then show ?case by (auto simp: handle_recv_submission_def works_on_eq fault_simps)
next
  case (4 ctx c ctx' e)
  then show ?case using recv_client [OF 4(3)] by (simp add: works_on_eq)
next
  case (5 ctx c req fd' acts act cache r tid)
  have "fd' \<noteq> fd" using recv_client [OF 5(3)] 5(1) by (simp add: works_on_eq)
  then have "th_client_fd (action_thread fd' act) \<noteq> fd"
    by (simp add: action_thread_def prep_route_callback_send_file_def handler_thread_def split: action.split)
  with run_callback_apart 5(7) show ?case by blast
next
  case (6 th tid q c cache r)
  then show ?case using pt_resume_apart [of "written q c th" q "cq_env c" cache r fd tid] by simp
next
  case (7 tid sc c sc' e)
  then show ?case
    by (auto simp: handle_send_completion_def handle_send_submission_def works_on_eq client_of_def fault_simps split: if_splits)
next
  case (8 tid sp c sp' e)
  then show ?case
    by (auto simp: handle_splice_all_completion_def works_on_eq client_of_def Let_def split: if_splits)
qed (auto simp: works_on_eq)

lemma apart_reachable:
  assumes "sv_rtr s = rtr" and "threads_ok None s" and "\<forall>q\<in>set (sv_ops s). \<not> works_on fd q"
    and "\<forall>tid th. sv_threads s tid = Some th \<longrightarrow> th_client_fd th \<noteq> fd"
    and "reachable (\<lambda>opn c. opn = Op_accept \<longrightarrow> cq_res c \<noteq> fd) s s'"
  shows "(\<forall>q\<in>set (sv_ops s'). \<not> works_on fd q) \<and> (\<forall>tid th. sv_threads s' tid = Some th \<longrightarrow> th_client_fd th \<noteq> fd)"
proof -
  have "apart.inv rtr fd s" using assms by (simp add: apart.inv_def)
  from apart.inv_reachable [OF assms(5,2) this] show ?thesis by (simp add: apart.inv_def)
qed

section \<open>Properties\<close>

text \<open>
  C14. Forgotten connections, in the server of \<open>main\<close> with dotted public files.  When a receive ends
  with the peer's close, an error, or a request that is refused, and no other operation or
  protothread works on that client, the program never again submits an operation on the client's
  descriptor, a close of any kind included, as long as the kernel does not hand out the same
  descriptor to a new connection: no answer is sent (the comment at that place announces a 400 or
  431) and the connection is never closed.  The same holds of a request that starts nothing.
\<close>

theorem connection_forgotten:
  assumes "main_program (Some es) = Some s0" and "\<forall>f\<in>set (files_under es ''/''). dotted f"
    and "reachable kernel_ok s0 s" and "i < length (sv_ops s)" and "sv_ops s ! i = Op_recv ctx"
    and "kernel_ok (Op_recv ctx) c" and "fd = rc_client_fd ctx"
    and "\<forall>q\<in>set (remove_nth i (sv_ops s)). \<not> uses_client fd q"
    and "\<forall>tid th. sv_threads s tid = Some th \<longrightarrow> th_client_fd th \<noteq> fd"
    and "handle_recv_completion (pe_alloc (cq_env c)) (cq_res c) (cq_data c) ctx = Some r"
    and "r = Recv_dropped \<or> r = Recv_refused \<or>
      (\<exists>req. r = Recv_request req fd \<and> router_handle_request (sv_rtr s) req = Some [])"
    and "process_cqe i c s = Some s1"
    and "reachable (\<lambda>opn c. kernel_ok opn c \<and> (opn = Op_accept \<longrightarrow> cq_res c \<noteq> fd)) s1 s2"
  shows "(\<forall>q\<in>set (sv_ops s2). \<not> uses_client fd q) \<and> (\<forall>tid th. sv_threads s2 tid = Some th \<longrightarrow> th_client_fd th \<noteq> fd)"
proof -
  from assms(1) obtain cache rtr where main: "async_io_file_cache = Some cache"
    "router_setup (Some es) main_routes = Some rtr" "s0 = server_run rtr cache" by (rule main_programE)
  have r: "reachable kernel_ok (server_run rtr cache) s" using assms(3) by (simp add: main(3))
  have "threads_ok None s1" using reachable_threads_ok [OF r] assms(12) by (rule process_cqe_ok)
  moreover have "s1 = s\<lparr>sv_ops := remove_nth i (sv_ops s)\<rparr>"
    using assms(4,5,10,11,12) by (auto simp: process_cqe_def completion_table_def recv_completion_def)
  moreover have "reachable (\<lambda>opn c. opn = Op_accept \<longrightarrow> cq_res c \<noteq> fd) s1 s2"
    by (rule reachable_mono [OF assms(13)]) simp
  ultimately have on: "\<forall>q\<in>set (sv_ops s2). \<not> works_on fd q" "\<forall>tid th. sv_threads s2 tid = Some th \<longrightarrow> th_client_fd th \<noteq> fd"
    using apart_reachable [of s1 "sv_rtr s1" fd s2] assms(8,9) by (simp_all add: works_on_def)
  have "server_step kernel_ok s s1" using completes [of i s kernel_ok c s1] assms(4,5,6,12) by simp
  then have r1: "reachable kernel_ok (server_run rtr cache) s1" by (rule reachable.step [OF r])
  have "reachable kernel_ok s1 s2" by (rule reachable_mono [OF assms(13)]) simp
  then have "no_eviction s2"
    using no_eviction_reachable [OF main(2) assms(2) main(1)] reachable_trans [OF r1] by blast
  with on show ?thesis by (auto simp: works_on_def no_eviction_def)
qed

theorem connection_forgotten_witness:
  "\<exists>s0 s ctx s1 s2. main_program (Some example_dir) = Some s0 \<and> reachable kernel_ok s0 s \<and> rc_client_fd ctx = 5 \<and>
     sv_ops s = replicate 7 Op_accept @ [Op_recv ctx, Op_accept] \<and>
     process_cqe 7 (completed 0) s = Some s1 \<and> process_cqe 0 (completed (- 24)) s1 = Some s2 \<and>
     (\<forall>q\<in>set (sv_ops s2). \<not> uses_client 5 q)"
proof -
  obtain rtr and ca :: file_cache where site: "asks_test example_dir rtr ''/test'' []" "async_io_file_cache = Some ca"
    "\<forall>f\<in>set (files_under example_dir ''/''). dotted f" using example_site by blast
  have main: "main_program (Some example_dir) = Some (server_run rtr ca)"
    using site(1) by (simp add: main_program_parts site(2) asks_test_def)
  obtain ctx q where ctx: "handle_recv_submission std_alloc 5 None = Some (ctx, q)" "rc_client_fd ctx = 5"
    using sdsMakeRoomFor_empty [of std_alloc 5] by auto
  let ?s = "(server_run rtr ca)\<lparr>sv_ops := replicate 7 Op_accept @ [Op_recv ctx, Op_accept]\<rparr>"
  have "process_cqe 0 (completed 5) (server_run rtr ca) = Some ?s"
    using ctx(1) by (simp add: process_cqe_def completion_table_def handle_accept_completion_def
        handle_accept_submission_def submit_def remove_nth_def eval_nat_numeral)
  moreover have k: "kernel_ok opn (completed r)" if "r \<le> 0 \<or> opn = Op_accept" for opn r
    using that by (auto simp: kernel_ok_def env_ok_def split: op.split pt_op.split)
  ultimately have r: "reachable kernel_ok (server_run rtr ca) ?s"
    by (intro reachable.step [OF reachable.here] completes [of 0]) simp_all
  let ?s1 = "(server_run rtr ca)\<lparr>sv_ops := replicate 8 Op_accept\<rparr>" and ?s2 = "(server_run rtr ca)\<lparr>sv_ops := replicate 7 Op_accept\<rparr>"
  have rm: "remove_nth 7 (sv_ops ?s) = replicate 8 Op_accept" by (simp add: remove_nth_def eval_nat_numeral)
  have i: "7 < length (sv_ops ?s)" "sv_ops ?s ! 7 = Op_recv ctx" by (simp_all add: nth_append)
  have drop: "handle_recv_completion (pe_alloc (cq_env (completed 0))) (cq_res (completed 0)) (cq_data (completed 0)) ctx = Some Recv_dropped"
    by (simp add: handle_recv_completion_def)
  have s1: "process_cqe 7 (completed 0) ?s = Some ?s1"
    unfolding process_cqe_def rm i(2) using i(1) drop by (simp add: completion_table_def recv_completion_def)
  have s2: "process_cqe 0 (completed (- 24)) ?s1 = Some ?s2"
    by (simp add: process_cqe_def completion_table_def handle_accept_completion_def remove_nth_def)
  have "server_step (\<lambda>opn c. kernel_ok opn c \<and> (opn = Op_accept \<longrightarrow> cq_res c \<noteq> 5)) ?s1 ?s2"
    using s2 k by (intro completes [of 0]) simp_all
  then have run: "reachable (\<lambda>opn c. kernel_ok opn c \<and> (opn = Op_accept \<longrightarrow> cq_res c \<noteq> 5)) ?s1 ?s2" by (rule reachable.step [OF reachable.here])
  have free: "\<forall>q\<in>set (remove_nth 7 (sv_ops ?s)). \<not> uses_client 5 q" "\<forall>tid th. sv_threads ?s tid = Some th \<longrightarrow> th_client_fd th \<noteq> 5"
    unfolding rm by (simp_all add: uses_client_def)
  have "kernel_ok (Op_recv ctx) (completed 0)" by (rule k) simp
  from connection_forgotten [OF main site(3) r i this ctx(2) [symmetric] free drop _ s1 run]
  have "\<forall>q\<in>set (sv_ops ?s2). \<not> uses_client 5 q" by simp
  with main r ctx(2) s1 s2 show ?thesis by (intro exI [of _ "server_run rtr ca"] exI [of _ ?s] exI [of _ ctx] exI [of _ ?s1] exI [of _ ?s2]) simp
qed

end
