(* ===== verification/Content.thy ===== *)
theory Content
  imports Isolation
begin

text \<open>
  What the answers contain: on a kernel that opens the files the server asks for, every header
  in flight announces the name and the size of the file its protothread was started for, and
  every transfer reads that file, whether it was opened by this protothread, by another one
  meanwhile, or found in the cache.
\<close>

section \<open>The right file\<close>

text \<open>
  The files on the disk: the path a descriptor was opened with, and the size of the file at a
  path.  No file is closed while the cache keeps it, so a descriptor stands for one path.
\<close>

definition right_file :: "(int \<Rightarrow> bytes) \<Rightarrow> (bytes \<Rightarrow> u64) \<Rightarrow> bytes \<Rightarrow> file_t \<Rightarrow> bool" where
  "right_file path_of size_of p f \<longleftrightarrow>
     path_of (ft_fd f) = p \<and> ft_size f = size_of p \<and> ft_name f = Some (last (uri_segs p))"

definition files_ok :: "(int \<Rightarrow> bytes) \<Rightarrow> (bytes \<Rightarrow> u64) \<Rightarrow> op \<Rightarrow> cqe \<Rightarrow> bool" where
  "files_ok path_of size_of opn c \<longleftrightarrow> kernel_ok opn c \<and>
     (\<forall>tid p. opn = Op_pt tid (Pt_openat p) \<longrightarrow> 0 \<le> cq_res c \<and> path_of (cq_res c) = p) \<and>
     (\<forall>tid fd. opn = Op_pt tid (Pt_statx fd) \<longrightarrow> 0 \<le> cq_res c \<and> cq_size c = size_of (path_of fd))"

definition right_cache :: "(int \<Rightarrow> bytes) \<Rightarrow> (bytes \<Rightarrow> u64) \<Rightarrow> bytes set \<Rightarrow> file_cache \<Rightarrow> bool" where
  "right_cache path_of size_of P cache \<longleftrightarrow> cache_serves P cache \<and>
     (\<exists>m. lru_holds cache m \<and> (\<forall>p f. m p = Some f \<longrightarrow> right_file path_of size_of p f))"

text \<open>What has been found out about the file of a protothread, by where it waits.\<close>

definition right_stage :: "(int \<Rightarrow> bytes) \<Rightarrow> (bytes \<Rightarrow> u64) \<Rightarrow> thread \<Rightarrow> bool" where
  "right_stage path_of size_of th \<longleftrightarrow>
     (case th_child th of
        Open_file_pt l p \<Rightarrow> ft_name (th_file th) = Some (last (uri_segs p)) \<and>
          (l = Some 389 \<longrightarrow> path_of (ft_fd (th_file th)) = p)
      | _ \<Rightarrow> right_file path_of size_of (th_path th) (th_file th))"

lemma right_cache_serves [simp]: "right_cache path_of size_of P cache \<Longrightarrow> cache_serves P cache"
  by (simp add: right_cache_def)

lemma right_cache_get:
  assumes "right_cache path_of size_of P cache" and "LRU_cache_get cache p = Some (cache', r)"
  shows "right_cache path_of size_of P cache'" and "r = Some f \<Longrightarrow> right_file path_of size_of p f"
    and "r = None \<Longrightarrow> p \<in> P \<Longrightarrow> right_file path_of size_of p fl \<Longrightarrow> named fl \<Longrightarrow>
      \<exists>c. LRU_cache_add cache' p fl = Some (c, None) \<and> right_cache path_of size_of P c"
proof -
  obtain m where m: "lru_holds cache m" "\<And>p f. m p = Some f \<Longrightarrow> right_file path_of size_of p f"
    using assms(1) by (auto simp: right_cache_def)
  note got = cache_serves_map [OF right_cache_serves [OF assms(1)] m(1), of p fl]
  then have c: "r = m p" "cache_serves P cache'" "lru_holds cache' m" using assms(2) by auto
  show "right_cache path_of size_of P cache'" using c m(2) by (auto simp: right_cache_def)
  show "r = Some f \<Longrightarrow> right_file path_of size_of p f" using c(1) m(2) by simp
  assume new: "r = None" "p \<in> P" "right_file path_of size_of p fl" "named fl"
  with got assms(2) c(1) obtain c2 where c2: "LRU_cache_add cache' p fl = Some (c2, None)" "cache_serves P c2"
    "lru_holds c2 (m(p \<mapsto> fl))" by auto
  then have "right_cache path_of size_of P c2"
    unfolding right_cache_def using m(2) new(3) by (intro conjI exI [of _ "m(p \<mapsto> fl)"]) auto
  with c2(1) show "\<exists>c. LRU_cache_add cache' p fl = Some (c, None) \<and> right_cache path_of size_of P c" by blast
qed

text \<open>However the opening of a file ends, it ends with the right file.\<close>

lemma named_dotted: "dotted p \<Longrightarrow> ft_name f = Some (last (uri_segs p)) \<Longrightarrow> named f"
  by (simp add: named_def dotted_def)

lemma open_file_right:
  assumes c: "right_cache path_of size_of P cache" and "p \<in> P"
    and o: "async_io_open_file label p fl cache = Some (cache', f, ev, w)"
    and "label = Some 389 \<longrightarrow> right_file path_of size_of p fl"
  shows "right_cache path_of size_of P cache' \<and> (w = None \<longrightarrow> right_file path_of size_of p f) \<and>
    (\<forall>q. w = Some (388, q) \<longrightarrow> ft_name f = Some (last (uri_segs p))) \<and> (\<forall>l q. w = Some (l, q) \<longrightarrow> label = None \<longrightarrow> l = 388)"
proof -
  obtain c1 r where g: "LRU_cache_get cache p = Some (c1, r)"
    using o by (auto simp: async_io_open_file_def fault_simps)
  note got = right_cache_get [OF c g]
  have "dotted p" using c \<open>p \<in> P\<close> by (auto simp: right_cache_def cache_serves_def)
  show ?thesis
  proof (cases r)
    case (Some f')
    with o g got(1) got(2) [OF Some] show ?thesis by (simp add: async_io_open_file_def)
  next
    case None
    show ?thesis
    proof (cases "label = Some 389")
      case True
      have "right_file path_of size_of p fl" using assms(4) True by simp
      moreover from this have "named fl" using named_dotted [OF \<open>dotted p\<close>] by (simp add: right_file_def)
      moreover obtain c2 where "LRU_cache_add c1 p fl = Some (c2, None)" "right_cache path_of size_of P c2"
        using got(3) [OF None \<open>p \<in> P\<close> calculation] by blast
      ultimately show ?thesis using o g None True by (simp add: async_io_open_file_def)
    next
      case False
      with o g None got(1) show ?thesis
        by (auto simp: async_io_open_file_def uri_segs_def fault_simps split: if_splits)
    qed
  qed
qed

lemma send_head_right:
  assumes "send_head E line th = Some (th', q)" and "right_file path_of size_of (th_path th) (th_file th)"
  shows "right_stage path_of size_of th'"
proof -
  from send_head_waits [OF assms(1)] obtain b where "th_child th' = Send_buffer_pt (Some 405) b"
    "th_path th' = th_path th" "th_file th' = th_file th" by blast
  with assms(2) show ?thesis by (simp add: right_stage_def)
qed

text \<open>What a callback that has run until its next wait or its end leaves behind.\<close>

abbreviation right_result :: "(int \<Rightarrow> bytes) \<Rightarrow> (bytes \<Rightarrow> u64) \<Rightarrow> bytes set \<Rightarrow> pt_result \<Rightarrow> bool" where
  "right_result path_of size_of P r \<equiv>
     (case r of (cache, th, opn, ev) \<Rightarrow>
        right_cache path_of size_of P cache \<and> (\<forall>t. th = Some t \<longrightarrow> right_stage path_of size_of t))"

lemma start_open_right:
  assumes c: "right_cache path_of size_of P cache" and p: "th_path th \<in> P" and s: "start_open E l1 l2 th cache = Some r"
  shows "right_result path_of size_of P r"
proof -
  obtain cache' f ev w where o: "async_io_open_file None (th_path th) (th_file th) cache = Some (cache', f, ev, w)"
    using s by (auto simp: start_open_def fault_simps)
  note right = open_file_right [OF c p o]
  show ?thesis
  proof (cases w)
    case None
    then obtain th' q where "send_head E l2 (th\<lparr>th_label := Some l1, th_file := f\<rparr>) = Some (th', q)"
      "r = (cache', Some th', Some q, ev)" using s o by (auto simp: start_open_def fault_simps Let_def)
    moreover have "right_file path_of size_of (th_path (th\<lparr>th_label := Some l1, th_file := f\<rparr>)) (th_file (th\<lparr>th_label := Some l1, th_file := f\<rparr>))"
      using right None by simp
    from send_head_right [OF calculation(1) this] have "right_stage path_of size_of th'" .
    ultimately show ?thesis using right by simp
  next
    case (Some lq)
    obtain l q where lq: "lq = (l, q)" by (cases lq)
    then have "r = (cache', Some (th\<lparr>th_label := Some l1, th_file := f, th_child := Open_file_pt (Some l) (th_path th)\<rparr>), Some q, ev)"
      using s o Some by (simp add: start_open_def Let_def)
    moreover have w: "w = Some (l, q)" using Some lq by simp
    then have "l = 388" using right by blast
    with w right have "right_cache path_of size_of P cache'" "ft_name f = Some (last (uri_segs (th_path th)))" by blast+
    ultimately show ?thesis using \<open>l = 388\<close> by (simp add: right_stage_def)
  qed
qed

lemma run_callback_right:
  assumes c: "right_cache path_of size_of P cache" and p: "th_path th \<in> P" "TEST_PATH \<in> P" and self: "th_self th \<noteq> Fn_send_404"
    and f: "th_label th \<noteq> None \<longrightarrow> right_file path_of size_of (th_path th) (th_file th)" and child: "th_child th = No_child"
    and run: "run_callback E th cache = Some r"
  shows "right_result path_of size_of P r"
proof (cases "th_label th")
  case None
  show ?thesis
  proof (cases "th_self th")
    case Fn_send_file
    with run None start_open_right [OF c p(1)] show ?thesis
      by (simp add: run_callback_def route_callback_send_file_def)
  next
    case Fn_test
    have "th_path (th\<lparr>th_path := TEST_PATH, th_file := pe_junk E\<rparr>) \<in> P" using p(2) by simp
    with run None start_open_right [OF c this] Fn_test show ?thesis
      by (simp add: run_callback_def route_callback_test_def)
  qed (use self in simp)
next
  case (Some l)
  then have "right_file path_of size_of (th_path th) (th_file th)" using f by simp
  then have head: "right_stage path_of size_of th'" if "send_head E n th = Some (th', q)" for n th' q
    using send_head_right [OF that] by blast
  have same: "right_stage path_of size_of (th\<lparr>th_label := l1, th_child := ch\<rparr>)" if "\<forall>l p. ch \<noteq> Open_file_pt l p" for l1 ch
    using that f Some by (cases ch) (simp_all add: right_stage_def)
  show ?thesis
  proof (cases "th_self th")
    case Fn_send_file
    with run Some have "route_callback_send_file E th cache = Some r" by (simp add: run_callback_def)
    with Some c head same show ?thesis
      by (auto simp: route_callback_send_file_def async_io_sendfile_def fault_simps split: if_splits)
  next
    case Fn_test
    with run Some c head show ?thesis
      by (auto simp: run_callback_def route_callback_test_def fault_simps split: if_splits)
  qed (use self in simp)
qed


text \<open>Resuming a protothread.\<close>

abbreviation right_thread :: "(int \<Rightarrow> bytes) \<Rightarrow> (bytes \<Rightarrow> u64) \<Rightarrow> bytes set \<Rightarrow> thread \<Rightarrow> bool" where
  "right_thread path_of size_of P th \<equiv> safe_thread P th \<and> right_stage path_of size_of th"

lemma right_meets:
  assumes "result_meets (safe_thread P) safe_op (cache_serves P) tid r" and "right_result path_of size_of P r"
  shows "result_meets (right_thread path_of size_of P) safe_op (right_cache path_of size_of P) tid r"
  using assms by (auto simp: result_meets_def)

lemma pt_resume_right:
  assumes th: "right_thread path_of size_of P th" and c: "right_cache path_of size_of P cache" and "TEST_PATH \<in> P"
    and q: "serves th q" and w: "thread_waits th q" and k: "files_ok path_of size_of (Op_pt tid q) c"
    and r: "pt_resume E (written q c th) cache = Some r"
  shows "right_result path_of size_of P r"
proof -
  let ?th = "written q c th"
  have P: "th_path ?th \<in> P" "th_self ?th \<noteq> Fn_send_404" using th by (simp_all add: safe_thread_def)
  have "thread_waits ?th q" using w by simp
  then show ?thesis using r
  proof (cases rule: pt_resume_cases)
    case (opened p cache')
    then have "path_of (ft_fd (th_file ?th)) = p" using k by (auto simp: files_ok_def written_def)
    moreover have "ft_name (th_file ?th) = Some (last (uri_segs p))" using th opened(1) by (simp add: right_stage_def)
    ultimately show ?thesis using opened(4) right_cache_get(1) [OF c opened(3)] by (simp add: right_stage_def)
  next
    case (called th' cache' ev c2 t q' ev')
    have lab: "th_label ?th \<noteq> None" using w by (auto simp: thread_waits_def split: pt_op.splits)
    have "right_cache path_of size_of P cache' \<and> right_file path_of size_of (th_path th') (th_file th')"
    proof (cases "\<exists>l p. th_child ?th = Open_file_pt l p")
      case True
      then obtain l p f where o: "th_child ?th = Open_file_pt (Some l) p"
        "q = Pt_openat p \<and> l = 388 \<or> (\<exists>fd. q = Pt_statx fd) \<and> l = 389"
        "async_io_open_file (Some l) p (th_file ?th) cache = Some (cache', f, ev, None)"
        "th' = ?th\<lparr>th_file := f, th_child := No_child\<rparr>" using called(1) by blast
      have p: "p = th_path th" using th o(1) by (simp add: safe_thread_def)
      have "right_file path_of size_of p (th_file ?th)" if l: "l = 389"
      proof -
        have fd: "q = Pt_statx (ft_fd (th_file th))" using q o(2) l by (auto simp: serves_def)
        have at: "path_of (ft_fd (th_file th)) = p" "ft_name (th_file th) = Some (last (uri_segs p))"
          using th o(1) l by (simp_all add: right_stage_def)
        have "0 \<le> cq_res c" "cq_size c = size_of p" using k fd at(1) by (auto simp: files_ok_def)
        with fd at show ?thesis by (simp add: written_def right_file_def)
      qed
      with open_file_right [OF c _ o(3)] P(1) p o(4) show ?thesis by simp
    next
      case False
      then have same: "cache' = cache" "th' = ?th\<lparr>th_child := No_child\<rparr>" using called(1) by auto
      have "?th = th" using w False by (auto simp: written_def thread_waits_def split: pt_op.split)
      moreover have "right_file path_of size_of (th_path th) (th_file th)"
        using th False by (simp add: right_stage_def split: child.splits)
      ultimately show ?thesis using same c by simp
    qed
    moreover have "th_path th' \<in> P" "th_self th' \<noteq> Fn_send_404" "th_child th' = No_child" using called(1) P by auto
    ultimately have "right_result path_of size_of P (c2, t, q', ev')"
      using run_callback_right [OF _ _ \<open>TEST_PATH \<in> P\<close> _ _ _ called(2)] by blast
    then show ?thesis using called(3) by simp
  qed (use c in simp)
qed

text \<open>What a callback does when it is resumed: the header, the transfer, the close, the end.\<close>

lemma callback_goes_on:
  assumes "run_callback E th cache = Some (c, t, q, ev)" and "th_label th = Some l" and "th_self th \<noteq> Fn_send_404"
  obtains (head) n t' p where "l \<in> {77, 51}" "send_head E n th = Some (t', p)" "q = Some p" "t = Some t'"
  | (body) t' where "l = 113" "t = Some t'" "th_path t' = th_path th" "th_file t' = th_file th" "th_client_fd t' = th_client_fd th"
      "q = Some (Pt_splice_all (sendfile_context (ft_fd (th_file th)) (th_client_fd th) (ft_size (th_file th)) (case pe_pipe E of Some p \<Rightarrow> p | None \<Rightarrow> (0, 0))))"
  | (shut) t' where "l = 123" "t = Some t'" "th_path t' = th_path th" "q = Some (Pt_close (th_client_fd th))"
  | (over) "l = 127" "t = None" "q = None"
proof (cases "th_self th")
  case Fn_send_file
  with assms(1,2) have "route_callback_send_file E th cache = Some (c, t, q, ev)" by (simp add: run_callback_def)
  with assms(2) head body shut over show thesis
    by (auto simp: route_callback_send_file_def async_io_sendfile_def fault_simps split: if_splits)
next
  case Fn_test
  with assms(1,2) have "route_callback_test E th cache = Some (c, t, q, ev)" by (simp add: run_callback_def)
  with assms(2) head show thesis
    by (auto simp: route_callback_test_def fault_simps split: if_splits)
qed (use assms(3) in simp)

text \<open>
  The operation that follows when a protothread is resumed: after the opening the measuring, or the
  whole header of the file at its path; then the transfer of that file, and the close.
\<close>

definition whole_head :: "(bytes \<Rightarrow> u64) \<Rightarrow> bytes \<Rightarrow> pt_op \<Rightarrow> bool" where
  "whole_head size_of path p \<longleftrightarrow>
     (\<exists>sc. p = Pt_send sc \<and> sds_rep (sc_buffer sc) (file_head (last (uri_segs path)) (size_of path)))"

definition follows :: "(bytes \<Rightarrow> u64) \<Rightarrow> thread \<Rightarrow> pt_op \<Rightarrow> thread \<Rightarrow> pt_op \<Rightarrow> bool" where
  "follows size_of th q t p \<longleftrightarrow> th_path t = th_path th \<and>
     (case q of
        Pt_openat path \<Rightarrow> (\<exists>fd. p = Pt_statx fd) \<or> whole_head size_of (th_path th) p
      | Pt_statx fd \<Rightarrow> whole_head size_of (th_path th) p
      | Pt_send sc \<Rightarrow> ft_size (th_file t) = size_of (th_path th) \<and>
          (\<exists>pipes. p = Pt_splice_all (sendfile_context (ft_fd (th_file t)) (th_client_fd t) (size_of (th_path th)) pipes))
      | Pt_splice_all sp \<Rightarrow> (\<exists>fd. p = Pt_close fd)
      | Pt_close fd \<Rightarrow> False)"

lemma resume_follows:
  assumes th: "right_thread path_of size_of P th" and c: "right_cache path_of size_of P cache" and "TEST_PATH \<in> P"
    and s: "serves th q" and w: "thread_waits th q" and k: "files_ok path_of size_of (Op_pt tid q) c"
    and r: "pt_resume (cq_env c) (written q c th) cache = Some r"
  shows "case r of (ca, t, q', ev) \<Rightarrow>
    (t = None \<and> q' = None \<and> (\<exists>fd. q = Pt_close fd)) \<or> (\<exists>t' p. t = Some t' \<and> q' = Some p \<and> follows size_of th q t' p)"
proof -
  let ?th = "written q c th"
  have E: "env_ok (cq_env c)" using k by (simp add: files_ok_def kernel_ok_def)
  have self: "th_self ?th \<noteq> Fn_send_404" using th by (simp add: safe_thread_def)
  have w': "thread_waits ?th q" using w by simp
  note right = pt_resume_right [OF th c assms(3) s w k r]
  show ?thesis using w' r
  proof (cases rule: pt_resume_cases)
    case (opened p cache')
    then show ?thesis by (simp add: follows_def)
  next
    case (called th' cache' ev c2 t q' ev')
    have th': "th_self th' \<noteq> Fn_send_404" "th_path th' = th_path th" "th_label th' = th_label th" using called(1) self by auto
    obtain l where l: "th_label th = Some l" using w by (auto simp: thread_waits_def split: pt_op.splits)
    have lab: "th_label th' = Some l" using l th'(3) by simp
    from called(2) lab th'(1) show ?thesis
    proof (cases rule: callback_goes_on)
      case (head n t' p)
      from send_head_rep [OF E head(2)] obtain sc name where sc: "p = Pt_send sc" "ft_name (th_file th') = Some name"
        "sds_rep (sc_buffer sc) (file_head name (ft_size (th_file th')))" by blast
      from send_head_waits [OF head(2)] have t': "th_path t' = th_path th'" "th_file t' = th_file th'"
        "\<exists>b. th_child t' = Send_buffer_pt (Some 405) b" by auto
      then have "right_file path_of size_of (th_path t') (th_file t')"
        using right called(3) head(4) by (auto simp: right_stage_def)
      then have "whole_head size_of (th_path th) p" using sc t' th'(2) by (auto simp: whole_head_def right_file_def)
      moreover have "(\<exists>p. q = Pt_openat p) \<or> (\<exists>fd. q = Pt_statx fd)"
        using w head(1) l by (auto simp: thread_waits_def split: pt_op.splits)
      ultimately show ?thesis using head called(3) th'(2) t'(1) by (auto simp: follows_def)
    next
      case (body t')
      then obtain sc where sc: "q = Pt_send sc" using w l by (auto simp: thread_waits_def split: pt_op.splits)
      have "\<forall>l p. th_child ?th \<noteq> Open_file_pt l p" using w sc by (auto simp: thread_waits_def)
      then have "th_file th' = th_file th" using called(1) sc by (auto simp: written_def)
      moreover have "ft_size (th_file th) = size_of (th_path th)"
        using th w sc by (auto simp: thread_waits_def right_stage_def right_file_def)
      ultimately show ?thesis using body called(3) th'(2) sc by (simp add: follows_def del: split_paired_Ex) blast
    next
      case (shut t')
      then obtain sp where "q = Pt_splice_all sp" using w l by (auto simp: thread_waits_def split: pt_op.splits)
      with shut called(3) th'(2) show ?thesis by (simp add: follows_def)
    next
      case over
      then obtain fd where "q = Pt_close fd" using w l by (auto simp: thread_waits_def split: pt_op.splits)
      then show ?thesis using over called(3) by simp
    qed
  qed simp
qed

text \<open>The fifth instance of the invariants: the files are the right ones.\<close>

interpretation content: server_invariant rtr "files_ok path_of size_of" "right_thread path_of size_of (served_paths rtr)"
  safe_op "right_cache path_of size_of (served_paths rtr)" serves for rtr path_of size_of
proof (unfold_locales, goal_cases)
  case (3 c ctx e)
  then show ?case using safe.accepted [of c ctx e] by (simp add: files_ok_def)
next
  case (4 ctx c ctx' e)
  then show ?case using safe.received [of ctx c ctx' e] by (simp add: files_ok_def)
next
  case (5 ctx c req fd acts act cache r tid)
  have "TEST_PATH \<in> served_paths rtr" by (simp add: served_paths_def)
  have k: "kernel_ok (Op_recv ctx) c" using 5(2) by (simp add: files_ok_def)
  have m: "safe_result (served_paths rtr) tid r"
    using safe.started [OF 5(1) k 5(3,4,5) right_cache_serves [OF 5(6)] 5(7)] .
  let ?th = "action_thread fd act"
  have th: "th_self ?th \<noteq> Fn_send_404" "th_label ?th = None" "th_child ?th = No_child"
    by (auto simp: action_thread_def prep_route_callback_send_file_def handler_thread_def split: action.split handler.split)
  have "right_result path_of size_of (served_paths rtr) r"
  proof (cases act)
    case (Send_file p)
    then have "th_path ?th \<in> served_paths rtr"
      using 5(4,5) by (auto simp: action_thread_def prep_route_callback_send_file_def served_paths_def)
    with run_callback_right [OF 5(6) _ \<open>TEST_PATH \<in> served_paths rtr\<close> th(1) _ th(3) 5(7)] th(2) show ?thesis by simp
  next
    case (Run_handler f)
    show ?thesis using 5(7) Run_handler start_open_right [OF 5(6)] \<open>TEST_PATH \<in> served_paths rtr\<close>
      by (cases f) (force simp: action_thread_def handler_thread_def run_callback_def route_callback_test_def)
  qed
  with m show ?case by (rule right_meets)
next
  case (6 th tid q c cache r)
  have "TEST_PATH \<in> served_paths rtr" by (simp add: served_paths_def)
  have k: "kernel_ok (Op_pt tid q) c" using 6(5) by (simp add: files_ok_def)
  have "safe_thread (served_paths rtr) th" using 6(1) by simp
  from safe.resumed [OF this 6(2) TrueI 6(4) k right_cache_serves [OF 6(6)] 6(7)]
    pt_resume_right [OF 6(1) 6(6) \<open>TEST_PATH \<in> served_paths rtr\<close> 6(3,4,5,7)] show ?case by (rule right_meets)
next
  case (7 tid sc c sc' e)
  then show ?case using safe.sent [of tid sc c sc' e] by (simp add: files_ok_def)
next
  case (8 tid sp c sp' e)
  then show ?case by (rule safe.spliced)
next
  case (9 ctx c cache fd act r)
  then show ?case using own.started_rel [of ctx c rtr cache fd act r] by (simp add: files_ok_def)
next
  case (10 th tid q c cache r)
  then show ?case using own.resumed_rel [of rtr th tid q c cache r] by (simp add: files_ok_def)
next
  case (11 th sc tid c sc' e)
  then show ?case by (elim sent_serves)
next
  case (12 th sp tid c sp' e)
  then show ?case using own.spliced_rel [of th sp tid c sp' e] by (simp add: files_ok_def)
qed (simp_all add: safe.idle)

lemma fresh_right_cache:
  assumes "router_setup (Some es) specs = Some rtr" and "\<forall>f\<in>set (files_under es ''/''). dotted f"
    and "async_io_file_cache = Some cache"
  shows "right_cache path_of size_of (served_paths rtr) cache"
proof -
  have "lru_holds cache Map.empty"
    using lru_create_total [of 16 280, where ?'v = file_t] assms(3) by (auto simp: async_io_file_cache_def)
  then show ?thesis using fresh_cache [OF assms] by (auto simp: right_cache_def intro!: exI [of _ Map.empty])
qed

lemma content_reachable:
  assumes "router_setup (Some es) specs = Some rtr" and "\<forall>f\<in>set (files_under es ''/''). dotted f"
    and "async_io_file_cache = Some cache" and "reachable (files_ok path_of size_of) (server_run rtr cache) s"
  shows "content.inv rtr path_of size_of s" and "threads_ok None s"
proof -
  from fresh_right_cache [OF assms(1-3)] have "content.inv rtr path_of size_of (server_run rtr cache)" by (simp add: content.inv_def safe_op_def)
  moreover have "threads_ok None (server_run rtr cache)" by (rule reachable_threads_ok [OF reachable.here])
  ultimately show "content.inv rtr path_of size_of s" "threads_ok None s"
    using content.inv_reachable [OF assms(4)] by simp_all
qed

section \<open>An example: the index page\<close>

text \<open>The states in which the page is being opened, measured, and its header sent.\<close>

abbreviation index_file :: file_t where
  "index_file \<equiv> zero_file\<lparr>ft_name := Some ''index.html''\<rparr>"

definition index_opens :: "handler router_t \<Rightarrow> file_cache \<Rightarrow> server" where
  "index_opens rtr ca = busy rtr ca 0
     (file_thread Fn_send_file 5 INDEX_PATH index_file 77 [] (Open_file_pt (Some 388) INDEX_PATH)) (Pt_openat INDEX_PATH)"

definition index_measures :: "handler router_t \<Rightarrow> file_cache \<Rightarrow> server" where
  "index_measures rtr ca = busy rtr ca 0
     (file_thread Fn_send_file 5 INDEX_PATH (index_file\<lparr>ft_fd := 6\<rparr>) 77 [] (Open_file_pt (Some 389) INDEX_PATH)) (Pt_statx 6)"

definition index_heads :: "handler router_t \<Rightarrow> file_cache \<Rightarrow> send_context \<Rightarrow> server" where
  "index_heads rtr ca sc = busy rtr ca 0
     (file_thread Fn_send_file 5 INDEX_PATH (index_file\<lparr>ft_fd := 6, ft_size := 1000\<rparr>) 113 (file_head ''index.html'' 1000)
       (Send_buffer_pt (Some 405) (file_head ''index.html'' 1000))) (Pt_send sc)"

lemma index_name: "last (uri_segs INDEX_PATH) = ''index.html''"
proof -
  have "uri_segs (join_with ''/'' [''assets'', ''public'', ''index.html'']) = [''assets'', ''public'', ''index.html'']"
    unfolding uri_segs_def by (subst split_join) simp_all
  then show ?thesis by simp
qed

abbreviation index_request :: bytes where
  "index_request \<equiv> print_request http_method_get ''/index.html'' []"

lemma index_steps:
  obtains rtr ca ctx c1 c2 c3 sc where "async_io_file_cache = Some ca" and "router_setup (Some example_dir) main_routes = Some rtr"
    and "\<forall>f\<in>set (files_under example_dir ''/''). dotted f"
    and "process_cqe 0 (result 5 example_env) (server_run rtr ca) =
      Some ((server_run rtr ca)\<lparr>sv_ops := replicate 7 Op_accept @ [Op_recv ctx, Op_accept]\<rparr>)"
    and "process_cqe 7 (received index_request example_env)
      ((server_run rtr ca)\<lparr>sv_ops := replicate 7 Op_accept @ [Op_recv ctx, Op_accept]\<rparr>) = Some (index_opens rtr c1)"
    and "length index_request \<le> sdsavail (rc_buffer ctx)"
    and "process_cqe 8 (result 6 example_env) (index_opens rtr c1) = Some (index_measures rtr c2)"
    and "process_cqe 8 (measured 0 1000 example_env) (index_measures rtr c2) = Some (index_heads rtr c3 sc)"
    and "sds_rep (sc_buffer sc) (file_head ''index.html'' 1000)"
proof -
  obtain rtr and ca :: file_cache where site: "asks_for example_dir rtr ''/index.html'' []" "async_io_file_cache = Some ca"
    "lru_holds ca Map.empty" "lc_size ca = 16" "0 < hm_unused (lc_hmap ca)"
    "\<forall>f\<in>set (files_under example_dir ''/''). dotted f" using example_site by blast
  have made: "router_setup (Some example_dir) main_routes = Some rtr" using site(1) by (simp add: asks_for_def)
  let ?p = "PUBLIC_DIR @ ''/index.html''"
  have room: "card (dom (Map.empty :: bytes \<rightharpoonup> file_t)) < lc_size ca" using site(4) by simp
  obtain c1 c2 c3 c4 where c: "LRU_cache_get ca ?p = Some (c1, None)" "LRU_cache_get c1 ?p = Some (c2, None)"
    "LRU_cache_get c2 ?p = Some (c3, None)" "\<And>v. LRU_cache_add c3 ?p v = Some (c4 v, None)"
    using cache_opening [OF site(3) _ room site(5), of ?p] by (metis (no_types, lifting))
  have "?p \<noteq> []" by simp
  note start = file_requested [OF c(1) this, of example_env 5 rtr 0]
  have wf: "wf_request http_method_get ''/index.html'' []" "length index_request \<le> 8192"
    using site(1) by (simp_all add: asks_for_def)
  obtain ctx where r: "process_cqe 0 (result 5 example_env) (idle rtr ca 0) =
      Some ((idle rtr ca 0)\<lparr>sv_ops := replicate 7 Op_accept @ [Op_recv ctx, Op_accept]\<rparr>)"
    "process_cqe 7 (received index_request example_env) ((idle rtr ca 0)\<lparr>sv_ops := replicate 7 Op_accept @ [Op_recv ctx, Op_accept]\<rparr>) =
      start_actions example_env 5 [Send_file ?p] (idle rtr ca 0)" "8192 \<le> sdsavail (rc_buffer ctx)"
    by (rule request_steps [OF example_env_ok wf, where rtr = rtr and fd = 5 and n = 0 and ca = ca]) (erule asks_for_actions [OF site(1)], assumption, simp, blast)
  have asked: "process_cqe 7 (received index_request example_env)
      ((server_run rtr ca)\<lparr>sv_ops := replicate 7 Op_accept @ [Op_recv ctx, Op_accept]\<rparr>) = Some (index_opens rtr c1)"
    using r(2) start index_name by (simp add: server_run_idle index_opens_def)
  have s1: "process_cqe 8 (result 6 example_env) (index_opens rtr c1) = Some (index_measures rtr c2)"
    using file_opened [OF c(2), of 6 example_env rtr 0 Fn_send_file 5 index_file]
    by (simp add: index_opens_def index_measures_def open_line_def)
  obtain sc where s2: "process_cqe 8 (measured 0 1000 example_env) (index_measures rtr c2) =
      Some (index_heads rtr (c4 (index_file\<lparr>ft_fd := 6, ft_size := 1000\<rparr>)) sc)"
    "sds_rep (sc_buffer sc) (file_head ''index.html'' 1000)"
    using file_measured [of Fn_send_file, OF _ c(3) c(4) example_env_ok, of "index_file\<lparr>ft_fd := 6\<rparr>" "''index.html''" _ 0 1000 rtr 0 5 6]
    by (auto simp: open_line_def head_line_def index_measures_def index_heads_def)
  have "length index_request \<le> sdsavail (rc_buffer ctx)" using wf(2) r(3) by simp
  from that [OF site(2) made site(6) r(1) [folded server_run_idle] asked this s1 s2] show thesis .
qed

lemma index_run:
  obtains rtr ca c1 c2 c3 sc where "async_io_file_cache = Some ca" and "router_setup (Some example_dir) main_routes = Some rtr"
    and "\<forall>f\<in>set (files_under example_dir ''/''). dotted f"
    and "\<forall>krn. (\<forall>opn c. kernel_ok opn c \<longrightarrow> (\<forall>tid q. opn \<noteq> Op_pt tid q) \<longrightarrow> krn opn c) \<longrightarrow>
      reachable krn (server_run rtr ca) (index_opens rtr c1)"
    and "process_cqe 8 (result 6 example_env) (index_opens rtr c1) = Some (index_measures rtr c2)"
    and "process_cqe 8 (measured 0 1000 example_env) (index_measures rtr c2) = Some (index_heads rtr c3 sc)"
    and "sds_rep (sc_buffer sc) (file_head ''index.html'' 1000)"
proof -
  obtain rtr ca ctx c1 c2 c3 sc where i: "async_io_file_cache = Some ca" "router_setup (Some example_dir) main_routes = Some rtr"
    "\<forall>f\<in>set (files_under example_dir ''/''). dotted f"
    and r: "process_cqe 0 (result 5 example_env) (server_run rtr ca) =
      Some ((server_run rtr ca)\<lparr>sv_ops := replicate 7 Op_accept @ [Op_recv ctx, Op_accept]\<rparr>)"
      "process_cqe 7 (received index_request example_env)
      ((server_run rtr ca)\<lparr>sv_ops := replicate 7 Op_accept @ [Op_recv ctx, Op_accept]\<rparr>) = Some (index_opens rtr c1)"
      "length index_request \<le> sdsavail (rc_buffer ctx)"
    and s: "process_cqe 8 (result 6 example_env) (index_opens rtr c1) = Some (index_measures rtr c2)"
      "process_cqe 8 (measured 0 1000 example_env) (index_measures rtr c2) = Some (index_heads rtr c3 sc)"
      "sds_rep (sc_buffer sc) (file_head ''index.html'' 1000)" by (rule index_steps)
  let ?s1 = "(server_run rtr ca)\<lparr>sv_ops := replicate 7 Op_accept @ [Op_recv ctx, Op_accept]\<rparr>"
  have "reachable krn (server_run rtr ca) (index_opens rtr c1)"
    if krn: "\<forall>opn c. kernel_ok opn c \<longrightarrow> (\<forall>tid q. opn \<noteq> Op_pt tid q) \<longrightarrow> krn opn c" for krn
  proof -
    have "server_step krn (server_run rtr ca) ?s1"
      using r(1) krn example_env_ok by (intro completes [of 0]) (simp_all add: kernel_ok_def)
    moreover have "server_step krn ?s1 (index_opens rtr c1)"
      using r(2,3) krn example_env_ok by (intro completes [of 7]) (simp_all add: kernel_ok_def nth_append)
    ultimately show ?thesis by (blast intro: reachable.intros)
  qed
  with that i s show thesis by blast
qed

lemma index_reaches:
  shows "reachable krn s0 (index_opens rtr ca) \<Longrightarrow> krn (Op_pt 0 (Pt_openat INDEX_PATH)) c \<Longrightarrow>
      process_cqe 8 c (index_opens rtr ca) = Some s' \<Longrightarrow> reachable krn s0 s'"
    and "reachable krn s0 (index_measures rtr ca) \<Longrightarrow> krn (Op_pt 0 (Pt_statx 6)) c \<Longrightarrow>
      process_cqe 8 c (index_measures rtr ca) = Some s' \<Longrightarrow> reachable krn s0 s'"
  unfolding index_opens_def index_measures_def by (fact busy_reaches)+

section \<open>Properties\<close>

text \<open>
  C8. The answers are right.  On a kernel that opens the files the server asks for, whatever the
  clients send and in whatever order the operations complete: a header in flight is what is left
  of the header with the type and the size of the file at the path the protothread was started
  for, one the router serves, and a transfer in flight reads that file.  The file cache never
  gives a protothread the file of another path, and a file never goes out with the size of another.
\<close>

theorem right_file_sent:
  assumes "async_io_file_cache = Some cache" and "router_setup (Some es) main_routes = Some rtr"
    and "\<forall>f\<in>set (files_under es ''/''). dotted f"
    and "reachable (files_ok path_of size_of) (server_run rtr cache) s" and "Op_pt tid q \<in> set (sv_ops s)"
  shows "\<exists>th. sv_threads s tid = Some th \<and> th_path th \<in> served_paths rtr \<and>
    (\<forall>sc. q = Pt_send sc \<longrightarrow>
       (\<exists>k. sds_rep (sc_buffer sc) (drop k (file_head (last (uri_segs (th_path th))) (size_of (th_path th)))))) \<and>
    (\<forall>sp. q = Pt_splice_all sp \<longrightarrow> path_of (sp_fd_in sp) = th_path th)"
proof -
  note ok = content_reachable [OF assms(2,3,1,4)]
  obtain th where th: "sv_threads s tid = Some th" "thread_waits th q"
    using op_thread [OF ok(2) assms(5)] by blast
  then have inv: "right_thread path_of size_of (served_paths rtr) th" "serves th q"
    using ok(1) assms(5) by (auto simp: content.inv_def)
  have right: "right_file path_of size_of (th_path th) (th_file th)" if "(\<exists>sc. q = Pt_send sc) \<or> (\<exists>sp. q = Pt_splice_all sp)"
    using inv(1) th(2) that by (auto simp: thread_waits_def right_stage_def)
  have "th_path th \<in> served_paths rtr" using inv(1) by (simp add: safe_thread_def)
  with th(1) inv(2) right show ?thesis by (auto simp: serves_def right_file_def)
qed

theorem right_file_sent_witness:
  "\<exists>rtr ca s sc. router_setup (Some example_dir) main_routes = Some rtr \<and>
     reachable (files_ok (\<lambda>_. INDEX_PATH) (\<lambda>_. 1000)) (server_run rtr ca) s \<and>
     Op_pt 0 (Pt_send sc) \<in> set (sv_ops s) \<and> (\<exists>k. sds_rep (sc_buffer sc) (drop k (file_head ''index.html'' 1000)))"
proof -
  let ?krn = "files_ok (\<lambda>_. INDEX_PATH) (\<lambda>_. 1000)"
  obtain rtr ca c1 c2 c3 sc where site: "async_io_file_cache = Some ca" "router_setup (Some example_dir) main_routes = Some rtr"
    "\<forall>f\<in>set (files_under example_dir ''/''). dotted f"
    and r: "\<forall>krn. (\<forall>opn c. kernel_ok opn c \<longrightarrow> (\<forall>tid q. opn \<noteq> Op_pt tid q) \<longrightarrow> krn opn c) \<longrightarrow>
      reachable krn (server_run rtr ca) (index_opens rtr c1)"
    and s1: "process_cqe 8 (result 6 example_env) (index_opens rtr c1) = Some (index_measures rtr c2)"
    and s2: "process_cqe 8 (measured 0 1000 example_env) (index_measures rtr c2) = Some (index_heads rtr c3 sc)"
    using index_run by (metis (no_types, lifting))
  have "reachable ?krn (server_run rtr ca) (index_opens rtr c1)" using r by (simp add: files_ok_def)
  then have "reachable ?krn (server_run rtr ca) (index_measures rtr c2)"
    by (rule index_reaches(1) [OF _ _ s1]) (simp add: files_ok_def kernel_ok_def)
  then have s: "reachable ?krn (server_run rtr ca) (index_heads rtr c3 sc)"
    by (rule index_reaches(2) [OF _ _ s2]) (simp add: files_ok_def kernel_ok_def)
  have op: "Op_pt 0 (Pt_send sc) \<in> set (sv_ops (index_heads rtr c3 sc))" by (simp add: index_heads_def busy_def)
  have "\<exists>k. sds_rep (sc_buffer sc) (drop k (file_head ''index.html'' 1000))"
    using right_file_sent [OF site s op] index_name by (auto simp: index_heads_def busy_def)
  with site(2) s op show ?thesis by blast
qed

end
