(* ===== verification/Liveness.thy ===== *)
theory Liveness
  imports Content
begin

text \<open>
  Every answer ends: on a kernel whose sends and splices move something and whose last drain of a
  pipe empties it, the number of completions an answer takes is bounded by the size of its file and
  of its header.  The bound is a potential that each
  completion of the answer lowers and no other completion changes.
\<close>

section \<open>A countdown\<close>

text \<open>
  Runs of a system whose steps, when they are allowed, keep an invariant; and runs in which some
  of the steps are owned: each of them lowers the rank of the state, and no other step raises it.
\<close>

fun run_of :: "('e \<Rightarrow> 's \<Rightarrow> 's option) \<Rightarrow> 'e list \<Rightarrow> 's \<Rightarrow> 's option" where
  "run_of nxt [] s = Some s"
| "run_of nxt (e # es) s = do { s \<leftarrow> nxt e s; run_of nxt es s }"

text \<open>A run each of whose steps is allowed where it happens, and the owned steps of a run.\<close>

fun allowed_run :: "('e \<Rightarrow> 's \<Rightarrow> 's option) \<Rightarrow> ('s \<Rightarrow> 'e \<Rightarrow> bool) \<Rightarrow> 'e list \<Rightarrow> 's \<Rightarrow> bool" where
  "allowed_run nxt ok [] s \<longleftrightarrow> True"
| "allowed_run nxt ok (e # es) s \<longleftrightarrow> ok s e \<and> (case nxt e s of None \<Rightarrow> True | Some s' \<Rightarrow> allowed_run nxt ok es s')"

fun owned_steps :: "('e \<Rightarrow> 's \<Rightarrow> 's option) \<Rightarrow> ('s \<Rightarrow> 'e \<Rightarrow> bool) \<Rightarrow> 'e list \<Rightarrow> 's \<Rightarrow> nat" where
  "owned_steps nxt own [] s = 0"
| "owned_steps nxt own (e # es) s =
     (if own s e then 1 else 0) + (case nxt e s of None \<Rightarrow> 0 | Some s' \<Rightarrow> owned_steps nxt own es s')"

locale guarded_run =
  fixes nxt :: "'e \<Rightarrow> 's \<Rightarrow> 's option" and ok :: "'s \<Rightarrow> 'e \<Rightarrow> bool" and Inv :: "'s \<Rightarrow> bool"
  assumes keeps: "Inv s \<Longrightarrow> ok s e \<Longrightarrow> nxt e s = Some s' \<Longrightarrow> Inv s'"
begin

lemma run_keeps: "Inv s \<Longrightarrow> allowed_run nxt ok es s \<Longrightarrow> run_of nxt es s = Some s' \<Longrightarrow> Inv s'"
proof (induction es arbitrary: s)
  case (Cons e es)
  from Cons.prems(3) obtain t where t: "nxt e s = Some t" "run_of nxt es t = Some s'" by (auto simp: fault_simps)
  then have ok: "ok s e" "allowed_run nxt ok es t" using Cons.prems(2) by auto
  from Cons.IH [OF keeps [OF Cons.prems(1) ok(1) t(1)] ok(2) t(2)] show ?case .
qed simp

end

locale countdown = guarded_run nxt ok Inv
  for nxt :: "'e \<Rightarrow> 's \<Rightarrow> 's option" and ok :: "'s \<Rightarrow> 'e \<Rightarrow> bool" and Inv :: "'s \<Rightarrow> bool" +
  fixes own :: "'s \<Rightarrow> 'e \<Rightarrow> bool" and rank :: "'s \<Rightarrow> nat"
  assumes lowers: "Inv s \<Longrightarrow> ok s e \<Longrightarrow> nxt e s = Some s' \<Longrightarrow> own s e \<Longrightarrow> rank s' < rank s"
    and keeps_rank: "Inv s \<Longrightarrow> ok s e \<Longrightarrow> nxt e s = Some s' \<Longrightarrow> \<not> own s e \<Longrightarrow> rank s' \<le> rank s"
begin

lemma counts_down:
  "Inv s \<Longrightarrow> allowed_run nxt ok es s \<Longrightarrow> run_of nxt es s = Some s' \<Longrightarrow>
    owned_steps nxt own es s + rank s' \<le> rank s \<and> Inv s'"
proof (induction es arbitrary: s)
  case (Cons e es)
  from Cons.prems(3) obtain t where t: "nxt e s = Some t" "run_of nxt es t = Some s'" by (auto simp: fault_simps)
  then have ok: "ok s e" "allowed_run nxt ok es t" using Cons.prems(2) by auto
  from Cons.IH [OF keeps [OF Cons.prems(1) ok(1) t(1)] ok(2) t(2)]
  have "owned_steps nxt own es t + rank s' \<le> rank t" "Inv s'" by simp_all
  moreover have "rank t + (if own s e then 1 else 0) \<le> rank s"
    using lowers [OF Cons.prems(1) ok(1) t(1)] keeps_rank [OF Cons.prems(1) ok(1) t(1)] by (cases "own s e") auto
  ultimately show ?case using t(1) by simp
qed simp

end

section \<open>How much of an answer is left\<close>

text \<open>
  What is asked of the kernel, as opposed to the size of the files and the right descriptors: a
  send takes at least a byte; a splice into the pipe moves no more than asked and at least a byte
  unless none is asked; a splice out of the pipe likewise, and what it leaves in the pipe is no more
  than is still to be read from the file, so that the last one empties the pipe.  All of them may
  fail.  (Drains that take all they are asked for leave nothing.  A drain that leaves more than is
  still to be read makes the lengths of the program wrap around: that is
  \<open>sendfile_partial_drain_overruns\<close>.)
\<close>

definition asked :: "splice_all_context \<Rightarrow> nat" where
  "asked sp =
     (case handle_splice_all_submission sp of Sq_splice fd_in off_in fd_out off_out n \<Rightarrow> unat n | _ \<Rightarrow> 0)"

definition sends_something :: "op \<Rightarrow> cqe \<Rightarrow> bool" where
  "sends_something opn c \<longleftrightarrow> (\<forall>tid sc. opn = Op_pt tid (Pt_send sc) \<longrightarrow> cq_res c \<noteq> 0)"

definition fills_something :: "op \<Rightarrow> cqe \<Rightarrow> bool" where
  "fills_something opn c \<longleftrightarrow>
     (\<forall>tid sp. opn = Op_pt tid (Pt_splice_all sp) \<longrightarrow> \<not> sp_is_draining sp \<longrightarrow> 0 \<le> cq_res c \<longrightarrow>
        cq_res c \<le> int (asked sp) \<and> (0 < asked sp \<longrightarrow> 0 < cq_res c))"

definition drains_in_time :: "op \<Rightarrow> cqe \<Rightarrow> bool" where
  "drains_in_time opn c \<longleftrightarrow>
     (\<forall>tid sp. opn = Op_pt tid (Pt_splice_all sp) \<longrightarrow> sp_is_draining sp \<longrightarrow> 0 \<le> cq_res c \<longrightarrow>
        cq_res c \<le> int (asked sp) \<and> (0 < asked sp \<longrightarrow> 0 < cq_res c) \<and>
        int (asked sp) - cq_res c \<le> int (unat (sp_nbytes sp)))"

text \<open>
  The pipe holds at most what one splice can move; before it is filled no more than is still to be
  read, and it is drained empty only at the end.
\<close>

definition pipe_ready :: "splice_all_context \<Rightarrow> bool" where
  "pipe_ready sp \<longleftrightarrow> unat (sp_in_pipe sp) \<le> 65536 \<and>
     (if sp_is_draining sp then sp_in_pipe sp = 0 \<longrightarrow> sp_nbytes sp = 0
      else unat (sp_in_pipe sp) \<le> unat (sp_nbytes sp))"

definition splice_rank :: "splice_all_context \<Rightarrow> nat" where
  "splice_rank sp = 3 * unat (sp_nbytes sp) + 2 * unat (sp_in_pipe sp) + (if sp_is_draining sp then 1 else 2)"

text \<open>
  The completions left for an answer with a file of the given size and a header of the given
  length: the close, the transfer, the header, \<open>statx\<close> and \<open>openat\<close>.
\<close>

definition body_rank :: "u64 \<Rightarrow> nat" where
  "body_rank stx_size = 3 * unat (ucast stx_size :: u32) + 3"

definition answer_rank :: "nat \<Rightarrow> u64 \<Rightarrow> pt_op \<Rightarrow> nat" where
  "answer_rank head stx_size q =
     (case q of
        Pt_close fd \<Rightarrow> 1
      | Pt_splice_all sp \<Rightarrow> 1 + splice_rank sp
      | Pt_send sc \<Rightarrow> body_rank stx_size + 1 + sdslen (sc_buffer sc)
      | Pt_statx fd \<Rightarrow> body_rank stx_size + head + 2
      | Pt_openat p \<Rightarrow> body_rank stx_size + head + 3)"

lemma splice_start_rank: "splice_rank (sendfile_context fd cfd n pipes) + 1 \<le> body_rank n"
  by (simp add: splice_rank_def sendfile_context_def body_rank_def)

lemma splice_start_ready: "pipe_ready (sendfile_context fd cfd n pipes)"
  by (simp add: pipe_ready_def sendfile_context_def)

lemma u32_u64: "ucast (ucast (n :: u32) :: u64) = n"
  by transfer simp

lemma unat_ucast_u32: "unat (ucast (n :: u32) :: u64) = unat n"
  by (rule unsigned_ucast_eq [THEN trans]) (rule take_bit_nat_eq_self, rule less_le_trans [OF unsigned_less], simp)

text \<open>The lengths the program asks for, without a wrap.\<close>

lemma asked_ready:
  assumes "pipe_ready sp"
  shows "asked sp = (if sp_is_draining sp then unat (sp_in_pipe sp)
    else min (unat (sp_nbytes sp)) 65536 - unat (sp_in_pipe sp))"
proof (cases "sp_is_draining sp")
  case True
  then show ?thesis using assms
    by (simp add: asked_def handle_splice_all_submission_def pipe_ready_def unsigned_ucast_eq take_bit_nat_eq_self)
next
  case False
  let ?m = "if sp_nbytes sp < SPLICE_MAX_SIZE then sp_nbytes sp else SPLICE_MAX_SIZE"
  have m: "unat ?m = min (unat (sp_nbytes sp)) 65536"
    by (simp add: SPLICE_MAX_SIZE_def word_less_nat_alt min_def)
  then have "sp_in_pipe sp \<le> (ucast ?m :: u64)"
    using assms False by (simp add: word_le_nat_alt unat_ucast_u32 pipe_ready_def)
  then have d: "unat ((ucast ?m :: u64) - sp_in_pipe sp) = min (unat (sp_nbytes sp)) 65536 - unat (sp_in_pipe sp)"
    by (simp only: unat_sub unat_ucast_u32 m)
  then have "unat ((ucast ?m :: u64) - sp_in_pipe sp) \<le> 65536" by simp
  then have "unat (ucast ((ucast ?m :: u64) - sp_in_pipe sp) :: u32) = unat ((ucast ?m :: u64) - sp_in_pipe sp)"
    unfolding unsigned_ucast_eq by (intro take_bit_nat_eq_self) simp
  with d False show ?thesis by (simp only: asked_def handle_splice_all_submission_def if_False sqe.case)
qed

text \<open>Each splice lowers the rank of the transfer.\<close>

lemma splice_lowers:
  assumes next_: "handle_splice_all_completion res sp = Some (sp', e)" and ready: "pipe_ready sp"
    and moved: "res \<le> int (asked sp)" "0 < asked sp \<longrightarrow> 0 < res"
    and left: "sp_is_draining sp \<longrightarrow> int (asked sp) - res \<le> int (unat (sp_nbytes sp))"
  shows "splice_rank sp' < splice_rank sp \<and> pipe_ready sp'"
proof -
  have "0 \<le> res" using next_ by (simp add: handle_splice_all_completion_def split: if_splits)
  then obtain k where k: "res = int k" using nonneg_int_cases by blast
  have p: "unat (sp_in_pipe sp) \<le> 65536" using ready by (simp add: pipe_ready_def)
  note asked = asked_ready [OF ready]
  show ?thesis
  proof (cases "sp_is_draining sp")
    case True
    then have a: "asked sp = unat (sp_in_pipe sp)" using asked by simp
    have kp: "k \<le> unat (sp_in_pipe sp)" "unat (sp_in_pipe sp) - k \<le> unat (sp_nbytes sp)" "0 < unat (sp_in_pipe sp) \<longrightarrow> 0 < k"
    proof -
      obtain x y where xy: "x = unat (sp_in_pipe sp)" "y = unat (sp_nbytes sp)" by simp
      have "int k \<le> int x" "0 < x \<longrightarrow> 0 < int k" "int x - int k \<le> int y"
        using moved left True unfolding k a xy by simp_all
      then show "k \<le> unat (sp_in_pipe sp)" "unat (sp_in_pipe sp) - k \<le> unat (sp_nbytes sp)"
        "0 < unat (sp_in_pipe sp) \<longrightarrow> 0 < k" unfolding xy [symmetric] by auto
    qed
    have "k < 2 ^ 64" using kp(1) u64_less [of "sp_in_pipe sp"] by linarith
    then have kw: "unat (of_nat k :: u64) = k" by (rule unat_of_nat_u64)
    have "(of_nat k :: u64) \<le> sp_in_pipe sp" using kp(1) kw by (simp add: word_le_nat_alt)
    then have p': "unat (sp_in_pipe sp - of_nat k) = unat (sp_in_pipe sp) - k" by (simp only: unat_sub kw)
    have sp': "sp' = sp\<lparr>sp_in_pipe := sp_in_pipe sp - of_nat k, sp_is_draining := False\<rparr>"
      and more: "\<not> (sp_in_pipe sp - of_nat k = 0 \<and> sp_nbytes sp = 0)"
      using next_ True k by (auto simp: handle_splice_all_completion_def Let_def split: if_splits)
    have "0 < k"
    proof (rule ccontr)
      assume "\<not> 0 < k"
      then have "sp_in_pipe sp = 0" "k = 0" using kp(3) by (auto simp: unat_eq_0)
      with more ready True show False by (simp add: pipe_ready_def)
    qed
    with kp have "Suc (2 * (unat (sp_in_pipe sp) - k)) < 2 * unat (sp_in_pipe sp)" "unat (sp_in_pipe sp) - k \<le> 65536"
      using p by arith+
    with kp p' True show ?thesis by (simp add: sp' splice_rank_def pipe_ready_def)
  next
    case False
    let ?m = "min (unat (sp_nbytes sp)) 65536"
    have a: "asked sp = ?m - unat (sp_in_pipe sp)" and le: "unat (sp_in_pipe sp) \<le> ?m"
      using asked False ready by (simp_all add: pipe_ready_def)
    have km: "unat (sp_in_pipe sp) + k \<le> ?m" and pos: "unat (sp_in_pipe sp) < ?m \<longrightarrow> 0 < k"
      using moved k a le by auto
    have kw: "unat (of_nat k :: u64) = k" using km by (intro unat_of_nat_u64) simp
    have kw32: "unat (of_nat k :: u32) = k" using km by (simp add: unsigned_of_nat take_bit_nat_eq_self)
    have "(of_nat k :: u32) \<le> sp_nbytes sp" using km kw32 by (simp add: word_le_nat_alt)
    then have n': "unat (sp_nbytes sp - of_nat k) = unat (sp_nbytes sp) - k" by (simp only: unat_sub kw32)
    have "unat (sp_in_pipe sp) + unat (of_nat k :: u64) < 2 ^ 64" using km kw by simp
    then have p': "unat (sp_in_pipe sp + of_nat k) = unat (sp_in_pipe sp) + k"
      using kw by (simp add: unat_add_lem [THEN iffD1])
    have sp': "sp' = sp\<lparr>sp_nbytes := sp_nbytes sp - of_nat k, sp_in_pipe := sp_in_pipe sp + of_nat k, sp_is_draining := True\<rparr>"
      using next_ False k by (auto simp: handle_splice_all_completion_def Let_def split: if_splits)
    have "sp_nbytes sp - of_nat k = 0" if "sp_in_pipe sp + of_nat k = 0"
    proof -
      have "unat (sp_in_pipe sp + of_nat k) = 0" using that by simp
      then have "unat (sp_in_pipe sp) = 0" "k = 0" using p' by simp_all
      with pos have "unat (sp_nbytes sp) = 0" by auto
      with \<open>k = 0\<close> show ?thesis by (simp add: unat_eq_0)
    qed
    moreover have "3 * (unat (sp_nbytes sp) - k) + 2 * k < Suc (3 * unat (sp_nbytes sp))" using km by arith
    ultimately show ?thesis using km n' p' False by (simp add: sp' splice_rank_def pipe_ready_def)
  qed
qed

text \<open>Each send lowers what is left of the header.\<close>

lemma send_lowers:
  assumes "sds_rep (sc_buffer sc) str" and "handle_send_completion res sc = Some (Inr (sc', e))" and "res \<noteq> 0"
  shows "sdslen (sc_buffer sc') < sdslen (sc_buffer sc)"
proof -
  obtain b where b: "sdsrange (sc_buffer sc) res (- 1) = Some b" "sds_rep b (range_of str res (- 1))"
    using sdsrange_spec [OF assms(1)] by blast
  have res: "0 < res" and ne: "0 < sdslen b" and sc': "sc_buffer sc' = b"
    using assms(2,3) b(1) by (auto simp: handle_send_completion_def handle_send_submission_def split: if_splits)
  have "range_of str res (- 1) = drop (nat res) str"
    using res ne sds_rep_len [OF b(2)] by (auto simp: range_of_def Let_def max_def min_def split: if_splits)
  then have "sdslen b = length str - nat res" using sds_rep_len [OF b(2)] by simp
  with ne res sds_rep_len [OF assms(1)] sc' show ?thesis by simp
qed

definition head_length :: "(bytes \<Rightarrow> u64) \<Rightarrow> bytes \<Rightarrow> nat" where
  "head_length size_of p = length (file_head (last (uri_segs p)) (size_of p))"

text \<open>The rank of what a protothread waits for, and what the waits for a transfer keep.\<close>

abbreviation thread_rank :: "(bytes \<Rightarrow> u64) \<Rightarrow> thread \<Rightarrow> pt_op \<Rightarrow> nat" where
  "thread_rank size_of th \<equiv> answer_rank (head_length size_of (th_path th)) (size_of (th_path th))"

definition ready_serves :: "thread \<Rightarrow> pt_op \<Rightarrow> bool" where
  "ready_serves th q \<longleftrightarrow> serves th q \<and>
     (\<forall>sp. q = Pt_splice_all sp \<longrightarrow> pipe_ready sp \<and> splice_rank sp < body_rank (ft_size (th_file th)))"

definition moving :: "(int \<Rightarrow> bytes) \<Rightarrow> (bytes \<Rightarrow> u64) \<Rightarrow> op \<Rightarrow> cqe \<Rightarrow> bool" where
  "moving path_of size_of opn c \<longleftrightarrow> files_ok path_of size_of opn c \<and>
     sends_something opn c \<and> fills_something opn c \<and> drains_in_time opn c"

lemma splice_lowers_moving:
  assumes "handle_splice_all_completion (cq_res c) sp = Some (sp', e)" and "pipe_ready sp"
    and "moving path_of size_of (Op_pt tid (Pt_splice_all sp)) c"
  shows "splice_rank sp' < splice_rank sp \<and> pipe_ready sp'"
proof -
  have "0 \<le> cq_res c" using assms(1) by (simp add: handle_splice_all_completion_def split: if_splits)
  with assms(3) have "cq_res c \<le> int (asked sp) \<and> (0 < asked sp \<longrightarrow> 0 < cq_res c) \<and>
      (sp_is_draining sp \<longrightarrow> int (asked sp) - cq_res c \<le> int (unat (sp_nbytes sp)))"
    by (cases "sp_is_draining sp") (auto simp: moving_def fills_something_def drains_in_time_def)
  with splice_lowers [OF assms(1,2)] show ?thesis by blast
qed

text \<open>A header that is being sent for the right file is no longer than that file's header.\<close>

lemma head_bound:
  assumes "serves th (Pt_send sc)" and "right_file path_of size_of (th_path th) (th_file th)"
  shows "sdslen (sc_buffer sc) \<le> head_length size_of (th_path th)"
  using assms by (auto simp: serves_def right_file_def head_length_def dest!: sds_rep_len)

text \<open>A resumption leaves less of the answer to do.\<close>

definition goes_on :: "(bytes \<Rightarrow> u64) \<Rightarrow> thread \<Rightarrow> pt_op \<Rightarrow> pt_result \<Rightarrow> bool" where
  "goes_on size_of th q r \<longleftrightarrow>
     (case r of (cache, t, q', ev) \<Rightarrow>
        (t = None \<and> q' = None) \<or>
        (\<exists>t' p. t = Some t' \<and> q' = Some p \<and> th_path t' = th_path th \<and> thread_rank size_of th p < thread_rank size_of th q \<and>
           (\<forall>sp. p = Pt_splice_all sp \<longrightarrow> pipe_ready sp \<and> splice_rank sp < body_rank (ft_size (th_file t')))))"

lemma splice_rank_pos: "0 < splice_rank sp"
  by (simp add: splice_rank_def)

lemma follows_lowers:
  assumes "follows size_of th q t p"
  shows "thread_rank size_of th p < thread_rank size_of th q"
    and "p = Pt_splice_all sp \<Longrightarrow> pipe_ready sp \<and> splice_rank sp < body_rank (ft_size (th_file t))"
proof -
  have head: "sdslen (sc_buffer sc) = head_length size_of (th_path th)"
    if "whole_head size_of (th_path th) (Pt_send sc)" for sc
    using that by (auto simp: whole_head_def head_length_def dest: sds_rep_len)
  note start = splice_start_rank [of "ft_fd (th_file t)" "th_client_fd t" "size_of (th_path th)"] splice_start_ready
  show "thread_rank size_of th p < thread_rank size_of th q"
  proof (cases q)
    case (Pt_openat x)
    with assms head show ?thesis by (auto simp: follows_def answer_rank_def whole_head_def)
  next
    case (Pt_statx fd)
    with assms head show ?thesis by (auto simp: follows_def answer_rank_def whole_head_def)
  next
    case (Pt_send sc)
    with assms obtain pipes where
      "p = Pt_splice_all (sendfile_context (ft_fd (th_file t)) (th_client_fd t) (size_of (th_path th)) pipes)"
      by (auto simp: follows_def)
    with Pt_send start(1) [of pipes] show ?thesis by (simp add: answer_rank_def)
  next
    case (Pt_splice_all sp)
    with assms splice_rank_pos [of sp] show ?thesis by (auto simp: follows_def answer_rank_def)
  qed (use assms in \<open>simp add: follows_def\<close>)
  assume p: "p = Pt_splice_all sp"
  with assms have "sp = sendfile_context (ft_fd (th_file t)) (th_client_fd t) (size_of (th_path th)) (sp_pipe sp)"
    "ft_size (th_file t) = size_of (th_path th)"
    by (auto simp: follows_def whole_head_def sendfile_context_def split: pt_op.splits)
  with start(1) [of "sp_pipe sp"] start(2) show "pipe_ready sp \<and> splice_rank sp < body_rank (ft_size (th_file t))"
    by (metis Suc_eq_plus1 Suc_le_eq)
qed

lemma resume_goes_on:
  assumes "right_thread path_of size_of P th" and "right_cache path_of size_of P cache" and "TEST_PATH \<in> P"
    and "ready_serves th q" and "thread_waits th q" and "moving path_of size_of (Op_pt tid q) c"
    and "pt_resume (cq_env c) (written q c th) cache = Some r"
  shows "goes_on size_of th q r"
proof -
  have "serves th q" "files_ok path_of size_of (Op_pt tid q) c" using assms(4,6) by (simp_all add: ready_serves_def moving_def)
  from resume_follows [OF assms(1-3) this(1) assms(5) this(2) assms(7)] show ?thesis
    unfolding goes_on_def using follows_lowers by (auto simp: follows_def)
qed

text \<open>A callback that starts does not start with a transfer.\<close>

lemma start_no_splice:
  assumes "th_label th = None" and "run_callback E th cache = Some r"
  shows "result_rel (\<lambda>t q. \<forall>sp. q \<noteq> Pt_splice_all sp) r"
proof -
  obtain c t q ev where r: "r = (c, t, q, ev)" by (cases r)
  show ?thesis
  proof (cases "th_self th")
    case Fn_send_404
    with assms r show ?thesis
      by (auto simp: run_callback_def route_callback_send_404_def async_io_send_buffer_def result_rel_def fault_simps)
  qed (use assms r in \<open>auto simp: run_callback_def route_callback_send_file_def route_callback_test_def result_rel_def
      dest!: start_open_waits\<close>)
qed

text \<open>The sixth instance of the invariants: on such a kernel the pipes are ready.\<close>

interpretation live: server_invariant rtr "moving path_of size_of" "right_thread path_of size_of (served_paths rtr)"
  safe_op "right_cache path_of size_of (served_paths rtr)" ready_serves for rtr path_of size_of
proof (unfold_locales, goal_cases)
  case (3 c ctx e)
  then show ?case using content.accepted [of path_of size_of c ctx e] by (simp add: moving_def)
next
  case (4 ctx c ctx' e)
  then show ?case using content.received [of ctx path_of size_of c ctx' e] by (simp add: moving_def)
next
  case (5 ctx c req fd acts act cache r tid)
  have "files_ok path_of size_of (Op_recv ctx) c" using 5(2) by (simp add: moving_def)
  from content.started [OF 5(1) this 5(3-7)] show ?case .
next
  case (6 th tid q c cache r)
  have "files_ok path_of size_of (Op_pt tid q) c" "serves th q" using 6(3,5) by (simp_all add: moving_def ready_serves_def)
  from content.resumed [OF 6(1,2) this(2) 6(4) this(1) 6(6,7)] show ?case .
next
  case (7 tid sc c sc' e)
  then show ?case using safe.sent [of tid sc c sc' e] by (simp add: moving_def files_ok_def)
next
  case (8 tid sp c sp' e)
  then show ?case by (rule safe.spliced)
next
  case (9 ctx c cache fd act r)
  have "files_ok path_of size_of (Op_recv ctx) c" using 9(1) by (simp add: moving_def)
  from content.started_rel [OF this 9(2,3)] have "result_rel serves r" .
  moreover have "th_label (action_thread fd act) = None"
    by (auto simp: action_thread_def prep_route_callback_send_file_def handler_thread_def split: action.split handler.split)
  then have "result_rel (\<lambda>t q. \<forall>sp. q \<noteq> Pt_splice_all sp) r" using 9(3) by (rule start_no_splice)
  ultimately show ?case by (auto simp: result_rel_def ready_serves_def)
next
  case (10 th tid q c cache r)
  have k: "files_ok path_of size_of (Op_pt tid q) c" "serves th q" using 10(3,5) by (simp_all add: moving_def ready_serves_def)
  have "TEST_PATH \<in> served_paths rtr" by (simp add: served_paths_def)
  from resume_goes_on [OF 10(1,6) this 10(3,4,5,7)] content.resumed_rel [OF 10(1,2) k(2) 10(4) k(1) 10(6,7)]
  show ?case by (auto simp: result_rel_def goes_on_def ready_serves_def)
next
  case (11 th sc tid c sc' e)
  then show ?case using sent_serves [of th sc "cq_res c" sc' e] by (simp add: ready_serves_def)
next
  case (12 th sp tid c sp' e)
  have "serves th (Pt_splice_all sp')"
    using 12 own.spliced_rel [of th sp tid c sp' e] by (simp add: ready_serves_def moving_def files_ok_def)
  moreover have "pipe_ready sp' \<and> splice_rank sp' < splice_rank sp"
    using splice_lowers_moving [OF 12(3) _ 12(2)] 12(1) by (simp add: ready_serves_def)
  then have "pipe_ready sp' \<and> splice_rank sp' < body_rank (ft_size (th_file th))"
    using 12(1) by (auto simp: ready_serves_def)
  ultimately show ?case by (simp add: ready_serves_def)
qed (simp_all add: safe.idle)

section \<open>What a completion does to the other answers\<close>

definition same_for :: "nat \<Rightarrow> server \<Rightarrow> server \<Rightarrow> bool" where
  "same_for tid s s' \<longleftrightarrow> sv_threads s' tid = sv_threads s tid \<and> ops_for tid s' = ops_for tid s \<and> sv_next s \<le> sv_next s'"

lemma same_trans: "same_for tid s t \<Longrightarrow> same_for tid t u \<Longrightarrow> same_for tid s u"
  by (auto simp: same_for_def)

lemma same_install: "tid' \<noteq> tid \<Longrightarrow> same_for tid s (install tid' r s)"
  by (cases r) (simp add: same_for_def ops_for_def no_close_only split: option.split)

lemma same_submit: "\<forall>q. opn \<noteq> Op_pt tid q \<Longrightarrow> same_for tid s (submit opn s)"
  by (simp add: same_for_def submit_def ops_for_def)

lemma same_resume: "resume_thread E tid' s = Some s' \<Longrightarrow> tid' \<noteq> tid \<Longrightarrow> same_for tid s s'"
  using same_install by (auto simp: resume_thread_def fault_simps)

lemma same_start: "start_actions E fd acts s = Some s' \<Longrightarrow> tid < sv_next s \<Longrightarrow> same_for tid s s'"
proof (induction acts arbitrary: s)
  case (Cons act acts)
  let ?s = "s\<lparr>sv_next := Suc (sv_next s)\<rparr>"
  obtain r where r: "start_actions E fd acts (install (sv_next s) r ?s) = Some s'"
    using Cons.prems(1) by (auto simp: start_thread_def fault_simps)
  have "same_for tid s ?s" by (simp add: same_for_def ops_for_def)
  moreover have "same_for tid ?s (install (sv_next s) r ?s)" using Cons.prems(2) by (intro same_install) simp
  moreover have "same_for tid (install (sv_next s) r ?s) s'" using Cons.IH [OF r] Cons.prems(2) by simp
  ultimately show ?case by (blast intro: same_trans)
qed (simp add: same_for_def)

lemma same_completion:
  assumes "completion_table opn c s = Some s'" and "tid < sv_next s" and "\<forall>q. opn \<noteq> Op_pt tid q"
    and "\<And>tid' q. opn = Op_pt tid' q \<Longrightarrow> \<exists>th. sv_threads s tid' = Some th"
  shows "same_for tid s s'"
proof (cases opn)
  case Op_accept
  have "same_for tid s (handle_accept_submission (submit (Op_recv ctx) s))" for ctx
    unfolding handle_accept_submission_def by (rule same_trans; rule same_submit) simp_all
  with Op_accept assms(1) show ?thesis
    by (auto simp: completion_table_def handle_accept_completion_def fault_simps same_for_def split: if_splits)
next
  case (Op_recv ctx)
  with assms(1) have "recv_completion c ctx s = Some s'" by (simp add: completion_table_def)
  then show ?thesis
  proof (cases rule: recv_completion_cases)
    case (request req fd acts)
    with same_start assms(2) show ?thesis by blast
  qed (auto simp: same_submit same_for_def [of tid s s])
next
  case (Op_pt tid' q)
  then have ne: "tid' \<noteq> tid" using assms(3) by auto
  obtain th where th: "sv_threads s tid' = Some th" using assms(4) Op_pt by blast
  from assms(1) [unfolded Op_pt] th show ?thesis
  proof (cases rule: completion_pt_cases)
    case resumes
    have "same_for tid s (s\<lparr>sv_threads := (sv_threads s)(tid' \<mapsto> written q c th)\<rparr>)"
      using ne by (simp add: same_for_def ops_for_def)
    with same_resume [OF resumes(1) ne] show ?thesis by (rule same_trans [rotated])
  qed (use ne in \<open>auto intro: same_submit\<close>)
next
  case (Op_close_only fd)
  with assms(1) show ?thesis by (simp add: completion_table_def handle_close_completion_def same_for_def)
qed

section \<open>The countdown of an answer\<close>

text \<open>One completion; the completions such a kernel may choose, and those of an answer.\<close>

definition step :: "nat \<times> cqe \<Rightarrow> server \<Rightarrow> server option" where
  "step e s = (case e of (i, c) \<Rightarrow> process_cqe i c s)"

definition may_complete :: "(op \<Rightarrow> cqe \<Rightarrow> bool) \<Rightarrow> server \<Rightarrow> nat \<times> cqe \<Rightarrow> bool" where
  "may_complete krn s e \<longleftrightarrow> (case e of (i, c) \<Rightarrow> i < length (sv_ops s) \<and> krn (sv_ops s ! i) c)"

definition completes_for :: "nat \<Rightarrow> server \<Rightarrow> nat \<times> cqe \<Rightarrow> bool" where
  "completes_for tid s e \<longleftrightarrow> (case e of (i, c) \<Rightarrow> i < length (sv_ops s) \<and> (\<exists>q. sv_ops s ! i = Op_pt tid q))"

lemma run_of_step: "run_of step cs s = async_io_process cs s"
  by (induction cs arbitrary: s) (auto simp: step_def split: Option.bind_split)

definition pending :: "(bytes \<Rightarrow> u64) \<Rightarrow> nat \<Rightarrow> server \<Rightarrow> nat" where
  "pending size_of tid s =
     (case sv_threads s tid of
        None \<Rightarrow> 0
      | Some th \<Rightarrow> (case ops_for tid s of Op_pt t q # rest \<Rightarrow> thread_rank size_of th q | _ \<Rightarrow> 0))"

lemma answer_rank_pos: "0 < answer_rank head n q"
  by (simp add: answer_rank_def split: pt_op.split)

lemma pending_one: "sv_threads s tid = Some th \<Longrightarrow> ops_for tid s = [Op_pt tid q] \<Longrightarrow> pending size_of tid s = thread_rank size_of th q"
  by (simp add: pending_def)

lemma pending_same: "same_for tid s s' \<Longrightarrow> pending size_of tid s' = pending size_of tid s"
  unfolding pending_def same_for_def by (elim conjE) (simp only:)

text \<open>A completion of the answer itself: its protothread is resumed, or the rest is submitted.\<close>

lemma own_completion:
  assumes ok: "threads_ok None s" and i: "i < length (sv_ops s)" and o: "sv_ops s ! i = Op_pt tid q"
    and p: "process_cqe i c s = Some s'" and th: "sv_threads s tid = Some th"
  obtains
    (resumes) ca t p ev where "pt_resume (cq_env c) (written q c th) (sv_cache s) = Some (ca, t, p, ev)"
      and "sv_threads s' tid = t" and "ops_for tid s' = (case p of None \<Rightarrow> [] | Some p \<Rightarrow> [Op_pt tid p])"
      and "\<forall>sc. q = Pt_send sc \<longrightarrow> handle_send_completion (cq_res c) sc = Some (Inl ())"
      and "\<forall>sp. q = Pt_splice_all sp \<longrightarrow> handle_splice_all_completion (cq_res c) sp = None"
  | (sends) sc sc' e where "q = Pt_send sc" and "handle_send_completion (cq_res c) sc = Some (Inr (sc', e))"
      and "sv_threads s' tid = Some th" and "ops_for tid s' = [Op_pt tid (Pt_send sc')]"
  | (splices) sp sp' e where "q = Pt_splice_all sp" and "handle_splice_all_completion (cq_res c) sp = Some (sp', e)"
      and "sv_threads s' tid = Some th" and "ops_for tid s' = [Op_pt tid (Pt_splice_all sp')]"
proof -
  let ?s = "s\<lparr>sv_ops := remove_nth i (sv_ops s)\<rparr>"
  have one: "ops_for tid ?s = []"
    using ok th ops_for_removed(1) [OF i refl o] unfolding threads_ok_def thread_agrees_def by (auto dest!: spec [of _ tid])
  have t: "completion_table (Op_pt tid q) c ?s = Some s'" using p i o by (simp add: process_cqe_def)
  have th': "sv_threads ?s tid = Some th" using th by simp
  from t th' show thesis
  proof (cases rule: completion_pt_cases)
    case resumes: resumes
    then obtain r where r: "pt_resume (cq_env c) (written q c th) (sv_cache s) = Some r"
      "s' = install tid r (?s\<lparr>sv_threads := (sv_threads s)(tid \<mapsto> written q c th)\<rparr>)"
      by (auto simp: resume_thread_def fault_simps)
    obtain ca t' p' ev where rr: "r = (ca, t', p', ev)" by (cases r)
    have "ops_for tid s' = (case p' of None \<Rightarrow> [] | Some p \<Rightarrow> [Op_pt tid p])"
      using r(2) rr one by (simp add: ops_for_def no_close_only split: option.split)
    with that(1) r rr resumes(2,3) show thesis by simp
  next
    case sends: (sends sc sc' e)
    with that(2) one th show thesis by (simp add: submit_def ops_for_def)
  next
    case splices: (splices sp sp' e)
    with that(3) one th show thesis by (simp add: submit_def ops_for_def)
  qed
qed

lemma own_lowers:
  assumes inv: "live.inv rtr path_of size_of s" and ok: "threads_ok None s" and i: "i < length (sv_ops s)"
    and o: "sv_ops s ! i = Op_pt tid q" and k: "moving path_of size_of (sv_ops s ! i) c" and p: "process_cqe i c s = Some s'"
  shows "pending size_of tid s' < pending size_of tid s"
proof -
  obtain th where th: "sv_threads s tid = Some th" "ops_for tid s = [Op_pt tid q]" "thread_waits th q"
    using op_alone [OF ok] o i nth_mem by metis
  have rank: "pending size_of tid s = thread_rank size_of th q" using pending_one th(1,2) .
  have in_ops: "Op_pt tid q \<in> set (sv_ops s)" using o i nth_mem by metis
  have facts: "right_thread path_of size_of (served_paths rtr) th" "ready_serves th q" "safe_op (Op_pt tid q)"
    "right_cache path_of size_of (served_paths rtr) (sv_cache s)"
    using inv th(1) in_ops by (auto simp: live.inv_def)
  have k': "moving path_of size_of (Op_pt tid q) c" using k o by simp
  from ok i o p th(1) show ?thesis
  proof (cases rule: own_completion)
    case (resumes ca t p1 ev)
    have "TEST_PATH \<in> served_paths rtr" by (simp add: served_paths_def)
    from resume_goes_on [OF facts(1,4) this facts(2) th(3) k' resumes(1)]
    consider "t = None" | t' p' where "t = Some t'" "p1 = Some p'" "th_path t' = th_path th"
      "thread_rank size_of th p' < thread_rank size_of th q" by (auto simp: goes_on_def)
    then show ?thesis
    proof cases
      case 1
      then have "pending size_of tid s' = 0" using resumes(2) by (simp add: pending_def)
      then show ?thesis using answer_rank_pos rank by simp
    next
      case (2 t' p')
      then show ?thesis using resumes(2,3) pending_one [of s' tid t' p' size_of] rank by simp
    qed
  next
    case (sends sc sc' e)
    obtain str where str: "sds_rep (sc_buffer sc) str" using facts(3) sends(1) by (auto simp: safe_op_def)
    have "cq_res c \<noteq> 0" using k' sends(1) by (simp add: moving_def sends_something_def)
    from send_lowers [OF str sends(2) this] have "thread_rank size_of th (Pt_send sc') < thread_rank size_of th q"
      using sends(1) by (simp add: answer_rank_def)
    with pending_one [OF sends(3,4)] rank show ?thesis by simp
  next
    case (splices sp sp' e)
    have "splice_rank sp' < splice_rank sp"
      using splice_lowers_moving [OF splices(2) _ k' [unfolded splices(1)]] facts(2) splices(1) by (simp add: ready_serves_def)
    then have "thread_rank size_of th (Pt_splice_all sp') < thread_rank size_of th q"
      using splices(1) by (simp add: answer_rank_def)
    with pending_one [OF splices(3,4)] rank show ?thesis by simp
  qed
qed

text \<open>A completion of anything else.\<close>

lemma others_same:
  assumes ok: "threads_ok None s" and "tid < sv_next s" and p: "process_cqe i c s = Some s'"
    and other: "\<forall>q. sv_ops s ! i \<noteq> Op_pt tid q"
  shows "same_for tid s s'"
proof -
  let ?s = "s\<lparr>sv_ops := remove_nth i (sv_ops s)\<rparr>"
  have i: "i < length (sv_ops s)" and t: "completion_table (sv_ops s ! i) c ?s = Some s'"
    using p by (auto simp: process_cqe_def split: if_splits)
  have "same_for tid s ?s" using ops_for_removed(2) [OF i refl other] by (simp add: same_for_def)
  moreover have "\<exists>th. sv_threads ?s tid' = Some th" if "sv_ops s ! i = Op_pt tid' q" for tid' q
    using op_thread [OF ok, of tid' q] that i nth_mem by fastforce
  then have "same_for tid ?s s'" using same_completion [OF t] assms(2) other by simp
  ultimately show ?thesis by (rule same_trans)
qed

lemma next_grows: "process_cqe i c s = Some s' \<Longrightarrow> threads_ok None s \<Longrightarrow> tid < sv_next s \<Longrightarrow> tid < sv_next s'"
proof -
  assume p: "process_cqe i c s = Some s'" and ok: "threads_ok None s" and tid: "tid < sv_next s"
  show "tid < sv_next s'"
  proof (cases "\<exists>q. sv_ops s ! i = Op_pt tid q")
    case False
    with others_same [OF ok tid p] tid show ?thesis by (auto simp: same_for_def)
  next
    case True
    then obtain q where q: "sv_ops s ! i = Op_pt tid q" by blast
    have i: "i < length (sv_ops s)" using p by (simp add: process_cqe_def split: if_splits)
    obtain th where th: "sv_threads s tid = Some th" using op_thread [OF ok] q i nth_mem by metis
    have t: "completion_table (Op_pt tid q) c (s\<lparr>sv_ops := remove_nth i (sv_ops s)\<rparr>) = Some s'"
      using p q i by (simp add: process_cqe_def)
    have th': "sv_threads (s\<lparr>sv_ops := remove_nth i (sv_ops s)\<rparr>) tid = Some th" using th by simp
    from t th' have "sv_next s' = sv_next s"
    proof (cases rule: completion_pt_cases)
      case resumes
      then show ?thesis by (auto simp: resume_thread_def fault_simps)
    qed (simp_all add: submit_def)
    with tid show ?thesis by simp
  qed
qed

interpretation answer: countdown step "may_complete (moving path_of size_of)"
  "\<lambda>s. live.inv rtr path_of size_of s \<and> threads_ok None s \<and> tid < sv_next s" "completes_for tid" "pending size_of tid"
  for rtr path_of size_of tid
proof (unfold_locales, goal_cases)
  case (1 s e s')
  obtain i c where e: "e = (i, c)" by (cases e)
  with 1 have p: "process_cqe i c s = Some s'" and k: "i < length (sv_ops s)" "moving path_of size_of (sv_ops s ! i) c"
    by (auto simp: step_def may_complete_def)
  have "live.inv rtr path_of size_of s'" using live.inv_process [OF _ _ k p] 1(1) by blast
  with 1 next_grows [OF p] process_cqe_ok [OF _ p] show ?case by simp
next
  case (2 s e s')
  obtain i c where e: "e = (i, c)" by (cases e)
  with 2 have p: "process_cqe i c s = Some s'" and k: "i < length (sv_ops s)" "moving path_of size_of (sv_ops s ! i) c"
    by (auto simp: step_def may_complete_def)
  from 2(4) e obtain q where "sv_ops s ! i = Op_pt tid q" by (auto simp: completes_for_def)
  from own_lowers [OF _ _ k(1) this k(2) p] 2(1) show ?case by blast
next
  case (3 s e s')
  obtain i c where e: "e = (i, c)" by (cases e)
  with 3 have p: "process_cqe i c s = Some s'" and "i < length (sv_ops s)" by (auto simp: step_def may_complete_def)
  with 3(4) e have "\<forall>q. sv_ops s ! i \<noteq> Op_pt tid q" by (auto simp: completes_for_def)
  from pending_same [OF others_same [OF _ _ p this]] 3(1) show ?case by simp
qed

section \<open>Properties\<close>

text \<open>
  The completions an answer takes at most: three times the bytes of its file, as \<open>nbytes\<close> holds them,
  the bytes of its header, and the opening, the measuring, an empty transfer and the close.
\<close>

definition answer_bound :: "(bytes \<Rightarrow> u64) \<Rightarrow> bytes \<Rightarrow> nat" where
  "answer_bound size_of p = 3 * unat (ucast (size_of p) :: u32) + length (file_head (last (uri_segs p)) (size_of p)) + 6"

lemma pending_bound:
  assumes inv: "live.inv rtr path_of size_of s" and ok: "threads_ok None s" and th: "sv_threads s tid = Some th"
  shows "0 < pending size_of tid s \<and> pending size_of tid s \<le> answer_bound size_of (th_path th)"
proof -
  obtain q where q: "ops_for tid s = [Op_pt tid q]" "thread_waits th q"
    using ok th unfolding threads_ok_def by (auto dest!: spec [of _ tid])
  have "set (ops_for tid s) \<subseteq> set (sv_ops s)" by (auto simp: ops_for_def)
  then have "Op_pt tid q \<in> set (sv_ops s)" using q(1) by simp
  then have facts: "right_stage path_of size_of th" "ready_serves th q" using inv th by (auto simp: live.inv_def)
  have size: "ft_size (th_file th) = size_of (th_path th)" if "q = Pt_splice_all sp" for sp
    using facts(1) q(2) that by (simp add: thread_waits_def right_stage_def right_file_def)
  have head: "sdslen (sc_buffer sc) \<le> head_length size_of (th_path th)" if "q = Pt_send sc" for sc
    using facts q(2) that head_bound [of th sc] by (auto simp: thread_waits_def right_stage_def ready_serves_def)
  have "thread_rank size_of th q \<le> answer_bound size_of (th_path th)"
    using facts(2) size head
    by (cases q) (auto simp: answer_rank_def answer_bound_def body_rank_def head_length_def ready_serves_def)
  then show ?thesis using pending_one [OF th q(1)] answer_rank_pos by simp
qed

lemma live_reachable:
  assumes "router_setup (Some es) specs = Some rtr" and "\<forall>f\<in>set (files_under es ''/''). dotted f"
    and "async_io_file_cache = Some cache" and "reachable (moving path_of size_of) (server_run rtr cache) s"
  shows "live.inv rtr path_of size_of s" and "threads_ok None s"
proof -
  from fresh_right_cache [OF assms(1-3)] have "live.inv rtr path_of size_of (server_run rtr cache)" by (simp add: live.inv_def safe_op_def)
  moreover have "threads_ok None (server_run rtr cache)" by (rule reachable_threads_ok [OF reachable.here])
  ultimately show "live.inv rtr path_of size_of s" "threads_ok None s"
    using live.inv_reachable [OF assms(4)] by simp_all
qed

text \<open>
  C11. Every answer ends, under four assumptions on the kernel: it opens the files the server asks
  for; every send takes at least one byte; every splice into a pipe moves at least one byte, unless
  none is asked, and no more than asked; and every splice out of a pipe does too and leaves in it
  no more than is still to be read from the file, so that the last one must empty the pipe.  Any of
  these operations may fail instead, and the operations of the clients complete in any order.
  Then, from any moment of an answer on, its own operations complete at most a bounded number of
  times, of the order of the sizes of its file and of its header, and if they have completed that
  often, it is over.
\<close>

theorem answers_end:
  assumes "async_io_file_cache = Some cache" and "router_setup (Some es) main_routes = Some rtr"
    and "\<forall>f\<in>set (files_under es ''/''). dotted f"
    and "krn = (\<lambda>opn c. files_ok path_of size_of opn c \<and>
      sends_something opn c \<and> fills_something opn c \<and> drains_in_time opn c)"
    and "reachable krn (server_run rtr cache) s" and "sv_threads s tid = Some th"
    and "allowed_run step (may_complete krn) cs s" and "async_io_process cs s = Some s'"
  shows "owned_steps step (completes_for tid) cs s + (case sv_threads s' tid of None \<Rightarrow> 0 | Some th' \<Rightarrow> 1)
    \<le> answer_bound size_of (th_path th)"
proof -
  have krn: "krn = moving path_of size_of" unfolding assms(4) by (simp add: moving_def fun_eq_iff)
  note ok = live_reachable [OF assms(2,3,1) assms(5) [unfolded krn]]
  have "tid < sv_next s" using ok(2) assms(6) by (auto simp: threads_ok_def not_le [symmetric])
  then have count: "owned_steps step (completes_for tid) cs s + pending size_of tid s' \<le> pending size_of tid s"
    and ok': "live.inv rtr path_of size_of s'" "threads_ok None s'"
    using answer.counts_down [of rtr path_of size_of s tid cs s'] ok assms(7,8) unfolding krn by (simp_all add: run_of_step)
  have "(case sv_threads s' tid of None \<Rightarrow> 0 | Some th' \<Rightarrow> 1) \<le> pending size_of tid s'"
    using pending_bound [OF ok'] by (fastforce split: option.split)
  with count pending_bound [OF ok assms(6)] show ?thesis by simp
qed

theorem answers_end_witness:
  "\<exists>rtr ca s cs s' th krn. router_setup (Some example_dir) main_routes = Some rtr \<and>
     krn = (\<lambda>opn c. files_ok (\<lambda>_. INDEX_PATH) (\<lambda>_. 1000) opn c \<and>
       sends_something opn c \<and> fills_something opn c \<and> drains_in_time opn c) \<and>
     reachable krn (server_run rtr ca) s \<and> sv_threads s 0 = Some th \<and>
     async_io_process cs s = Some s' \<and> owned_steps step (completes_for 0) cs s = 2 \<and> sv_threads s' 0 \<noteq> None \<and>
     3 \<le> answer_bound (\<lambda>_. 1000) (th_path th)"
proof -
  define krn where "krn = (\<lambda>opn c. files_ok (\<lambda>_. INDEX_PATH) (\<lambda>_. 1000) opn c \<and>
    sends_something opn c \<and> fills_something opn c \<and> drains_in_time opn c)"
  note kernel = krn_def files_ok_def sends_something_def fills_something_def drains_in_time_def
  obtain rtr ca c1 c2 c3 sc where site: "async_io_file_cache = Some ca" "router_setup (Some example_dir) main_routes = Some rtr"
    "\<forall>f\<in>set (files_under example_dir ''/''). dotted f"
    and r: "\<forall>krn. (\<forall>opn c. kernel_ok opn c \<longrightarrow> (\<forall>tid q. opn \<noteq> Op_pt tid q) \<longrightarrow> krn opn c) \<longrightarrow>
      reachable krn (server_run rtr ca) (index_opens rtr c1)"
    and s1: "process_cqe 8 (result 6 example_env) (index_opens rtr c1) = Some (index_measures rtr c2)"
    and s2: "process_cqe 8 (measured 0 1000 example_env) (index_measures rtr c2) = Some (index_heads rtr c3 sc)"
    by (rule index_run)
  let ?cs = "[(8, result 6 example_env), (8, measured 0 1000 example_env)]" and ?s = "index_opens rtr c1"
  have s: "reachable krn (server_run rtr ca) ?s" using r by (simp add: kernel)
  have ops: "sv_ops ?s ! 8 = Op_pt 0 (Pt_openat INDEX_PATH)" "length (sv_ops ?s) = 9"
    "sv_ops (index_measures rtr c2) ! 8 = Op_pt 0 (Pt_statx 6)" "length (sv_ops (index_measures rtr c2)) = 9"
    by (simp_all add: index_opens_def index_measures_def busy_def nth_append)
  have run: "allowed_run step (may_complete krn) ?cs ?s" "async_io_process ?cs ?s = Some (index_heads rtr c3 sc)"
    "owned_steps step (completes_for 0) ?cs ?s = 2"
    using s1 s2 ops by (simp_all add: step_def may_complete_def completes_for_def kernel kernel_ok_def)
  obtain th where th: "sv_threads ?s 0 = Some th" by (simp add: index_opens_def busy_def)
  obtain th' where th': "sv_threads (index_heads rtr c3 sc) 0 = Some th'" by (simp add: index_heads_def busy_def)
  have "3 \<le> answer_bound (\<lambda>_. 1000) (th_path th)"
    using answers_end [OF site krn_def s th run(1,2)] run(3) th' by simp
  with site(2) s th run(2,3) th' krn_def show ?thesis by blast
qed

end
