(* ===== verification/Descriptors.thy ===== *)
theory Descriptors
  imports Isolation Forgotten Liveness "HOL-Library.Multiset"
begin

text \<open>
  The descriptors of the process.  Each answer makes a pipe that nobody closes; followed over a run,
  on a kernel that hands out fresh descriptors up to a limit, this bounds the files the server can
  send in its life.
\<close>

section \<open>Who is going to close a connection\<close>

text \<open>
  The connections that are still received from, and those of the answers: each belongs to one
  operation in flight.
\<close>

definition share :: "(nat \<rightharpoonup> thread) \<Rightarrow> op \<Rightarrow> int multiset" where
  "share ths opn =
     (case opn of
        Op_recv ctx \<Rightarrow> {#rc_client_fd ctx#}
      | Op_pt tid q \<Rightarrow> (case ths tid of
            Some th \<Rightarrow> if th_self th = Fn_send_file then {#th_client_fd th#} else {#}
          | None \<Rightarrow> {#})
      | _ \<Rightarrow> {#})"

definition held :: "server \<Rightarrow> int multiset" where
  "held s = (\<Sum>opn\<in>#mset (sv_ops s). share (sv_threads s) opn)"

lemma share_simps [simp]:
  "share ths Op_accept = {#}" "share ths (Op_close_only fd) = {#}" "share ths (Op_recv ctx) = {#rc_client_fd ctx#}"
  "ths tid = None \<Longrightarrow> share ths (Op_pt tid q) = {#}"
  "ths tid = Some th \<Longrightarrow> share ths (Op_pt tid q) = (if th_self th = Fn_send_file then {#th_client_fd th#} else {#})"
  by (simp_all add: share_def)

lemma held_submit [simp]: "held (submit q s) = held s + share (sv_threads s) q"
  by (simp add: held_def submit_def)

lemma held_next [simp]: "held (s\<lparr>sv_next := n\<rparr>) = held s"
  by (simp add: held_def)

lemma held_remove:
  assumes "i < length (sv_ops s)"
  shows "held s = held (s\<lparr>sv_ops := remove_nth i (sv_ops s)\<rparr>) + share (sv_threads s) (sv_ops s ! i)"
proof -
  have "mset (sv_ops s) = add_mset (sv_ops s ! i) (mset (remove_nth i (sv_ops s)))"
    using id_take_nth_drop [OF assms] by (metis mset_append mset.simps(2) remove_nth_def union_mset_add_mset_right)
  then show ?thesis by (simp add: held_def add.commute)
qed

lemma held_threads:
  assumes "waits_not tid s"
  shows "held (s\<lparr>sv_threads := (sv_threads s)(tid := th)\<rparr>) = held s"
proof -
  have "image_mset (share ((sv_threads s)(tid := th))) (mset (sv_ops s)) = image_mset (share (sv_threads s)) (mset (sv_ops s))"
    using assms by (intro image_mset_cong) (auto simp: share_def waits_not_def split: op.split)
  then show ?thesis by (simp add: held_def)
qed

lemma held_install:
  assumes "waits_not tid s"
  shows "held (install tid (cache, th, opn, ev) s) =
    held s + (case (th, opn) of (Some t, Some q) \<Rightarrow> if th_self t = Fn_send_file then {#th_client_fd t#} else {#} | _ \<Rightarrow> {#})"
proof -
  let ?s = "s\<lparr>sv_threads := (sv_threads s)(tid := th)\<rparr>" and ?ths = "(sv_threads s)(tid := th)"
  have "image_mset (share ?ths) (mset (map Op_close_only ev)) = image_mset (\<lambda>_. {#}) (mset ev)" for ev
    by (induction ev) simp_all
  then have "held (install tid (cache, th, opn, ev) s) = held ?s +
      (case opn of None \<Rightarrow> {#} | Some q \<Rightarrow> share ?ths (Op_pt tid q))"
    by (simp add: held_def split: option.split)
  with held_threads [OF assms, of th] show ?thesis by (simp split: option.split)
qed

text \<open>A protothread keeps its client.\<close>

definition result_client :: "callback_fn \<Rightarrow> int \<Rightarrow> pt_result \<Rightarrow> bool" where
  "result_client f fd r = (case r of (cache, th, opn, ev) \<Rightarrow> \<forall>t. th = Some t \<longrightarrow> th_self t = f \<and> th_client_fd t = fd)"

lemma start_open_client:
  "start_open E l1 l2 th cache = Some r \<Longrightarrow> result_client (th_self th) (th_client_fd th) r"
  using start_open_waits [of E l1 l2 th cache] by (cases r) (fastforce simp: result_client_def)

lemma send_head_client:
  "send_head E l th = Some (t, q) \<Longrightarrow> th_self t = th_self th \<and> th_client_fd t = th_client_fd th"
  using send_head_waits by blast

lemma run_callback_client:
  assumes "run_callback E th cache = Some r"
  shows "result_client (th_self th) (th_client_fd th) r"
proof (cases "th_self th")
  case Fn_send_file
  show ?thesis
  proof (cases "th_label th")
    case None
    with Fn_send_file assms start_open_client [of E 77 113 th cache r] show ?thesis
      by (simp add: run_callback_def route_callback_send_file_def)
  next
    case (Some l)
    with Fn_send_file assms show ?thesis
      by (auto simp: run_callback_def route_callback_send_file_def result_client_def fault_simps
          split: if_splits dest: send_head_client)
  qed
next
  case Fn_test
  with assms start_open_client [of E 51 85 "th\<lparr>th_path := ''assets/public/test.html'', th_file := pe_junk E\<rparr>" cache r]
  show ?thesis
    by (auto simp: run_callback_def route_callback_test_def result_client_def fault_simps split: if_splits dest: send_head_client)
qed (use assms in \<open>auto simp: run_callback_def route_callback_send_404_def result_client_def fault_simps split: if_splits\<close>)

lemma pt_resume_client:
  assumes "thread_waits th q" and "pt_resume E th cache = Some r"
  shows "result_client (th_self th) (th_client_fd th) r"
  using assms
proof (cases rule: pt_resume_cases)
  case (called th' cache' ev c t q' ev')
  have "th_self th' = th_self th \<and> th_client_fd th' = th_client_fd th"
    using called(1) by (elim disjE exE conjE) simp_all
  with run_callback_client [OF called(2)] have "result_client (th_self th) (th_client_fd th) (c, t, q', ev')" by simp
  then show ?thesis unfolding called(3) result_client_def prod.case .
qed (simp_all add: result_client_def)

lemma held_start:
  assumes "threads_ok None s" and "start_thread E th s = Some s'"
  shows "held s' \<subseteq># held s + (if th_self th = Fn_send_file then {#th_client_fd th#} else {#})"
proof -
  obtain ca t q ev where r: "run_callback E th (sv_cache s) = Some (ca, t, q, ev)"
    "s' = install (sv_next s) (ca, t, q, ev) (s\<lparr>sv_next := Suc (sv_next s)\<rparr>)"
    using assms(2) by (auto simp: start_thread_def fault_simps)
  have "ops_for (sv_next s) s = []" using assms(1) by (auto simp: threads_ok_def dest!: spec [of _ "sv_next s"])
  then have "waits_not (sv_next s) (s\<lparr>sv_next := Suc (sv_next s)\<rparr>)" using waits_not_ops [of "sv_next s" s] by (simp add: waits_not_def)
  note h = held_install [OF this, of ca t q ev]
  show ?thesis
  proof (cases "t = None \<or> q = None")
    case True
    with h show ?thesis by (auto simp: r(2) split: option.splits)
  next
    case False
    then obtain t' q' where "t = Some t'" "q = Some q'" by auto
    with h run_callback_client [OF r(1)] show ?thesis by (simp add: r(2) result_client_def)
  qed
qed

lemma held_handlers:
  "threads_ok None s \<Longrightarrow> start_actions E fd (map Run_handler hs) s = Some s' \<Longrightarrow> held s' \<subseteq># held s"
proof (induction hs arbitrary: s)
  case (Cons h hs)
  then obtain t where t: "start_thread E (action_thread fd (Run_handler h)) s = Some t"
    "start_actions E fd (map Run_handler hs) t = Some s'" by (auto simp: fault_simps)
  have "th_self (action_thread fd (Run_handler h)) \<noteq> Fn_send_file"
    by (simp add: action_thread_def handler_thread_def split: handler.split)
  with held_start [OF Cons.prems(1) t(1)] have "held t \<subseteq># held s" by simp
  with Cons.IH [OF start_thread_ok [OF Cons.prems(1) t(1)] t(2)] show ?case by simp
qed simp

lemma start_actions_append:
  "start_actions E fd (as @ bs) s = do { t \<leftarrow> start_actions E fd as s; start_actions E fd bs t }"
  by (induction as arbitrary: s) (auto split: Option.bind_split)

lemma held_request:
  assumes ok: "threads_ok None s" and r: "router_handle_request rtr req = Some acts"
    and st: "start_actions E fd acts s = Some s'"
  shows "held s' \<subseteq># add_mset fd (held s)"
proof -
  obtain sends hs where acts: "acts = map Send_file sends @ map Run_handler hs" "length sends \<le> 1"
    using router_starts_few [OF r] by metis
  obtain t where t: "start_actions E fd (map Send_file sends) s = Some t" "start_actions E fd (map Run_handler hs) t = Some s'"
    using st by (auto simp: acts(1) start_actions_append fault_simps)
  have "held t \<subseteq># add_mset fd (held s)"
  proof (cases sends)
    case (Cons p ps)
    then have "start_thread E (action_thread fd (Send_file p)) s = Some t" using acts(2) t(1) by (auto simp: fault_simps)
    from held_start [OF ok this] show ?thesis
      by (simp add: action_thread_def prep_route_callback_send_file_def)
  qed (use t(1) in simp)
  moreover have "held s' \<subseteq># held t" using held_handlers [OF start_actions_ok [OF t(1) ok] t(2)] .
  ultimately show ?thesis by (rule subset_mset.order_trans [rotated])
qed

text \<open>A completion leaves the connections as they are, takes one in, or lets one go.\<close>

lemma held_pt:
  assumes ok: "threads_ok None s" and i: "i < length (sv_ops s)" and o: "sv_ops s ! i = Op_pt tid q"
    and p: "process_cqe i c s = Some s'"
  shows "held s' \<subseteq># held s"
proof -
  let ?s = "s\<lparr>sv_ops := remove_nth i (sv_ops s)\<rparr>"
  obtain th where th: "sv_threads s tid = Some th" "thread_waits th q" "waits_not tid ?s"
    "completion_table (Op_pt tid q) c ?s = Some s'" using resumed_thread [OF ok i o p] .
  have split: "held s = held ?s + share (sv_threads s) (Op_pt tid q)" using held_remove [OF i] o by simp
  have th': "sv_threads ?s tid = Some th" using th(1) by simp
  from th(4) th' show ?thesis
  proof (cases rule: completion_pt_cases)
    case resumes
    from resumes(1) obtain ca t p ev where r: "pt_resume (cq_env c) (written q c th) (sv_cache ?s) = Some (ca, t, p, ev)"
      "s' = install tid (ca, t, p, ev) ?s" by (rule resume_installs)
    have "thread_waits (written q c th) q" using th(2) by simp
    note cl = pt_resume_client [OF this r(1)]
    note h = held_install [OF th(3), of ca t p ev]
    show ?thesis
    proof (cases "t = None \<or> p = None")
      case True
      with h split show ?thesis by (auto simp: r(2) split: option.splits)
    next
      case False
      then obtain t' p' where "t = Some t'" "p = Some p'" by auto
      with h cl split th(1) show ?thesis by (simp add: r(2) result_client_def)
    qed
  next
    case (sends sc sc' e)
    with split th(1) show ?thesis by simp
  next
    case (splices sp sp' e)
    with split th(1) show ?thesis by simp
  qed
qed

lemma held_close:
  assumes ok: "threads_ok None s" and i: "i < length (sv_ops s)" and o: "sv_ops s ! i = Op_pt tid (Pt_close fd)"
    and p: "process_cqe i c s = Some s'"
  shows "\<exists>th. sv_threads s tid = Some th \<and> held s = add_mset (th_client_fd th) (held s')"
proof -
  let ?s = "s\<lparr>sv_ops := remove_nth i (sv_ops s)\<rparr>"
  obtain th where th: "sv_threads s tid = Some th" "thread_waits th (Pt_close fd)" "waits_not tid ?s"
    "completion_table (Op_pt tid (Pt_close fd)) c ?s = Some s'" using resumed_thread [OF ok i o p] .
  have "pt_resume (cq_env c) th (sv_cache s) = Some (sv_cache s, None, None, [])"
    using th(2) by (auto simp: thread_waits_def pt_resume_def run_callback_def route_callback_send_file_def)
  then have "s' = install tid (sv_cache s, None, None, []) ?s"
    using th(1,4) by (auto simp: completion_table_def handle_close_completion_def resume_thread_def)
  then have "held s' = held ?s" using held_install [OF th(3)] by simp
  moreover have "th_self th = Fn_send_file" using th(2) by (simp add: thread_waits_def)
  ultimately show ?thesis using held_remove [OF i] o th(1) by simp
qed

lemma held_other:
  assumes ok: "threads_ok None s" and p: "process_cqe i c s = Some s'" and o: "\<forall>tid q. sv_ops s ! i \<noteq> Op_pt tid q"
  shows "held s' \<subseteq># held s + (if sv_ops s ! i = Op_accept \<and> 0 \<le> cq_res c then {#cq_res c#} else {#})"
proof -
  let ?s = "s\<lparr>sv_ops := remove_nth i (sv_ops s)\<rparr>"
  have i: "i < length (sv_ops s)" using p by (simp add: process_cqe_def split: if_splits)
  have ok': "threads_ok None ?s" using removed_ok [OF ok i o] .
  note split = held_remove [OF i]
  have t: "completion_table (sv_ops s ! i) c ?s = Some s'" using p i by (simp add: process_cqe_def)
  show ?thesis
  proof (cases "sv_ops s ! i")
    case Op_accept
    then have "held s = held ?s" using split by simp
    with t Op_accept show ?thesis
      by (auto simp: completion_table_def handle_accept_completion_def handle_accept_submission_def
          handle_recv_submission_def fault_simps split: if_splits)
  next
    case (Op_recv ctx)
    then have h: "held s = add_mset (rc_client_fd ctx) (held ?s)" using split by simp
    have "recv_completion c ctx ?s = Some s'" using t Op_recv by (simp add: completion_table_def)
    then show ?thesis
    proof (cases rule: recv_completion_cases)
      case gone
      with h Op_recv show ?thesis by simp
    next
      case (more ctx' q)
      with h Op_recv recv_client [OF more(1)] show ?thesis by simp
    next
      case (request req fd acts)
      with h Op_recv recv_client [OF request(1)] held_request [OF ok' request(2,3)] show ?thesis by simp
    qed
  next
    case (Op_close_only fd)
    with t split show ?thesis by (simp add: completion_table_def handle_close_completion_def)
  qed (use o in blast)
qed

section \<open>The pipes of the transfers\<close>

lemma run_callback_splice:
  assumes "run_callback E th cache = Some (ca, t, Some (Pt_splice_all sp), ev)"
  shows "th_label th = Some 113 \<and> sp_pipe sp = pipes_of E"
proof (cases "th_self th")
  case Fn_send_file
  then show ?thesis
  proof (cases "th_label th")
    case None
    with Fn_send_file assms show ?thesis
      by (auto simp: run_callback_def route_callback_send_file_def dest: start_open_waits)
  next
    case (Some l)
    with Fn_send_file assms show ?thesis
      by (auto simp: run_callback_def route_callback_send_file_def async_io_sendfile_def sendfile_context_def pipes_of_def
          fault_simps split: if_splits dest: send_head_waits)
  qed
next
  case Fn_test
  with assms show ?thesis
    by (auto simp: run_callback_def route_callback_test_def fault_simps split: if_splits dest: start_open_waits send_head_waits)
qed (use assms in \<open>auto simp: run_callback_def route_callback_send_404_def async_io_send_buffer_def fault_simps split: if_splits\<close>)

lemma pt_resume_splice:
  assumes "thread_waits th q" and "pt_resume E th cache = Some (ca, t, Some (Pt_splice_all sp), ev)"
  shows "(\<exists>sc. q = Pt_send sc) \<and> sp_pipe sp = pipes_of E"
  using assms
proof (cases rule: pt_resume_cases)
  case (called th' cache' ev1 c t1 q' ev2)
  have "th_label th' = th_label th" using called(1) by (elim disjE exE conjE) simp_all
  with called(2,3) run_callback_splice [of E th' cache' c t1 sp ev2] have "th_label th = Some 113" "sp_pipe sp = pipes_of E" by auto
  with assms(1) show ?thesis by (cases q) (auto simp: thread_waits_def)
qed simp_all

definition transfers :: "server \<Rightarrow> (nat \<times> int \<times> int) set" where
  "transfers s = {(t, sp_pipe sp) |t sp. Op_pt t (Pt_splice_all sp) \<in> set (sv_ops s)}"

lemma transfers_simps [simp]:
  "transfers (submit q s) = transfers s \<union> {(t, sp_pipe sp) |t sp. q = Op_pt t (Pt_splice_all sp)}"
  "transfers (install tid (ca, th, opn, ev) s) = transfers s \<union> {(tid, sp_pipe sp) |sp. opn = Some (Pt_splice_all sp)}"
  "transfers (s\<lparr>sv_next := n\<rparr>) = transfers s"
  by (auto simp: transfers_def submit_def split: option.splits)

lemma transfers_actions: "start_actions E fd acts s = Some s' \<Longrightarrow> transfers s' = transfers s"
proof (induction acts arbitrary: s)
  case (Cons a acts)
  then obtain r where r: "run_callback E (action_thread fd a) (sv_cache s) = Some r"
    "start_actions E fd acts (install (sv_next s) r (s\<lparr>sv_next := Suc (sv_next s)\<rparr>)) = Some s'"
    by (auto simp: start_thread_def fault_simps)
  obtain ca t q ev where r': "r = (ca, t, q, ev)" by (cases r)
  have "th_label (action_thread fd a) = None"
    by (simp add: action_thread_def prep_route_callback_send_file_def handler_thread_def split: action.split)
  then have "q \<noteq> Some (Pt_splice_all sp)" for sp using run_callback_splice [of E "action_thread fd a" "sv_cache s" ca t sp ev] r(1) r' by auto
  with Cons.IH [OF r(2)] show ?case by (simp add: r')
qed simp

lemma transfers_process:
  assumes ok: "threads_ok None s" and p: "process_cqe i c s = Some s'" and tr: "(t, pp) \<in> transfers s'"
  shows "(t, pp) \<in> transfers s \<or> (\<exists>sc. sv_ops s ! i = Op_pt t (Pt_send sc)) \<and> pp = pipes_of (cq_env c)"
proof -
  let ?s = "s\<lparr>sv_ops := remove_nth i (sv_ops s)\<rparr>"
  have i: "i < length (sv_ops s)" using p by (simp add: process_cqe_def split: if_splits)
  have sub: "transfers ?s \<subseteq> transfers s"
    by (auto simp: transfers_def remove_nth_def dest: in_set_takeD in_set_dropD)
  show ?thesis
  proof (cases "\<exists>tid q. sv_ops s ! i = Op_pt tid q")
    case True
    then obtain tid q where o: "sv_ops s ! i = Op_pt tid q" by blast
    obtain th where th: "sv_threads s tid = Some th" "thread_waits th q" "waits_not tid ?s"
      "completion_table (Op_pt tid q) c ?s = Some s'" using resumed_thread [OF ok i o p] .
    have th': "sv_threads ?s tid = Some th" using th(1) by simp
    from th(4) th' show ?thesis
    proof (cases rule: completion_pt_cases)
      case resumes
      from resumes(1) obtain ca t1 p1 ev where r: "pt_resume (cq_env c) (written q c th) (sv_cache ?s) = Some (ca, t1, p1, ev)"
        "s' = install tid (ca, t1, p1, ev) ?s" by (rule resume_installs)
      have w: "thread_waits (written q c th) q" using th(2) by simp
      from tr consider "(t, pp) \<in> transfers ?s" | sp where "t = tid" "pp = sp_pipe sp" "p1 = Some (Pt_splice_all sp)"
        by (auto simp: r(2))
      then show ?thesis
      proof cases
        case (2 sp)
        with pt_resume_splice [OF w, of "cq_env c" "sv_cache ?s" ca t1 sp ev] r(1) o show ?thesis by auto
      qed (use sub in blast)
    next
      case (splices sp sp' e)
      have "sp_pipe sp' = sp_pipe sp" using splices(2) by (auto simp: handle_splice_all_completion_def Let_def split: if_splits)
      moreover have "(tid, sp_pipe sp) \<in> transfers s" using nth_mem [OF i] o splices(1) by (auto simp: transfers_def)
      ultimately show ?thesis using tr sub splices(3) by auto
    qed (use tr sub in auto)
  next
    case False
    have t: "completion_table (sv_ops s ! i) c ?s = Some s'" using p i by (simp add: process_cqe_def)
    have "(t, pp) \<in> transfers ?s"
    proof (cases "sv_ops s ! i")
      case Op_accept
      with t tr show ?thesis
        by (auto simp: completion_table_def handle_accept_completion_def handle_accept_submission_def fault_simps split: if_splits)
    next
      case (Op_recv ctx)
      have "recv_completion c ctx ?s = Some s'" using t Op_recv by (simp add: completion_table_def)
      then show ?thesis using tr by (cases rule: recv_completion_cases) (auto dest: transfers_actions)
    qed (use False t tr in \<open>auto simp: completion_table_def handle_close_completion_def\<close>)
    with sub show ?thesis by blast
  qed
qed

section \<open>Descriptors beside the server\<close>

text \<open>The open descriptors of the process, and the pipes its answers have made, in order.\<close>

record descriptors =
  ds_server :: server
  ds_open :: "int set"
  ds_pipes :: "(int \<times> int) list"

definition ends :: "(int \<times> int) list \<Rightarrow> int list" where
  "ends ps = concat (map (\<lambda>(a, b). [a, b]) ps)"

definition opens :: "op \<Rightarrow> cqe \<Rightarrow> int list" where
  "opens opn c =
     (case opn of
        Op_accept \<Rightarrow> if cq_res c < 0 then [] else [cq_res c]
      | Op_pt tid (Pt_openat p) \<Rightarrow> if cq_res c < 0 then [] else [cq_res c]
      | _ \<Rightarrow> [])"

definition closes :: "op \<Rightarrow> cqe \<Rightarrow> int set" where
  "closes opn c =
     (case opn of
        Op_pt tid (Pt_close fd) \<Rightarrow> if cq_res c < 0 then {} else {fd}
      | Op_close_only fd \<Rightarrow> if cq_res c < 0 then {} else {fd}
      | _ \<Rightarrow> {})"

text \<open>The end of the header starts the transfer, for which \<open>async_io_sendfile\<close> calls \<open>pipe2\<close>.\<close>

definition makes_pipe :: "op \<Rightarrow> cqe \<Rightarrow> server \<Rightarrow> (int \<times> int) list" where
  "makes_pipe opn c s' =
     (case opn of
        Op_pt tid (Pt_send sc) \<Rightarrow>
          if list_ex (\<lambda>q. case q of Op_pt t (Pt_splice_all sp) \<Rightarrow> t = tid | _ \<Rightarrow> False) (sv_ops s')
          then (case pe_pipe (cq_env c) of None \<Rightarrow> [] | Some p \<Rightarrow> [p]) else []
      | _ \<Rightarrow> [])"

definition descriptor_step :: "nat \<times> cqe \<Rightarrow> descriptors \<Rightarrow> descriptors option" where
  "descriptor_step e d =
     (case e of (i, c) \<Rightarrow> do {
        let opn = sv_ops (ds_server d) ! i;
        s \<leftarrow> process_cqe i c (ds_server d);
        Some \<lparr>ds_server = s,
          ds_open = ds_open d \<union> set (opens opn c) \<union> set (ends (makes_pipe opn c s)) - closes opn c,
          ds_pipes = ds_pipes d @ makes_pipe opn c s\<rparr>
      })"

text \<open>A kernel that hands out descriptors that are not open, at most \<open>limit\<close> at a time.\<close>

definition grants :: "nat \<Rightarrow> descriptors \<Rightarrow> nat \<times> cqe \<Rightarrow> bool" where
  "grants limit d e \<longleftrightarrow>
     (case e of (i, c) \<Rightarrow> i < length (sv_ops (ds_server d)) \<and> kernel_ok (sv_ops (ds_server d) ! i) c \<and>
        (\<forall>s. process_cqe i c (ds_server d) = Some s \<longrightarrow>
          (let new = opens (sv_ops (ds_server d) ! i) c @ ends (makes_pipe (sv_ops (ds_server d) ! i) c s)
           in distinct new \<and> set new \<inter> ds_open d = {} \<and> card (ds_open d) + length new \<le> limit)))"

section \<open>The discipline of the descriptors\<close>

lemma ends_simps [simp]: "ends [] = []" "ends ((a, b) # ps) = a # b # ends ps" "ends (ps @ qs) = ends ps @ ends qs"
  "length (ends ps) = 2 * length ps"
  by (simp_all add: ends_def) (induction ps, auto)

text \<open>
  The descriptors that were open at the start, the connections and the ends of the pipes are
  different from each other; and each transfer goes through a pipe that was made for an answer.
\<close>

definition descriptors_apart :: "int set \<Rightarrow> int multiset \<Rightarrow> int set \<Rightarrow> (int \<times> int) list \<Rightarrow> bool" where
  "descriptors_apart base conns fds pipes \<longleftrightarrow>
     finite fds \<and> base \<subseteq> fds \<and> distinct (ends pipes) \<and> set (ends pipes) \<subseteq> fds \<and> base \<inter> set (ends pipes) = {} \<and>
     (\<forall>fd. count conns fd \<le> 1) \<and> set_mset conns \<subseteq> fds - base - set (ends pipes)"

lemma apart_more:
  assumes "descriptors_apart base conns fds pipes" and "distinct (new @ ends ps)" and "set (new @ ends ps) \<inter> fds = {}"
    and "conns' \<subseteq># conns + mset new"
  shows "descriptors_apart base conns' (fds \<union> set new \<union> set (ends ps)) (pipes @ ps)"
proof -
  have "count conns' fd \<le> 1" for fd
  proof -
    have "count conns' fd \<le> count conns fd + count (mset new) fd" using mset_subset_eq_count [OF assms(4), of fd] by simp
    moreover have "count conns fd = 0 \<or> count (mset new) fd = 0"
      using assms(1,3) by (auto simp: descriptors_apart_def count_eq_zero_iff)
    moreover have "count conns fd \<le> 1" using assms(1) by (simp add: descriptors_apart_def)
    moreover have "distinct new" using assms(2) by simp
    then have "count (mset new) fd \<le> 1" using distinct_count_atmost_1 [of new] by simp
    ultimately show ?thesis by linarith
  qed
  moreover have sub: "set_mset conns' \<subseteq> set_mset conns \<union> set new" using set_mset_mono [OF assms(4)] by simp
  moreover have old: "base \<subseteq> fds" "set (ends pipes) \<subseteq> fds" "set_mset conns \<subseteq> fds - base - set (ends pipes)"
    using assms(1) by (simp_all add: descriptors_apart_def)
  moreover have new: "set new \<inter> fds = {}" "set (ends ps) \<inter> fds = {}" "set new \<inter> set (ends ps) = {}" "distinct (ends ps)"
    using assms(2,3) by auto
  ultimately have "set_mset conns' \<subseteq> (fds \<union> set new \<union> set (ends ps)) - base - set (ends (pipes @ ps))"
    unfolding ends_simps set_append by blast
  moreover have "set (ends pipes) \<inter> set (ends ps) = {}" "base \<inter> set (ends ps) = {}" using old new by blast+
  ultimately show ?thesis using assms(1) new(4) \<open>\<And>fd. count conns' fd \<le> 1\<close> by (auto simp: descriptors_apart_def)
qed

lemma apart_close:
  assumes "descriptors_apart base (add_mset fd conns) fds pipes"
  shows "descriptors_apart base conns (fds - {fd}) pipes"
proof -
  have "count conns fd = 0" "count conns x \<le> 1" for x
    using assms unfolding descriptors_apart_def by (auto dest!: spec [of _ fd], metis count_add_mset le_SucI nat_le_linear One_nat_def)
  then show ?thesis using assms by (auto simp: descriptors_apart_def count_eq_zero_iff)
qed

definition descriptors_inv :: "handler router_t \<Rightarrow> nat \<Rightarrow> int set \<Rightarrow> descriptors \<Rightarrow> bool" where
  "descriptors_inv rtr limit base d \<longleftrightarrow>
     own.inv rtr (ds_server d) \<and> threads_ok None (ds_server d) \<and> no_eviction (ds_server d) \<and>
     descriptors_apart base (held (ds_server d)) (ds_open d) (ds_pipes d) \<and>
     snd ` transfers (ds_server d) \<subseteq> insert (0, 0) (set (ds_pipes d)) \<and> card (ds_open d) \<le> limit"

lemma transfers_recorded:
  assumes ok: "threads_ok None s" and p: "process_cqe i c s = Some s'"
    and old: "snd ` transfers s \<subseteq> insert (0, 0) (set pipes)"
  shows "snd ` transfers s' \<subseteq> insert (0, 0) (set (pipes @ makes_pipe (sv_ops s ! i) c s'))" (is "_ \<subseteq> insert _ (set (_ @ ?ps))")
proof (rule subsetI, rule ccontr)
  fix pp assume "pp \<in> snd ` transfers s'" and no: "pp \<notin> insert (0, 0) (set (pipes @ ?ps))"
  then obtain t where tr: "(t, pp) \<in> transfers s'" by auto
  have "(t, pp) \<notin> transfers s" using old no by (force simp: image_subset_iff)
  then obtain sc where sc: "sv_ops s ! i = Op_pt t (Pt_send sc)" "pp = pipes_of (cq_env c)"
    using transfers_process [OF ok p tr] by blast
  have "list_ex (\<lambda>q. case q of Op_pt t' (Pt_splice_all sp) \<Rightarrow> t' = t | _ \<Rightarrow> False) (sv_ops s')"
    using tr by (force simp: transfers_def list_ex_iff)
  then have "?ps = (case pe_pipe (cq_env c) of None \<Rightarrow> [] | Some p \<Rightarrow> [p])" using sc(1) by (simp add: makes_pipe_def)
  with sc(2) no show False by (auto simp: pipes_of_def split: option.splits)
qed

text \<open>What a completion does to the connections: it may add what it opens, or drop what it closes.\<close>

lemma held_opens:
  assumes ok: "threads_ok None s" and i: "i < length (sv_ops s)" and p: "process_cqe i c s = Some s'"
  shows "held s' \<subseteq># held s + mset (opens (sv_ops s ! i) c)"
proof (cases "\<exists>tid q. sv_ops s ! i = Op_pt tid q")
  case True
  then obtain tid q where "sv_ops s ! i = Op_pt tid q" by blast
  from held_pt [OF ok i this p] show ?thesis by (rule subset_mset.order_trans) simp
next
  case False
  then have other: "\<forall>tid q. sv_ops s ! i \<noteq> Op_pt tid q" by blast
  have "(if sv_ops s ! i = Op_accept \<and> 0 \<le> cq_res c then {#cq_res c#} else {#}) \<subseteq># mset (opens (sv_ops s ! i) c)"
    by (simp add: opens_def)
  with held_other [OF ok p other] show ?thesis
    by (meson subset_mset.add_left_mono subset_mset.order_trans)
qed

lemma held_apart:
  assumes own: "own.inv rtr s" and ok: "threads_ok None s" and none: "no_eviction s"
    and apart: "descriptors_apart base (held s) fds pipes"
    and i: "i < length (sv_ops s)" and p: "process_cqe i c s = Some s'"
    and fresh: "distinct (opens (sv_ops s ! i) c @ ends (makes_pipe (sv_ops s ! i) c s'))"
      "set (opens (sv_ops s ! i) c @ ends (makes_pipe (sv_ops s ! i) c s')) \<inter> fds = {}"
  shows "descriptors_apart base (held s')
    (fds \<union> set (opens (sv_ops s ! i) c) \<union> set (ends (makes_pipe (sv_ops s ! i) c s')) - closes (sv_ops s ! i) c)
    (pipes @ makes_pipe (sv_ops s ! i) c s')"
proof (cases "\<exists>tid fd. sv_ops s ! i = Op_pt tid (Pt_close fd)")
  case True
  then obtain tid fd where o: "sv_ops s ! i = Op_pt tid (Pt_close fd)" by blast
  obtain th where th: "sv_threads s tid = Some th" "held s = add_mset (th_client_fd th) (held s')"
    using held_close [OF ok i o p] by blast
  have "serves th (Pt_close fd)" using own th(1) nth_mem [OF i] o by (auto simp: own.inv_def)
  then have "held s = add_mset fd (held s')" using th(2) by (simp add: serves_def)
  then have "descriptors_apart base (held s') (fds - {fd}) pipes" using apart_close apart by simp
  moreover have "descriptors_apart base (held s') fds pipes" using apart_more [OF apart, of "[]" "[]" "held s'"] th(2) by simp
  ultimately show ?thesis using o by (simp add: opens_def makes_pipe_def closes_def)
next
  case False
  have "closes (sv_ops s ! i) c = {}"
    using False none nth_mem [OF i] by (auto simp: closes_def no_eviction_def split: op.split pt_op.split)
  with apart_more [OF apart fresh held_opens [OF ok i p]] show ?thesis by simp
qed

lemma card_grows: "finite A \<Longrightarrow> card (A \<union> set xs \<union> set ys - B) \<le> card A + length (xs @ ys)"
proof -
  assume fin: "finite A"
  then have "card (A \<union> set xs \<union> set ys - B) \<le> card (A \<union> set (xs @ ys))" by (intro card_mono) auto
  also have "\<dots> \<le> card A + length (xs @ ys)" using card_Un_le [of A "set (xs @ ys)"] card_length [of "xs @ ys"] by linarith
  finally show ?thesis .
qed

lemma descriptors_keep:
  assumes inv: "descriptors_inv rtr limit base d" and g: "grants limit d e" and st: "descriptor_step e d = Some d'"
  shows "descriptors_inv rtr limit base d'"
proof -
  obtain i c where e: "e = (i, c)" by (cases e)
  let ?s = "ds_server d" and ?s' = "ds_server d'"
  let ?new = "opens (sv_ops ?s ! i) c" and ?ps = "makes_pipe (sv_ops ?s ! i) c ?s'"
  have p: "process_cqe i c ?s = Some ?s'" and pipes': "ds_pipes d' = ds_pipes d @ ?ps"
    and op': "ds_open d' = ds_open d \<union> set ?new \<union> set (ends ?ps) - closes (sv_ops ?s ! i) c"
    using st by (auto simp: e descriptor_step_def fault_simps Let_def)
  have i: "i < length (sv_ops ?s)" and k: "kernel_ok (sv_ops ?s ! i) c" and fresh: "distinct (?new @ ends ?ps)"
    "set (?new @ ends ?ps) \<inter> ds_open d = {}" "card (ds_open d) + length (?new @ ends ?ps) \<le> limit"
    using g p by (auto simp: e grants_def Let_def)
  have inv': "own.inv rtr ?s" "threads_ok None ?s" "no_eviction ?s" "descriptors_apart base (held ?s) (ds_open d) (ds_pipes d)"
    "snd ` transfers ?s \<subseteq> insert (0, 0) (set (ds_pipes d))" using inv by (simp_all add: descriptors_inv_def)
  have safe: "safe.inv rtr ?s" using inv'(1) by (auto simp: own.inv_def safe.inv_def)
  have "own.inv rtr ?s'" "threads_ok None ?s'" "no_eviction ?s'"
    using own.inv_process [OF inv'(1,2) i k p] process_cqe_ok [OF inv'(2) p] no_eviction_process [OF safe inv'(2) p inv'(3)] by simp_all
  moreover have "descriptors_apart base (held ?s') (ds_open d') (ds_pipes d')"
    using held_apart [OF inv'(1-4) i p fresh(1,2)] by (simp only: op' pipes')
  moreover have "snd ` transfers ?s' \<subseteq> insert (0, 0) (set (ds_pipes d'))"
    unfolding pipes' by (rule transfers_recorded [OF inv'(2) p inv'(5)])
  moreover have "finite (ds_open d)" using inv'(4) by (simp add: descriptors_apart_def)
  then have "card (ds_open d') \<le> limit" unfolding op' using order_trans [OF card_grows fresh(3)] by blast
  ultimately show ?thesis by (simp add: descriptors_inv_def)
qed

interpretation descriptors: guarded_run descriptor_step "grants limit" "descriptors_inv rtr limit base" for rtr limit base
  by unfold_locales (rule descriptors_keep)

section \<open>Properties\<close>

text \<open>
  C10. The pipes are never closed.  Over any run of the server of \<open>main\<close>, on a kernel that hands out
  descriptors that are not open and at most \<open>limit\<close> of them at a time, the descriptors open at the
  start and both ends of every pipe made for an answer are still open, and different: their number
  never exceeds the limit, however long the server runs.  So with the usual limit of 1024
  descriptors fewer than 512 files are ever sent through a pipe; every other transfer in flight has
  the zeroed descriptors of a \<open>pipe2\<close> that failed.
\<close>

theorem pipes_are_never_closed:
  assumes "main_program (Some es) = Some s0" and "\<forall>f\<in>set (files_under es ''/''). dotted f"
    and "finite base" and "card base \<le> limit"
    and "allowed_run descriptor_step (grants limit) cs \<lparr>ds_server = s0, ds_open = base, ds_pipes = []\<rparr>"
    and "run_of descriptor_step cs \<lparr>ds_server = s0, ds_open = base, ds_pipes = []\<rparr> = Some d"
  shows "card base + 2 * length (ds_pipes d) \<le> limit \<and>
    base \<union> set (ends (ds_pipes d)) \<subseteq> ds_open d \<and>
    (\<forall>tid sp. Op_pt tid (Pt_splice_all sp) \<in> set (sv_ops (ds_server d)) \<longrightarrow> sp_pipe sp \<in> insert (0, 0) (set (ds_pipes d)))"
proof -
  from assms(1) obtain cache rtr where made: "async_io_file_cache = Some cache" "router_setup (Some es) main_routes = Some rtr"
    "s0 = server_run rtr cache" by (rule main_programE)
  note own = own_reachable [OF made(2) assms(2) made(1) reachable.here]
  have "held s0 = {#}" by (simp add: held_def made(3) eval_nat_numeral)
  then have "descriptors_inv rtr limit base \<lparr>ds_server = s0, ds_open = base, ds_pipes = []\<rparr>"
    using own assms(3,4) by (simp add: descriptors_inv_def descriptors_apart_def made(3) no_eviction_def transfers_def)
  from descriptors.run_keeps [OF this assms(5,6)]
  have d: "descriptors_apart base (held (ds_server d)) (ds_open d) (ds_pipes d)" "card (ds_open d) \<le> limit"
    "snd ` transfers (ds_server d) \<subseteq> insert (0, 0) (set (ds_pipes d))" by (simp_all add: descriptors_inv_def)
  have "card base + 2 * length (ds_pipes d) = card (base \<union> set (ends (ds_pipes d)))"
    using d(1) assms(3) by (simp add: descriptors_apart_def card_Un_disjoint distinct_card)
  also have "\<dots> \<le> card (ds_open d)" using d(1) by (intro card_mono) (simp_all add: descriptors_apart_def)
  finally have "card base + 2 * length (ds_pipes d) \<le> limit" using d(2) by simp
  moreover have "base \<union> set (ends (ds_pipes d)) \<subseteq> ds_open d" using d(1) by (simp add: descriptors_apart_def)
  moreover have "sp_pipe sp \<in> insert (0, 0) (set (ds_pipes d))"
    if "Op_pt tid (Pt_splice_all sp) \<in> set (sv_ops (ds_server d))" for tid sp
  proof -
    have "(tid, sp_pipe sp) \<in> transfers (ds_server d)" using that by (auto simp: transfers_def)
    then have "snd (tid, sp_pipe sp) \<in> insert (0, 0) (set (ds_pipes d))" using d(3) by blast
    then show ?thesis by simp
  qed
  ultimately show ?thesis by blast
qed

theorem pipes_are_never_closed_witness:
  "\<exists>s0 cs d. main_program (Some example_dir) = Some s0 \<and>
     run_of descriptor_step cs \<lparr>ds_server = s0, ds_open = {0, 1, 2, 3}, ds_pipes = []\<rparr> = Some d \<and>
     ds_pipes d = [(8, 9)] \<and> {0, 1, 2, 3, 8, 9} \<subseteq> ds_open d \<and> 4 + 2 * length (ds_pipes d) \<le> 16"
proof -
  let ?h = "file_head ''index.html'' 1000"
  obtain rtr ca ctx c1 c2 c3 sc where site: "async_io_file_cache = Some ca" "router_setup (Some example_dir) main_routes = Some rtr"
    "\<forall>f\<in>set (files_under example_dir ''/''). dotted f"
    and s1: "process_cqe 0 (result 5 example_env) (server_run rtr ca) =
      Some ((server_run rtr ca)\<lparr>sv_ops := replicate 7 Op_accept @ [Op_recv ctx, Op_accept]\<rparr>)"
    and s2: "process_cqe 7 (received index_request example_env)
      ((server_run rtr ca)\<lparr>sv_ops := replicate 7 Op_accept @ [Op_recv ctx, Op_accept]\<rparr>) = Some (index_opens rtr c1)"
    and room: "length index_request \<le> sdsavail (rc_buffer ctx)"
    and s3: "process_cqe 8 (result 6 example_env) (index_opens rtr c1) = Some (index_measures rtr c2)"
    and s4: "process_cqe 8 (measured 0 1000 example_env) (index_measures rtr c2) = Some (index_heads rtr c3 sc)"
    and sc: "sds_rep (sc_buffer sc) ?h" by (rule index_steps)
  let ?fl = "index_file\<lparr>ft_fd := 6, ft_size := 1000\<rparr>"
    and ?s1 = "(server_run rtr ca)\<lparr>sv_ops := replicate 7 Op_accept @ [Op_recv ctx, Op_accept]\<rparr>"
  let ?s5 = "busy rtr c3 0 (file_thread Fn_send_file 5 INDEX_PATH ?fl 123 ?h (Sendfile_pt (Some 427)))
      (Pt_splice_all (sendfile_context 6 5 (of_nat 1000) (8, 9)))"
  have "?h \<noteq> []" by (simp add: file_head_def)
  from header_taken [OF sc this, of example_env rtr c3 0 5 INDEX_PATH ?fl ?h ?h]
  have s5: "process_cqe 8 (result (int (length ?h)) example_env) (index_heads rtr c3 sc) = Some ?s5"
    by (simp add: index_heads_def pipes_of_def)
  have main: "main_program (Some example_dir) = Some (server_run rtr ca)" by (simp add: main_program_parts site(1,2))
  have ops: "sv_ops (server_run rtr ca) ! 0 = Op_accept" "0 < length (sv_ops (server_run rtr ca))"
    "(replicate 7 Op_accept @ [Op_recv ctx, Op_accept]) ! 7 = Op_recv ctx"
    "sv_ops (index_opens rtr c1) ! 8 = Op_pt 0 (Pt_openat INDEX_PATH)" "length (sv_ops (index_opens rtr c1)) = 9"
    "sv_ops (index_measures rtr c2) ! 8 = Op_pt 0 (Pt_statx 6)" "length (sv_ops (index_measures rtr c2)) = 9"
    "sv_ops (index_heads rtr c3 sc) ! 8 = Op_pt 0 (Pt_send sc)" "length (sv_ops (index_heads rtr c3 sc)) = 9"
    by (simp_all add: index_opens_def index_measures_def index_heads_def busy_def nth_append server_run_idle idle_def)
  have pipe: "makes_pipe (Op_pt 0 (Pt_send sc)) (result (int (length ?h)) example_env) ?s5 = [(8, 9)]"
    by (simp add: makes_pipe_def busy_def)
  have none: "makes_pipe Op_accept c s = []" "makes_pipe (Op_recv ctx) c s = []" "makes_pipe (Op_pt 0 (Pt_openat p)) c s = []"
    "makes_pipe (Op_pt 0 (Pt_statx fd)) c s = []" for c s p fd by (simp_all add: makes_pipe_def)
  let ?cs = "[(0, result 5 example_env), (7, received index_request example_env), (8, result 6 example_env),
    (8, measured 0 1000 example_env), (8, result (int (length ?h)) example_env)]"
  let ?init = "\<lparr>ds_server = server_run rtr ca, ds_open = {0, 1, 2, 3}, ds_pipes = []\<rparr>"
    and ?d = "\<lparr>ds_server = ?s5, ds_open = {0, 1, 2, 3, 5, 6, 8, 9}, ds_pipes = [(8, 9)]\<rparr>"
  have st: "descriptor_step (0, result 5 example_env) ?init = Some \<lparr>ds_server = ?s1, ds_open = {0, 1, 2, 3, 5}, ds_pipes = []\<rparr>"
    "descriptor_step (7, received index_request example_env) \<lparr>ds_server = ?s1, ds_open = {0, 1, 2, 3, 5}, ds_pipes = []\<rparr> =
      Some \<lparr>ds_server = index_opens rtr c1, ds_open = {0, 1, 2, 3, 5}, ds_pipes = []\<rparr>"
    "descriptor_step (8, result 6 example_env) \<lparr>ds_server = index_opens rtr c1, ds_open = {0, 1, 2, 3, 5}, ds_pipes = []\<rparr> =
      Some \<lparr>ds_server = index_measures rtr c2, ds_open = {0, 1, 2, 3, 5, 6}, ds_pipes = []\<rparr>"
    "descriptor_step (8, measured 0 1000 example_env) \<lparr>ds_server = index_measures rtr c2, ds_open = {0, 1, 2, 3, 5, 6}, ds_pipes = []\<rparr> =
      Some \<lparr>ds_server = index_heads rtr c3 sc, ds_open = {0, 1, 2, 3, 5, 6}, ds_pipes = []\<rparr>"
    "descriptor_step (8, result (int (length ?h)) example_env) \<lparr>ds_server = index_heads rtr c3 sc, ds_open = {0, 1, 2, 3, 5, 6}, ds_pipes = []\<rparr> =
      Some ?d"
    using pipe s4 by (simp_all add: descriptor_step_def Let_def ops none opens_def closes_def s1 s2 s3 s5)
  have lens: "0 < length ?h" "length ?h = sdslen (sc_buffer sc)" using \<open>?h \<noteq> []\<close> sds_rep_len [OF sc] by simp_all
  have g: "grants 16 ?init (0, result 5 example_env)"
    "grants 16 \<lparr>ds_server = ?s1, ds_open = {0, 1, 2, 3, 5}, ds_pipes = []\<rparr> (7, received index_request example_env)"
    "grants 16 \<lparr>ds_server = index_opens rtr c1, ds_open = {0, 1, 2, 3, 5}, ds_pipes = []\<rparr> (8, result 6 example_env)"
    "grants 16 \<lparr>ds_server = index_measures rtr c2, ds_open = {0, 1, 2, 3, 5, 6}, ds_pipes = []\<rparr> (8, measured 0 1000 example_env)"
    "grants 16 \<lparr>ds_server = index_heads rtr c3 sc, ds_open = {0, 1, 2, 3, 5, 6}, ds_pipes = []\<rparr> (8, result (int (length ?h)) example_env)"
    using pipe room lens s4 s5 by (simp_all add: grants_def ops none opens_def kernel_ok_def s1 s2 s3)
  have run: "run_of descriptor_step ?cs ?init = Some ?d" using st by simp
  have allowed: "allowed_run descriptor_step (grants 16) ?cs ?init" using st g by simp
  from pipes_are_never_closed [OF main site(3) _ _ allowed run]
  have "4 + 2 * length (ds_pipes ?d) \<le> 16" by simp
  with main run show ?thesis by (intro exI [of _ "server_run rtr ca"] exI [of _ ?cs] exI [of _ ?d]) simp
qed

end
