(* ===== verification/Delivery.thy ===== *)
theory Delivery
  imports Liveness
begin

text \<open>
  What a client receives: on a kernel that moves whole pieces, the bytes an answer sends are the
  header of its file followed by the file, however the completions of the clients interleave.
  The pipes are followed beside the server: what a splice has put into one, and what has left it.
\<close>

section \<open>Conservation\<close>

text \<open>Runs whose steps put something out: what is left plus what has gone out stays the same.\<close>

fun outputs :: "('e \<Rightarrow> 's \<Rightarrow> 's option) \<Rightarrow> ('s \<Rightarrow> 'e \<Rightarrow> 'b list) \<Rightarrow> 'e list \<Rightarrow> 's \<Rightarrow> 'b list" where
  "outputs nxt out [] s = []"
| "outputs nxt out (e # es) s = out s e @ (case nxt e s of None \<Rightarrow> [] | Some s' \<Rightarrow> outputs nxt out es s')"

locale conservation = guarded_run nxt ok Inv
  for nxt :: "'e \<Rightarrow> 's \<Rightarrow> 's option" and ok :: "'s \<Rightarrow> 'e \<Rightarrow> bool" and Inv :: "'s \<Rightarrow> bool" +
  fixes out :: "'s \<Rightarrow> 'e \<Rightarrow> 'b list" and rest :: "'s \<Rightarrow> 'b list"
  assumes gives: "Inv s \<Longrightarrow> ok s e \<Longrightarrow> nxt e s = Some s' \<Longrightarrow> rest s = out s e @ rest s'"
begin

lemma conserved:
  "Inv s \<Longrightarrow> allowed_run nxt ok es s \<Longrightarrow> run_of nxt es s = Some s' \<Longrightarrow>
    rest s = outputs nxt out es s @ rest s' \<and> Inv s'"
proof (induction es arbitrary: s)
  case (Cons e es)
  from Cons.prems(3) obtain t where t: "nxt e s = Some t" "run_of nxt es t = Some s'" by (auto simp: fault_simps)
  then have ok: "ok s e" "allowed_run nxt ok es t" using Cons.prems(2) by auto
  from gives [OF Cons.prems(1) ok(1) t(1)] Cons.IH [OF keeps [OF Cons.prems(1) ok(1) t(1)] ok(2) t(2)] t(1)
  show ?case by simp
qed simp

end

section \<open>Pipes beside the server\<close>

text \<open>
  The pipe of the answer of each protothread.  A splice into it copies from the file behind the
  descriptor, from the given offset on; a splice out of it removes from the front.
\<close>

record delivery =
  dl_server :: server
  dl_pipes :: "nat \<Rightarrow> bytes"

definition pipe_after :: "(int \<Rightarrow> bytes) \<Rightarrow> op \<Rightarrow> cqe \<Rightarrow> (nat \<Rightarrow> bytes) \<Rightarrow> nat \<Rightarrow> bytes" where
  "pipe_after data opn c pipes =
     (case opn of
        Op_pt tid (Pt_splice_all sp) \<Rightarrow>
          if cq_res c < 0 then pipes
          else if sp_is_draining sp then pipes(tid := drop (nat (cq_res c)) (pipes tid))
          else pipes(tid := pipes tid @ take (nat (cq_res c)) (drop (unat (sp_off_in sp)) (data (sp_fd_in sp))))
      | _ \<Rightarrow> pipes)"

text \<open>The bytes that a completion of the protothread has sent to its client.\<close>

definition goes_out :: "nat \<Rightarrow> op \<Rightarrow> cqe \<Rightarrow> (nat \<Rightarrow> bytes) \<Rightarrow> bytes" where
  "goes_out tid opn c pipes =
     (case opn of
        Op_pt t (Pt_send sc) \<Rightarrow> if t = tid \<and> 0 \<le> cq_res c then take (nat (cq_res c)) (sds_bytes (sc_buffer sc)) else []
      | Op_pt t (Pt_splice_all sp) \<Rightarrow>
          if t = tid \<and> 0 \<le> cq_res c \<and> sp_is_draining sp then take (nat (cq_res c)) (pipes tid) else []
      | _ \<Rightarrow> [])"

definition deliver_step :: "(int \<Rightarrow> bytes) \<Rightarrow> nat \<times> cqe \<Rightarrow> delivery \<Rightarrow> delivery option" where
  "deliver_step data e d =
     (case e of (i, c) \<Rightarrow> do {
        s \<leftarrow> process_cqe i c (dl_server d);
        Some \<lparr>dl_server = s, dl_pipes = pipe_after data (sv_ops (dl_server d) ! i) c (dl_pipes d)\<rparr>
      })"

definition sent_by :: "nat \<Rightarrow> delivery \<Rightarrow> nat \<times> cqe \<Rightarrow> bytes" where
  "sent_by tid d e = (case e of (i, c) \<Rightarrow> goes_out tid (sv_ops (dl_server d) ! i) c (dl_pipes d))"

lemma run_of_deliver:
  "map_option dl_server (run_of (deliver_step data) cs d) = async_io_process cs (dl_server d)"
  by (induction cs arbitrary: d) (auto simp: deliver_step_def split: Option.bind_split)

text \<open>
  The files by their contents; a kernel that takes of a send what it likes, but moves by each
  splice all that it was asked for, and fails none of them.
\<close>

definition file_size :: "(bytes \<Rightarrow> bytes) \<Rightarrow> bytes \<Rightarrow> u64" where
  "file_size content p = of_nat (length (content p))"

definition whole :: "splice_all_context \<Rightarrow> int \<Rightarrow> bool" where
  "whole sp res \<longleftrightarrow>
     (case handle_splice_all_submission sp of Sq_splice fd_in off_in fd_out off_out n \<Rightarrow> res = uint n | _ \<Rightarrow> False)"

definition delivering :: "(int \<Rightarrow> bytes) \<Rightarrow> (bytes \<Rightarrow> bytes) \<Rightarrow> op \<Rightarrow> cqe \<Rightarrow> bool" where
  "delivering path_of content opn c \<longleftrightarrow> files_ok path_of (file_size content) opn c \<and>
     (\<forall>tid sc. opn = Op_pt tid (Pt_send sc) \<longrightarrow> 0 < cq_res c \<and> nat (cq_res c) \<le> sdslen (sc_buffer sc)) \<and>
     (\<forall>tid sp. opn = Op_pt tid (Pt_splice_all sp) \<longrightarrow> whole sp (cq_res c))"

definition may_deliver :: "(int \<Rightarrow> bytes) \<Rightarrow> (bytes \<Rightarrow> bytes) \<Rightarrow> delivery \<Rightarrow> nat \<times> cqe \<Rightarrow> bool" where
  "may_deliver path_of content d e \<longleftrightarrow>
     (case e of (i, c) \<Rightarrow> i < length (sv_ops (dl_server d)) \<and> delivering path_of content (sv_ops (dl_server d) ! i) c)"

section \<open>What is left of an answer\<close>

text \<open>
  The offset of a transfer is never advanced: each piece of up to 64 KiB is read from the start of
  the file.  The number of bytes is that of the file modulo \<open>2^32\<close>.
\<close>

definition cycled :: "bytes \<Rightarrow> nat \<Rightarrow> bytes" where
  "cycled b n = map (\<lambda>i. b ! (i mod 65536)) [0..<n]"

definition transferred :: "bytes \<Rightarrow> bytes" where
  "transferred b = cycled b (length b mod 2 ^ 32)"

lemma cycled_0 [simp]: "cycled b 0 = []"
  by (simp add: cycled_def)

lemma cycled_prefix: "n \<le> length b \<Longrightarrow> n \<le> 65536 \<Longrightarrow> cycled b n = take n b"
  by (intro nth_equalityI) (simp_all add: cycled_def)

lemma transferred_small: "length b \<le> 65536 \<Longrightarrow> transferred b = b"
  by (simp add: transferred_def cycled_prefix)

lemma cycled_piece:
  assumes "n \<le> length b" and "k = min n 65536"
  shows "cycled b n = take k b @ cycled b (n - k)"
proof (cases "n \<le> 65536")
  case True
  with assms cycled_prefix [of n b] show ?thesis by simp
next
  case False
  then have k: "k = 65536" and n: "n = 65536 + (n - k)" using assms(2) by simp_all
  have "[0..<n] = [0..<65536] @ map (\<lambda>i. i + 65536) [0..<n - k]"
    using n upt_add_eq_append [of 0 65536 "n - k"] by (simp add: map_add_upt k add.commute)
  then have "cycled b n = map (\<lambda>i. b ! (i mod 65536)) [0..<65536] @ cycled b (n - k)"
    by (simp add: cycled_def)
  moreover have "map (\<lambda>i. b ! (i mod 65536)) [0..<65536] = take k b"
    using cycled_prefix [of 65536 b] False assms(1) by (simp add: k cycled_def)
  ultimately show ?thesis by simp
qed

definition file_answer :: "(bytes \<Rightarrow> bytes) \<Rightarrow> bytes \<Rightarrow> bytes" where
  "file_answer content p = file_head (last (uri_segs p)) (file_size content p) @ transferred (content p)"

definition left :: "(bytes \<Rightarrow> bytes) \<Rightarrow> bytes \<Rightarrow> pt_op \<Rightarrow> bytes \<Rightarrow> bytes" where
  "left content p q pipe =
     (case q of
        Pt_openat path \<Rightarrow> file_answer content p
      | Pt_statx fd \<Rightarrow> file_answer content p
      | Pt_send sc \<Rightarrow> sds_bytes (sc_buffer sc) @ transferred (content p)
      | Pt_splice_all sp \<Rightarrow> (if sp_is_draining sp then pipe else []) @ cycled (content p) (unat (sp_nbytes sp))
      | Pt_close fd \<Rightarrow> [])"

text \<open>A transfer fills its pipe with a piece of the file and empties it again.\<close>

definition pipe_state :: "(bytes \<Rightarrow> bytes) \<Rightarrow> bytes \<Rightarrow> pt_op \<Rightarrow> bytes \<Rightarrow> bool" where
  "pipe_state content p q pipe \<longleftrightarrow>
     (case q of
        Pt_splice_all sp \<Rightarrow> sp_off_in sp = 0 \<and> unat (sp_nbytes sp) \<le> length (content p) \<and>
          (if sp_is_draining sp then unat (sp_in_pipe sp) = length pipe \<and> length pipe \<le> 65536
           else sp_in_pipe sp = 0 \<and> pipe = [])
      | _ \<Rightarrow> pipe = [])"

lemma follows_left:
  assumes "follows (file_size content) th q t p"
  shows "(\<exists>path. q = Pt_openat path) \<or> (\<exists>fd. q = Pt_statx fd) \<Longrightarrow> left content (th_path th) p g = file_answer content (th_path th)"
    and "q = Pt_send sc \<Longrightarrow> left content (th_path th) p g = transferred (content (th_path th))"
    and "q = Pt_splice_all sp \<Longrightarrow> left content (th_path th) p g = []"
    and "pipe_state content (th_path th) p []"
proof -
  have head: "sds_bytes (sc_buffer sc) = file_head (last (uri_segs path)) (file_size content path)"
    if "whole_head (file_size content) path (Pt_send sc)" for sc path
    using that by (auto simp: whole_head_def dest: sds_bytes_rep)
  have n: "unat (ucast (file_size content (th_path th)) :: u32) = length (content (th_path th)) mod 2 ^ 32"
    by (simp add: file_size_def unsigned_ucast_eq unsigned_of_nat take_bit_eq_mod mod_mod_cancel)
  show "(\<exists>path. q = Pt_openat path) \<or> (\<exists>fd. q = Pt_statx fd) \<Longrightarrow> left content (th_path th) p g = file_answer content (th_path th)"
    using assms head by (cases p) (auto simp: follows_def left_def file_answer_def whole_head_def)
  show "q = Pt_send sc \<Longrightarrow> left content (th_path th) p g = transferred (content (th_path th))"
    using assms n by (auto simp: follows_def left_def sendfile_context_def transferred_def)
  show "q = Pt_splice_all sp \<Longrightarrow> left content (th_path th) p g = []"
    using assms by (auto simp: follows_def left_def)
  show "pipe_state content (th_path th) p []"
    using assms n by (cases q) (auto simp: follows_def pipe_state_def whole_head_def sendfile_context_def)
qed

text \<open>The two splices of a piece.\<close>

lemma fill_whole:
  assumes "pipe_state content p (Pt_splice_all sp) pipe" and "\<not> sp_is_draining sp" and "whole sp res"
    and "k = min (unat (sp_nbytes sp)) 65536"
  shows "res = int k" and "\<exists>sp' e. handle_splice_all_completion res sp = Some (sp', e) \<and>
    sp_is_draining sp' \<and> sp_off_in sp' = 0 \<and> unat (sp_nbytes sp') = unat (sp_nbytes sp) - k \<and> unat (sp_in_pipe sp') = k"
proof -
  have sp: "sp_off_in sp = 0" "sp_in_pipe sp = 0" using assms(1,2) by (auto simp: pipe_state_def)
  let ?m = "if sp_nbytes sp < SPLICE_MAX_SIZE then sp_nbytes sp else SPLICE_MAX_SIZE"
  have m: "unat ?m = k" using assms(4) by (simp add: word_less_nat_alt SPLICE_MAX_SIZE_def min_def)
  have "res = uint ?m"
    using assms(2,3) sp by (auto simp: whole_def handle_splice_all_submission_def u32_u64)
  then show res: "res = int k" using m by (simp only: uint_nat)
  have "k < 2 ^ 32" using assms(4) by simp
  then have "unat (of_nat k :: u64) = k" "unat (of_nat k :: u32) = k"
    by (simp_all add: unsigned_of_nat take_bit_nat_eq_self)
  moreover from this(2) have "unat (sp_nbytes sp - of_nat k) = unat (sp_nbytes sp) - k"
    using assms(4) by (simp add: unat_sub word_le_nat_alt)
  ultimately show "\<exists>sp' e. handle_splice_all_completion res sp = Some (sp', e) \<and>
      sp_is_draining sp' \<and> sp_off_in sp' = 0 \<and> unat (sp_nbytes sp') = unat (sp_nbytes sp) - k \<and> unat (sp_in_pipe sp') = k"
    using assms(2) sp res by (simp add: handle_splice_all_completion_def Let_def)
qed

lemma drain_whole:
  assumes "pipe_state content p (Pt_splice_all sp) pipe" and "sp_is_draining sp" and "whole sp res"
  shows "res = int (length pipe)" and "sp_nbytes sp = 0 \<Longrightarrow> handle_splice_all_completion res sp = None"
    and "sp_nbytes sp \<noteq> 0 \<Longrightarrow> \<exists>e. handle_splice_all_completion res sp = Some (sp\<lparr>sp_in_pipe := 0, sp_is_draining := False\<rparr>, e)"
proof -
  have n: "unat (sp_in_pipe sp) = length pipe" "length pipe \<le> 65536"
    using assms(1,2) by (auto simp: pipe_state_def)
  have "unat (ucast (sp_in_pipe sp) :: u32) = length pipe"
    using n by (simp add: unsigned_ucast_eq take_bit_nat_eq_self)
  moreover have "res = uint (ucast (sp_in_pipe sp) :: u32)"
    using assms(2,3) by (simp add: whole_def handle_splice_all_submission_def)
  ultimately show res: "res = int (length pipe)" by (simp only: uint_nat)
  have "of_nat (unat (sp_in_pipe sp)) = sp_in_pipe sp" by simp
  then have "sp_in_pipe sp = word_of_int res" using n(1) res by simp
  with assms(2) res show "sp_nbytes sp = 0 \<Longrightarrow> handle_splice_all_completion res sp = None"
    "sp_nbytes sp \<noteq> 0 \<Longrightarrow> \<exists>e. handle_splice_all_completion res sp = Some (sp\<lparr>sp_in_pipe := 0, sp_is_draining := False\<rparr>, e)"
    by (simp_all add: handle_splice_all_completion_def Let_def)
qed

text \<open>What a send takes off the header.\<close>

lemma send_takes:
  assumes "sds_rep (sc_buffer sc) str" and "0 < res" and "nat res \<le> sdslen (sc_buffer sc)"
  shows "handle_send_completion res sc = Some (Inr (sc', e)) \<Longrightarrow> str = take (nat res) str @ sds_bytes (sc_buffer sc')"
    and "handle_send_completion res sc = Some (Inl ()) \<Longrightarrow> take (nat res) str = str"
proof -
  obtain b where b: "sdsrange (sc_buffer sc) res (- 1) = Some b" "sds_rep b (range_of str res (- 1))"
    using sdsrange_spec [OF assms(1)] by blast
  have "range_of str res (- 1) = drop (nat res) str"
    using range_of_drop [of "nat res" str] assms sds_rep_len [OF assms(1)] by simp
  then have rep: "sds_rep b (drop (nat res) str)" using b(2) by simp
  then show "handle_send_completion res sc = Some (Inr (sc', e)) \<Longrightarrow> str = take (nat res) str @ sds_bytes (sc_buffer sc')"
    using b(1) by (auto simp: handle_send_completion_def handle_send_submission_def split: if_splits)
  show "take (nat res) str = str" if "handle_send_completion res sc = Some (Inl ())"
  proof -
    have "sdslen b = 0" using that b(1) assms(2) by (auto simp: handle_send_completion_def split: if_splits)
    with sds_rep_len [OF rep] show ?thesis by simp
  qed
qed

section \<open>The conservation of an answer\<close>

definition remaining :: "(bytes \<Rightarrow> bytes) \<Rightarrow> nat \<Rightarrow> delivery \<Rightarrow> bytes" where
  "remaining content tid d =
     (case sv_threads (dl_server d) tid of
        None \<Rightarrow> []
      | Some th \<Rightarrow> (case ops_for tid (dl_server d) of Op_pt t q # qs \<Rightarrow> left content (th_path th) q (dl_pipes d tid) | _ \<Rightarrow> []))"

definition pipe_fine :: "(bytes \<Rightarrow> bytes) \<Rightarrow> nat \<Rightarrow> delivery \<Rightarrow> bool" where
  "pipe_fine content tid d \<longleftrightarrow>
     (\<forall>th q. sv_threads (dl_server d) tid = Some th \<longrightarrow> ops_for tid (dl_server d) = [Op_pt tid q] \<longrightarrow>
        pipe_state content (th_path th) q (dl_pipes d tid))"

lemma remaining_one:
  assumes "sv_threads (dl_server d) tid = Some th" and "ops_for tid (dl_server d) = [Op_pt tid q]"
  shows "remaining content tid d = left content (th_path th) q (dl_pipes d tid)"
    and "pipe_fine content tid d \<longleftrightarrow> pipe_state content (th_path th) q (dl_pipes d tid)"
  using assms by (simp_all add: remaining_def pipe_fine_def)

lemma remaining_over: "sv_threads (dl_server d) tid = None \<Longrightarrow> remaining content tid d = [] \<and> pipe_fine content tid d"
  by (simp add: remaining_def pipe_fine_def)

lemma remaining_same:
  assumes "same_for tid (dl_server d) (dl_server d')" and "dl_pipes d' tid = dl_pipes d tid"
  shows "remaining content tid d' = remaining content tid d" and "pipe_fine content tid d' \<longleftrightarrow> pipe_fine content tid d"
proof -
  have eq: "sv_threads (dl_server d') tid = sv_threads (dl_server d) tid" "ops_for tid (dl_server d') = ops_for tid (dl_server d)"
    using assms(1) by (simp_all add: same_for_def)
  show "remaining content tid d' = remaining content tid d" "pipe_fine content tid d' \<longleftrightarrow> pipe_fine content tid d"
    unfolding remaining_def pipe_fine_def eq assms(2) by (rule refl)+
qed

text \<open>
  What a completion gives out, by what it does: it ends an operation, after which the pipe is empty
  and what is still to come does not depend on the operation, or it takes a part of it.
\<close>

definition after_op :: "(bytes \<Rightarrow> bytes) \<Rightarrow> bytes \<Rightarrow> pt_op \<Rightarrow> bytes" where
  "after_op content p q =
     (case q of
        Pt_openat path \<Rightarrow> file_answer content p
      | Pt_statx fd \<Rightarrow> file_answer content p
      | Pt_send sc \<Rightarrow> transferred (content p)
      | _ \<Rightarrow> [])"

lemma follows_after:
  assumes "follows (file_size content) th q t p"
  shows "left content (th_path th) p g = after_op content (th_path th) q"
  using follows_left(1-3) [OF assms, where g = g] assms by (cases q) (auto simp: after_op_def follows_def)

lemma op_ends:
  assumes pst: "pipe_state content p q (pipes tid)"
    and sends: "\<And>sc. q = Pt_send sc \<Longrightarrow> sds_rep (sc_buffer sc) (sds_bytes (sc_buffer sc)) \<and>
      0 < cq_res c \<and> nat (cq_res c) \<le> sdslen (sc_buffer sc) \<and> handle_send_completion (cq_res c) sc = Some (Inl ())"
    and splices: "\<And>sp. q = Pt_splice_all sp \<Longrightarrow>
      whole sp (cq_res c) \<and> handle_splice_all_completion (cq_res c) sp = None"
  shows "left content p q (pipes tid) = goes_out tid (Op_pt tid q) c pipes @ after_op content p q"
    and "pipe_after data (Op_pt tid q) c pipes tid = []"
proof -
  have "left content p q (pipes tid) = goes_out tid (Op_pt tid q) c pipes @ after_op content p q \<and>
    pipe_after data (Op_pt tid q) c pipes tid = []"
  proof (cases q)
    case (Pt_send sc)
    have "take (nat (cq_res c)) (sds_bytes (sc_buffer sc)) = sds_bytes (sc_buffer sc)"
      using sends [OF Pt_send] send_takes(2) by blast
    with sends [OF Pt_send] pst Pt_send show ?thesis
      by (simp add: left_def goes_out_def after_op_def pipe_after_def pipe_state_def)
  next
    case (Pt_splice_all sp)
    note pst' = pst [unfolded Pt_splice_all]
    have "sp_is_draining sp" using fill_whole(2) [OF pst' _ _ refl] splices [OF Pt_splice_all] by fastforce
    moreover from this have "cq_res c = int (length (pipes tid))" "sp_nbytes sp = 0"
      using drain_whole(1,3) [OF pst'] splices [OF Pt_splice_all] by fastforce+
    ultimately show ?thesis
      using Pt_splice_all by (simp add: left_def goes_out_def after_op_def pipe_after_def)
  qed (use pst in \<open>simp_all add: left_def goes_out_def after_op_def pipe_after_def pipe_state_def\<close>)
  then show "left content p q (pipes tid) = goes_out tid (Op_pt tid q) c pipes @ after_op content p q"
    "pipe_after data (Op_pt tid q) c pipes tid = []" by blast+
qed

lemma splice_continues:
  assumes pst: "pipe_state content p (Pt_splice_all sp) (pipes tid)" and w: "whole sp (cq_res c)"
    and e: "handle_splice_all_completion (cq_res c) sp = Some (sp', e)" and data: "data (sp_fd_in sp) = content p"
  defines "rest \<equiv> pipe_after data (Op_pt tid (Pt_splice_all sp)) c pipes tid"
  shows "left content p (Pt_splice_all sp) (pipes tid) =
      goes_out tid (Op_pt tid (Pt_splice_all sp)) c pipes @ left content p (Pt_splice_all sp') rest \<and>
    pipe_state content p (Pt_splice_all sp') rest"
proof (cases "sp_is_draining sp")
  case True
  note drain = drain_whole [OF pst True w]
  have "sp_nbytes sp \<noteq> 0" using drain(2) e by auto
  then have "sp' = sp\<lparr>sp_in_pipe := 0, sp_is_draining := False\<rparr>" using drain(3) e by auto
  with pst True drain(1) show ?thesis by (simp add: rest_def left_def goes_out_def pipe_state_def pipe_after_def)
next
  case False
  define k where "k = min (unat (sp_nbytes sp)) 65536"
  note filled = fill_whole [OF pst False w k_def]
  have sp': "sp_is_draining sp'" "sp_off_in sp' = 0" "unat (sp_nbytes sp') = unat (sp_nbytes sp) - k" "unat (sp_in_pipe sp') = k"
    using filled(2) e by auto
  have fits: "unat (sp_nbytes sp) \<le> length (content p)" using pst by (simp add: pipe_state_def)
  have "rest = take k (content p)"
    using pst False filled(1) data by (simp add: rest_def pipe_after_def pipe_state_def)
  moreover have "length (take k (content p)) = k" "k \<le> 65536" using fits by (simp_all add: k_def)
  ultimately show ?thesis
    using sp' False fits cycled_piece [OF fits k_def] by (simp add: left_def goes_out_def pipe_state_def)
qed

text \<open>A completion of the answer gives out what it takes off the rest.\<close>

lemma own_gives:
  assumes inv: "content.inv rtr path_of (file_size content) (dl_server d)" and ok: "threads_ok None (dl_server d)"
    and fine: "pipe_fine content tid d"
    and i: "i < length (sv_ops (dl_server d))" and o: "sv_ops (dl_server d) ! i = Op_pt tid q"
    and k: "delivering path_of content (sv_ops (dl_server d) ! i) c"
    and st: "deliver_step (\<lambda>fd. content (path_of fd)) (i, c) d = Some d'"
  shows "remaining content tid d = sent_by tid d (i, c) @ remaining content tid d' \<and> pipe_fine content tid d'"
proof -
  let ?s = "dl_server d" and ?s' = "dl_server d'" and ?data = "\<lambda>fd. content (path_of fd)"
  from st have p: "process_cqe i c ?s = Some ?s'" and pipes: "dl_pipes d' = pipe_after ?data (Op_pt tid q) c (dl_pipes d)"
    using o by (auto simp: deliver_step_def fault_simps)
  obtain th where th: "sv_threads ?s tid = Some th" "ops_for tid ?s = [Op_pt tid q]" "thread_waits th q"
    using op_alone [OF ok] o i nth_mem by metis
  have in_ops: "Op_pt tid q \<in> set (sv_ops ?s)" using o i nth_mem by metis
  have facts: "right_thread path_of (file_size content) (served_paths rtr) th" "serves th q" "safe_op (Op_pt tid q)"
    "right_cache path_of (file_size content) (served_paths rtr) (sv_cache ?s)"
    using inv th(1) in_ops by (auto simp: content.inv_def)
  have k': "files_ok path_of (file_size content) (Op_pt tid q) c"
    "\<And>sc. q = Pt_send sc \<Longrightarrow> 0 < cq_res c \<and> nat (cq_res c) \<le> sdslen (sc_buffer sc)"
    "\<And>sp. q = Pt_splice_all sp \<Longrightarrow> whole sp (cq_res c)"
    using k o by (auto simp: delivering_def)
  have pst: "pipe_state content (th_path th) q (dl_pipes d tid)" using remaining_one(2) [OF th(1,2)] fine by simp
  note rem = remaining_one(1) [OF th(1,2), of content]
  have out: "sent_by tid d (i, c) = goes_out tid (Op_pt tid q) c (dl_pipes d)" by (simp add: sent_by_def o)
  have rep: "sds_rep (sc_buffer sc) (sds_bytes (sc_buffer sc))" if "q = Pt_send sc" for sc
    using facts(3) that by (auto simp: safe_op_def)
  from ok i o p th(1) show ?thesis
  proof (cases rule: own_completion)
    case (resumes ca t p1 ev)
    have ends: "remaining content tid d = sent_by tid d (i, c) @ after_op content (th_path th) q" "dl_pipes d' tid = []"
      using op_ends [where pipes = "dl_pipes d" and tid = tid and c = c, OF pst] rep k'(2,3) resumes(4,5) unfolding rem out pipes by blast+
    have "TEST_PATH \<in> served_paths rtr" by (simp add: served_paths_def)
    from resume_follows [OF facts(1,4) this facts(2) th(3) k'(1) resumes(1)]
    consider fd where "t = None" "q = Pt_close fd"
      | t' p' where "t = Some t'" "p1 = Some p'" "follows (file_size content) th q t' p'" by auto
    then show ?thesis
    proof cases
      case (1 fd)
      then have "sv_threads ?s' tid = None" using resumes(2) by simp
      from remaining_over [OF this] ends(1) 1(2) show ?thesis by (simp add: after_op_def)
    next
      case (2 t' p')
      have t': "sv_threads ?s' tid = Some t'" "ops_for tid ?s' = [Op_pt tid p']" "th_path t' = th_path th"
        using 2 resumes(2,3) by (simp_all add: follows_def)
      show ?thesis
        using remaining_one [OF t'(1,2)] ends follows_after [OF 2(3)] follows_left(4) [OF 2(3)] by (simp add: t'(3))
    qed
  next
    case (sends sc sc' e)
    have "sds_bytes (sc_buffer sc) = take (nat (cq_res c)) (sds_bytes (sc_buffer sc)) @ sds_bytes (sc_buffer sc')"
      using send_takes(1) [OF rep [OF sends(1)] _ _ sends(2)] k'(2) [OF sends(1)] by blast
    then show ?thesis
      using remaining_one [OF sends(3,4)] pst sends(1) k'(2) [OF sends(1)]
      by (auto simp: rem out left_def goes_out_def pipe_state_def pipes pipe_after_def)
  next
    case (splices sp sp' e)
    have "path_of (sp_fd_in sp) = th_path th"
      using facts(1,2) th(3) splices(1) by (auto simp: serves_def thread_waits_def right_stage_def right_file_def)
    with splice_continues [where pipes = "dl_pipes d" and tid = tid and c = c, OF pst [unfolded splices(1)] k'(3) [OF splices(1)] splices(2), of ?data]
    show ?thesis using remaining_one [OF splices(3,4)] by (simp add: rem out pipes splices(1))
  qed
qed

definition delivery_inv :: "handler router_t \<Rightarrow> (int \<Rightarrow> bytes) \<Rightarrow> (bytes \<Rightarrow> bytes) \<Rightarrow> nat \<Rightarrow> delivery \<Rightarrow> bool" where
  "delivery_inv rtr path_of content tid d \<longleftrightarrow>
     content.inv rtr path_of (file_size content) (dl_server d) \<and> threads_ok None (dl_server d) \<and>
     tid < sv_next (dl_server d) \<and> pipe_fine content tid d"

lemma deliver_keeps:
  assumes inv: "delivery_inv rtr path_of content tid d" and ok: "may_deliver path_of content d e"
    and st: "deliver_step (\<lambda>fd. content (path_of fd)) e d = Some d'"
  shows "delivery_inv rtr path_of content tid d' \<and> remaining content tid d = sent_by tid d e @ remaining content tid d'"
proof -
  obtain i c where e: "e = (i, c)" by (cases e)
  let ?s = "dl_server d" and ?s' = "dl_server d'"
  have p: "process_cqe i c ?s = Some ?s'" and pipes: "dl_pipes d' = pipe_after (\<lambda>fd. content (path_of fd)) (sv_ops ?s ! i) c (dl_pipes d)"
    using st by (auto simp: e deliver_step_def fault_simps)
  have k: "i < length (sv_ops ?s)" "delivering path_of content (sv_ops ?s ! i) c" using ok by (simp_all add: e may_deliver_def)
  have inv': "content.inv rtr path_of (file_size content) ?s" "threads_ok None ?s" "tid < sv_next ?s" "pipe_fine content tid d" using inv by (simp_all add: delivery_inv_def)
  have "files_ok path_of (file_size content) (sv_ops ?s ! i) c" using k(2) by (simp add: delivering_def)
  from content.inv_process [OF inv'(1,2) k(1) this p] process_cqe_ok [OF inv'(2) p] next_grows [OF p inv'(2,3)]
  have next': "content.inv rtr path_of (file_size content) ?s'" "threads_ok None ?s'" "tid < sv_next ?s'" by simp_all
  have "remaining content tid d = sent_by tid d e @ remaining content tid d' \<and> pipe_fine content tid d'"
  proof (cases "\<exists>q. sv_ops ?s ! i = Op_pt tid q")
    case True
    then obtain q where "sv_ops ?s ! i = Op_pt tid q" by blast
    from own_gives [OF inv'(1,2,4) k(1) this k(2)] st show ?thesis by (simp add: e)
  next
    case False
    then have other: "\<forall>q. sv_ops ?s ! i \<noteq> Op_pt tid q" by blast
    note same = others_same [OF inv'(2,3) p other]
    have "dl_pipes d' tid = dl_pipes d tid" using other by (auto simp: pipes pipe_after_def split: op.split pt_op.split)
    moreover have "sent_by tid d e = []" using other by (auto simp: e sent_by_def goes_out_def split: op.split pt_op.split)
    ultimately show ?thesis using remaining_same [OF same] inv'(4) by simp
  qed
  with next' show ?thesis by (simp add: delivery_inv_def)
qed

interpretation delivery: conservation "deliver_step (\<lambda>fd. content (path_of fd))" "may_deliver path_of content"
  "delivery_inv rtr path_of content tid" "sent_by tid" "remaining content tid" for rtr path_of content tid
  by unfold_locales (use deliver_keeps in blast)+

section \<open>Properties\<close>

text \<open>
  C3. What a client receives.  On a kernel that opens the files asked for, takes of each send what
  it likes and moves by each splice all it was asked for: from the moment an answer waits for its
  file to be opened or, if the file is cached, for its header to be sent, whatever the other
  clients do meanwhile, the bytes it sends are the beginning of the header of the file at its path
  followed by what is transferred of that file, and all of them if it is over.  What is
  transferred of a file of at most 64 KiB is its content; of a longer one it is as many bytes
  (modulo \<open>2^32\<close>), of which each is the one at its position modulo 64 KiB.
\<close>

theorem client_receives_file:
  assumes "async_io_file_cache = Some cache" and "router_setup (Some es) main_routes = Some rtr"
    and "\<forall>f\<in>set (files_under es ''/''). dotted f"
    and "reachable (files_ok path_of (file_size content)) (server_run rtr cache) s"
    and "sv_threads s tid = Some th" and "Op_pt tid q \<in> set (sv_ops s)"
    and "q = Pt_openat path \<or> whole_head (file_size content) (th_path th) q"
    and "allowed_run (deliver_step (\<lambda>fd. content (path_of fd))) (may_deliver path_of content) cs \<lparr>dl_server = s, dl_pipes = \<lambda>t. []\<rparr>"
    and "async_io_process cs s = Some s'" and "file_bytes = content (th_path th)"
  shows "\<exists>rest. file_head (last (uri_segs (th_path th))) (of_nat (length file_bytes)) @
      (if length file_bytes \<le> 65536 then file_bytes
       else map (\<lambda>i. file_bytes ! (i mod 65536)) [0..<length file_bytes mod 2 ^ 32]) =
      outputs (deliver_step (\<lambda>fd. content (path_of fd))) (sent_by tid) cs \<lparr>dl_server = s, dl_pipes = \<lambda>t. []\<rparr> @ rest \<and>
    (sv_threads s' tid = None \<longrightarrow> rest = [])"
proof -
  let ?d = "\<lparr>dl_server = s, dl_pipes = \<lambda>t. []\<rparr>"
  note ok = content_reachable [OF assms(2,3,1,4)]
  have one: "sv_threads s tid = Some th" "ops_for tid s = [Op_pt tid q]"
    using op_alone [OF ok(2) assms(6)] assms(5) by auto
  have start: "pipe_state content (th_path th) q []" "left content (th_path th) q [] = file_answer content (th_path th)"
    using assms(7) by (auto simp: pipe_state_def left_def whole_head_def file_answer_def)
  have "tid < sv_next s" using ok(2) one(1) by (auto simp: threads_ok_def not_le [symmetric])
  moreover have "pipe_fine content tid ?d" using remaining_one(2) [of ?d tid th] one start(1) by simp
  ultimately have inv: "delivery_inv rtr path_of content tid ?d" using ok by (simp add: delivery_inv_def)
  obtain d' where d': "run_of (deliver_step (\<lambda>fd. content (path_of fd))) cs ?d = Some d'" "dl_server d' = s'"
    using run_of_deliver [of "\<lambda>fd. content (path_of fd)" cs ?d] assms(9) by auto
  have "remaining content tid ?d = file_answer content (th_path th)"
    using remaining_one(1) [of ?d tid th] one start(2) by simp
  moreover note delivery.conserved [OF inv assms(8) d'(1)]
  moreover have "sv_threads s' tid = None \<longrightarrow> remaining content tid d' = []" using remaining_over [of d' tid] d'(2) by simp
  ultimately show ?thesis
    unfolding file_answer_def file_size_def assms(10) transferred_def
    using transferred_small [of "content (th_path th)"]
    by (intro exI [of _ "remaining content tid d'"]) (simp add: transferred_def cycled_def)
qed

text \<open>The index page from its opening to the close of the connection.\<close>

abbreviation page :: bytes where "page \<equiv> replicate 1000 CHR ''x''"

theorem client_receives_file_witness:
  "\<exists>rtr ca s cs s'. router_setup (Some example_dir) main_routes = Some rtr \<and>
     reachable (files_ok (\<lambda>_. INDEX_PATH) (file_size (\<lambda>_. page))) (server_run rtr ca) s \<and>
     async_io_process cs s = Some s' \<and> sv_threads s' 0 = None \<and>
     outputs (deliver_step (\<lambda>fd. page)) (sent_by 0) cs \<lparr>dl_server = s, dl_pipes = \<lambda>t. []\<rparr> =
       file_head ''index.html'' 1000 @ page"
proof -
  let ?c = "\<lambda>_. page" and ?krn = "delivering (\<lambda>_. INDEX_PATH) (\<lambda>_. page)" and ?h = "file_head ''index.html'' 1000"
  obtain rtr ca c1 c2 c3 sc where site: "async_io_file_cache = Some ca" "router_setup (Some example_dir) main_routes = Some rtr"
    "\<forall>f\<in>set (files_under example_dir ''/''). dotted f"
    and r: "\<forall>krn. (\<forall>opn c. kernel_ok opn c \<longrightarrow> (\<forall>tid q. opn \<noteq> Op_pt tid q) \<longrightarrow> krn opn c) \<longrightarrow>
      reachable krn (server_run rtr ca) (index_opens rtr c1)"
    and s1: "process_cqe 8 (result 6 example_env) (index_opens rtr c1) = Some (index_measures rtr c2)"
    and s2: "process_cqe 8 (measured 0 1000 example_env) (index_measures rtr c2) = Some (index_heads rtr c3 sc)"
    and sc: "sds_rep (sc_buffer sc) ?h" by (rule index_run)
  let ?fl = "index_file\<lparr>ft_fd := 6, ft_size := 1000\<rparr>" and ?s = "index_opens rtr c1"
  let ?s3 = "busy rtr c3 0 (file_thread Fn_send_file 5 INDEX_PATH ?fl 123 ?h (Sendfile_pt (Some 427)))
      (Pt_splice_all (sendfile_context 6 5 (of_nat 1000) (8, 9)))"
  let ?s4 = "busy rtr c3 0 (file_thread Fn_send_file 5 INDEX_PATH ?fl 123 ?h (Sendfile_pt (Some 427)))
      (Pt_splice_all (filled_context 6 5 1000 (8, 9)))"
  let ?s5 = "busy rtr c3 0 (file_thread Fn_send_file 5 INDEX_PATH ?fl 127 ?h No_child) (Pt_close 5)"
  have "?h \<noteq> []" by (simp add: file_head_def)
  from header_taken [OF sc this, of example_env rtr c3 0 5 INDEX_PATH ?fl ?h ?h]
  have s3: "process_cqe 8 (result (int (length ?h)) example_env) (index_heads rtr c3 sc) = Some ?s3"
    by (simp add: index_heads_def pipes_of_def)
  note s4 = file_filled [of 1000 example_env rtr c3 0 "file_thread Fn_send_file 5 INDEX_PATH ?fl 123 ?h (Sendfile_pt (Some 427))" 6 5 "(8, 9)"]
  note s5 = file_drained [of 1000 example_env rtr c3 0 5 INDEX_PATH ?fl ?h 6 "(8, 9)"]
  note s6 = connection_closed [of 0 example_env rtr c3 0 5 INDEX_PATH ?fl ?h]
  let ?cs = "[(8, result 6 example_env), (8, measured 0 1000 example_env), (8, result (int (length ?h)) example_env),
    (8, result (int 1000) example_env), (8, result (int 1000) example_env), (8, result 0 example_env)]"
  have ops: "sv_ops ?s ! 8 = Op_pt 0 (Pt_openat INDEX_PATH)" "length (sv_ops ?s) = 9"
    "sv_ops (index_measures rtr c2) ! 8 = Op_pt 0 (Pt_statx 6)" "length (sv_ops (index_measures rtr c2)) = 9"
    "sv_ops (index_heads rtr c3 sc) ! 8 = Op_pt 0 (Pt_send sc)" "length (sv_ops (index_heads rtr c3 sc)) = 9"
    "\<And>th q. sv_ops (busy rtr c3 0 th q) ! 8 = Op_pt 0 q" "\<And>th q. length (sv_ops (busy rtr c3 0 th q)) = 9"
    by (simp_all add: index_opens_def index_measures_def index_heads_def busy_def nth_append)
  have run: "async_io_process ?cs ?s = Some (idle rtr c3 1)"
    using s1 s2 s3 s4 s5 s6 by simp
  have lens: "0 < length ?h" "length ?h = sdslen (sc_buffer sc)" using \<open>?h \<noteq> []\<close> sds_rep_len [OF sc] by simp_all
  have allowed: "allowed_run (deliver_step ?c) (may_deliver (\<lambda>_. INDEX_PATH) ?c) ?cs \<lparr>dl_server = ?s, dl_pipes = \<lambda>t. []\<rparr>"
    using s1 s2 s3 s4 s5 s6 ops lens
    by (simp add: deliver_step_def may_deliver_def delivering_def files_ok_def kernel_ok_def file_size_def whole_def
        handle_splice_all_submission_def sendfile_context_def filled_context_def SPLICE_MAX_SIZE_def)
  have s: "reachable (files_ok (\<lambda>_. INDEX_PATH) (file_size ?c)) (server_run rtr ca) ?s" using r by (simp add: files_ok_def)
  have th: "sv_threads ?s 0 = Some (file_thread Fn_send_file 5 INDEX_PATH index_file 77 [] (Open_file_pt (Some 388) INDEX_PATH))"
    by (simp add: index_opens_def busy_def)
  have op: "Op_pt 0 (Pt_openat INDEX_PATH) \<in> set (sv_ops ?s)" by (simp add: index_opens_def busy_def)
  from client_receives_file [OF site s th op disjI1 [OF refl] allowed run refl]
  have "outputs (deliver_step ?c) (sent_by 0) ?cs \<lparr>dl_server = ?s, dl_pipes = \<lambda>t. []\<rparr> = ?h @ page"
    by (simp add: idle_def index_name del: outputs.simps)
  moreover have "sv_threads (idle rtr c3 1) 0 = None" by (simp add: idle_def)
  ultimately show ?thesis using site(2) s run by blast
qed

end
