(* ===== verification/SdsFmt.thy ===== *)
theory SdsFmt
  imports SdsNum
begin

text \<open>
  Formatted text in sds strings (\<open>core/vendor/sds.c\<close>): \<open>sdscatprintf\<close> on top of \<open>vsnprintf\<close>, the
  escaped representation \<open>sdscatrepr\<close>, and \<open>sdscatfmt\<close>, which formats by itself.
\<close>

section \<open>Formatting with the C library\<close>

text \<open>
  The text \<open>printf\<close> makes of a format with an argument of one byte, for the two conversions used
  here, \<open>%c\<close> and \<open>%02x\<close>.
\<close>

definition hex_char :: "nat \<Rightarrow> byte" where
  "hex_char n = char_of (if n < 10 then 48 + n else 87 + n)"

function c_format :: "bytes \<Rightarrow> byte \<Rightarrow> bytes" where
  "c_format f v =
     (if f = [] then []
      else if take 2 f = ''%c'' then v # c_format (drop 2 f) v
      else if take 4 f = ''%02x'' then
        [hex_char (byte_val v div 16), hex_char (byte_val v mod 16)] @ c_format (drop 4 f) v
      else hd f # c_format (tl f) v)"
  by pat_completeness auto
termination by (relation "measure (\<lambda>(f, v). length f)") auto

declare c_format.simps [simp del]

text \<open>
  \<open>sdscatvprintf\<close>: \<open>out\<close> is the text \<open>vsnprintf\<close> makes.  It reports a negative length for a text
  that is longer than an \<open>int\<close> can say.  The text is made again in a larger buffer until it fits.
\<close>

function vprintf_loop :: "allocator \<Rightarrow> sds \<Rightarrow> nat \<Rightarrow> bytes \<Rightarrow> sds option option" where
  "vprintf_loop A s buflen out =
     (if 2 ^ 31 \<le> length out then Some None
      else if buflen \<le> length out then
        if al_ok A (length out + 1) then vprintf_loop A s (length out + 1) out else Some None
      else sdscatlen A s (out @ [NUL]) (length out))"
  by pat_completeness auto
termination by (relation "measure (\<lambda>(A, s, buflen, out). length out + 1 - buflen)") auto

declare vprintf_loop.simps [simp del]

definition sdscatvprintf :: "allocator \<Rightarrow> sds \<Rightarrow> bytes \<Rightarrow> bytes \<Rightarrow> sds option option" where
  "sdscatvprintf A s fmt out =
     (let buflen = sz (length fmt * 2)
      in if 1024 < buflen then if al_ok A buflen then vprintf_loop A s buflen out else Some None
         else vprintf_loop A s 1024 out)"

definition sdscatprintf :: "allocator \<Rightarrow> sds \<Rightarrow> bytes \<Rightarrow> byte \<Rightarrow> sds option option" where
  "sdscatprintf A s fmt c = sdscatvprintf A s fmt (c_format fmt c)"

lemma vprintf_loop_once:
  assumes "length out < 2 ^ 31" and "\<forall>k. al_ok A k"
  shows "vprintf_loop A s buflen out = sdscatlen A s (out @ [NUL]) (length out)"
  using assms by (subst vprintf_loop.simps, subst vprintf_loop.simps) simp

text \<open>Whatever the size of the first buffer, the whole text is appended.\<close>

lemma sdscatvprintf_spec:
  assumes "sds_rep s str" and "length str + length out < 2 ^ 62" and "length out < 2 ^ 31" and "\<forall>k. al_ok A k"
  shows "\<exists>s'. sdscatvprintf A s fmt out = Some (Some s') \<and> sds_rep s' (str @ out)"
  using sdscatlen_spec [OF assms(1,2), of "out @ [NUL]" A] assms(4)
  by (auto simp: sdscatvprintf_def Let_def vprintf_loop_once [OF assms(3,4)])

section \<open>The escaped representation\<close>

text \<open>\<open>isprint\<close> of the C locale, also for the bytes that are negative as a \<open>char\<close>.\<close>

definition c_isprint :: "byte \<Rightarrow> bool" where
  "c_isprint c \<longleftrightarrow> 32 \<le> byte_val c \<and> byte_val c < 127"

abbreviation BACKSLASH :: byte where "BACKSLASH \<equiv> CHR 0x5C"
abbreviation QUOTE :: byte where "QUOTE \<equiv> CHR 0x22"
abbreviation BEL :: byte where "BEL \<equiv> CHR 0x07"
abbreviation BS :: byte where "BS \<equiv> CHR 0x08"

definition repr_char :: "allocator \<Rightarrow> sds \<Rightarrow> byte \<Rightarrow> sds option option" where
  "repr_char A s c =
     (if c = BACKSLASH \<or> c = QUOTE then sdscatprintf A s [BACKSLASH, CHR ''%'', CHR ''c''] c
      else if c = LF then sdscatlen A s [BACKSLASH, CHR ''n''] 2
      else if c = CR then sdscatlen A s [BACKSLASH, CHR ''r''] 2
      else if c = HT then sdscatlen A s [BACKSLASH, CHR ''t''] 2
      else if c = BEL then sdscatlen A s [BACKSLASH, CHR ''a''] 2
      else if c = BS then sdscatlen A s [BACKSLASH, CHR ''b''] 2
      else if c_isprint c then sdscatprintf A s ''%c'' c
      else sdscatprintf A s (BACKSLASH # ''x%02x'') c)"

text \<open>A null string is used by the next append, which is a fault; only the last result is returned.\<close>

fun repr_loop :: "allocator \<Rightarrow> sds \<Rightarrow> bytes \<Rightarrow> sds option" where
  "repr_loop A s [] = Some s"
| "repr_loop A s (c # p) = do { r \<leftarrow> repr_char A s c; s \<leftarrow> r; repr_loop A s p }"

definition sdscatrepr :: "allocator \<Rightarrow> sds \<Rightarrow> bytes \<Rightarrow> nat \<Rightarrow> sds option option" where
  "sdscatrepr A s p len = do {
     r \<leftarrow> sdscatlen A s [QUOTE] 1;
     s \<leftarrow> r;
     p \<leftarrow> mem_read p 0 len;
     s \<leftarrow> repr_loop A s p;
     sdscatlen A s [QUOTE] 1
   }"

text \<open>What a byte and a string look like.\<close>

definition repr_of :: "byte \<Rightarrow> bytes" where
  "repr_of c =
     (if c = BACKSLASH \<or> c = QUOTE then [BACKSLASH, c]
      else if c = LF then [BACKSLASH, CHR ''n'']
      else if c = CR then [BACKSLASH, CHR ''r'']
      else if c = HT then [BACKSLASH, CHR ''t'']
      else if c = BEL then [BACKSLASH, CHR ''a'']
      else if c = BS then [BACKSLASH, CHR ''b'']
      else if c_isprint c then [c]
      else [BACKSLASH, CHR ''x'', hex_char (byte_val c div 16), hex_char (byte_val c mod 16)])"

definition repr_bytes :: "bytes \<Rightarrow> bytes" where
  "repr_bytes p = QUOTE # concat (map repr_of p) @ [QUOTE]"

lemma c_formats:
  "c_format [BACKSLASH, CHR ''%'', CHR ''c''] c = [BACKSLASH, c]" "c_format ''%c'' c = [c]"
  "c_format (BACKSLASH # ''x%02x'') c = [BACKSLASH, CHR ''x'', hex_char (byte_val c div 16), hex_char (byte_val c mod 16)]"
  by (simp_all add: c_format.simps [of "_ # _"] c_format.simps [of "[]"])

lemma length_repr_of: "length (repr_of c) \<le> 4"
  by (simp add: repr_of_def)

lemma length_reprs: "length (concat (map repr_of p)) \<le> 4 * length p"
proof (induction p)
  case (Cons c p)
  then show ?case using length_repr_of [of c] by simp
qed simp

lemma repr_char_spec:
  assumes "sds_rep s str" and "length str + 4 < 2 ^ 62" and "\<forall>k. al_ok A k"
  shows "\<exists>s'. repr_char A s c = Some (Some s') \<and> sds_rep s' (str @ repr_of c)"
proof -
  have lit: "\<exists>s'. sdscatlen A s [x, y] 2 = Some (Some s') \<and> sds_rep s' (str @ [x, y])" for x y
    using sdscatlen_spec [OF assms(1), of 2 "[x, y]" A] assms(2,3) by auto
  have fmt: "\<exists>s'. sdscatprintf A s f c = Some (Some s') \<and> sds_rep s' (str @ c_format f c)"
    if "length (c_format f c) \<le> 4" for f
    using sdscatvprintf_spec [OF assms(1) _ _ assms(3), of "c_format f c" f] assms(2) that
    by (simp add: sdscatprintf_def)
  show ?thesis
    using lit fmt [of "[BACKSLASH, CHR ''%'', CHR ''c'']"] fmt [of "''%c''"] fmt [of "BACKSLASH # ''x%02x''"]
    unfolding repr_char_def repr_of_def c_formats by simp
qed

lemma repr_loop_spec:
  "sds_rep s str \<Longrightarrow> length str + 4 * length p < 2 ^ 62 \<Longrightarrow> \<forall>k. al_ok A k \<Longrightarrow>
   \<exists>s'. repr_loop A s p = Some s' \<and> sds_rep s' (str @ concat (map repr_of p))"
proof (induction p arbitrary: s str)
  case (Cons c p)
  obtain s' where s': "repr_char A s c = Some (Some s')" "sds_rep s' (str @ repr_of c)"
    using repr_char_spec [OF Cons.prems(1) _ Cons.prems(3)] Cons.prems(2) by fastforce
  from Cons.IH [OF s'(2) _ Cons.prems(3)] Cons.prems(2) length_repr_of [of c] s'(1) show ?case by simp
qed simp

lemma sdscatrepr_spec:
  assumes "sds_rep s str" and "length str + 4 * len + 2 < 2 ^ 62" and "\<forall>k. al_ok A k" and "len \<le> length p"
  shows "\<exists>s'. sdscatrepr A s p len = Some (Some s') \<and> sds_rep s' (str @ repr_bytes (take len p))"
proof -
  have len: "length (take len p) = len" using assms(4) by simp
  obtain s1 where s1: "sdscatlen A s [QUOTE] 1 = Some (Some s1)" "sds_rep s1 (str @ [QUOTE])"
    using sdscatlen_spec [OF assms(1), of 1 "[QUOTE]" A] assms(2,3) by auto
  obtain s2 where s2: "repr_loop A s1 (take len p) = Some s2" "sds_rep s2 ((str @ [QUOTE]) @ concat (map repr_of (take len p)))"
    using repr_loop_spec [OF s1(2) _ assms(3), of "take len p"] assms(2) len by auto
  from length_reprs [of "take len p"] sdscatlen_spec [OF s2(2), of 1 "[QUOTE]" A] assms(2,3) len
  show ?thesis using s1(1) s2(1) assms(4) by (auto simp: sdscatrepr_def repr_bytes_def mem_read_def)
qed

section \<open>Formatting without the C library\<close>

text \<open>
  The variable arguments, by their sizes: a C string with its bytes, a string of this library, 32
  and 64 bits.  An argument of another kind than its conversion asks for is a fault.
\<close>

datatype va_arg = Va_str bytes | Va_sds sds | Va_32 "32 word" | Va_64 u64

text \<open>
  Bytes stored at \<open>i\<close>, which is the end of the string, with the length adjusted.  There is no NUL
  behind them until the end.  A null string from \<open>sdsMakeRoomFor\<close> is written to, a fault.
\<close>

definition fmt_room :: "allocator \<Rightarrow> sds \<Rightarrow> nat \<Rightarrow> sds option" where
  "fmt_room A s l = (if sdsavail s < l then do { r \<leftarrow> sdsMakeRoomFor A s l; r } else Some s)"

definition fmt_store :: "sds \<Rightarrow> nat \<Rightarrow> bytes \<Rightarrow> (sds \<times> nat) option" where
  "fmt_store s i src = do {
     buf \<leftarrow> mem_write (sd_buf s) i src;
     Some (sdsinclen (s\<lparr>sd_buf := buf\<rparr>) (length src), i + length src)
   }"

definition fmt_copy :: "allocator \<Rightarrow> sds \<Rightarrow> nat \<Rightarrow> bytes \<Rightarrow> nat \<Rightarrow> (sds \<times> nat) option" where
  "fmt_copy A s i src l = do {
     s \<leftarrow> fmt_room A s l;
     src \<leftarrow> mem_read src 0 l;
     fmt_store s i src
   }"

text \<open>A conversion: \<open>buf\<close> is the content of the uninitialised array a number is printed into.\<close>

definition fmt_conversion ::
  "allocator \<Rightarrow> bytes \<Rightarrow> byte \<Rightarrow> va_arg list \<Rightarrow> sds \<Rightarrow> nat \<Rightarrow> ((sds \<times> nat) \<times> va_arg list) option" where
  "fmt_conversion A buf next args s i =
     (if next = CHR ''s'' then
        (case args of Va_str str # args \<Rightarrow> do { r \<leftarrow> fmt_copy A s i str (length (c_str str)); Some (r, args) } | _ \<Rightarrow> None)
      else if next = CHR ''S'' then
        (case args of Va_sds t # args \<Rightarrow> do { r \<leftarrow> fmt_copy A s i (sd_buf t) (sdslen t); Some (r, args) } | _ \<Rightarrow> None)
      else if next = CHR ''i'' then
        (case args of Va_32 n # args \<Rightarrow> do {
           (b, l) \<leftarrow> sdsll2str buf (scast n); r \<leftarrow> fmt_copy A s i b l; Some (r, args) } | _ \<Rightarrow> None)
      else if next = CHR ''I'' then
        (case args of Va_64 n # args \<Rightarrow> do {
           (b, l) \<leftarrow> sdsll2str buf n; r \<leftarrow> fmt_copy A s i b l; Some (r, args) } | _ \<Rightarrow> None)
      else if next = CHR ''u'' then
        (case args of Va_32 n # args \<Rightarrow> do {
           (b, l) \<leftarrow> sdsull2str buf (ucast n); r \<leftarrow> fmt_copy A s i b l; Some (r, args) } | _ \<Rightarrow> None)
      else if next = CHR ''U'' then
        (case args of Va_64 n # args \<Rightarrow> do {
           (b, l) \<leftarrow> sdsull2str buf n; r \<leftarrow> fmt_copy A s i b l; Some (r, args) } | _ \<Rightarrow> None)
      else do { r \<leftarrow> fmt_store s i [next]; Some (r, args) })"

text \<open>The loop over the format; a \<open>%\<close> at its end is dropped.\<close>

fun fmt_loop :: "allocator \<Rightarrow> bytes \<Rightarrow> bytes \<Rightarrow> va_arg list \<Rightarrow> sds \<Rightarrow> nat \<Rightarrow> (sds \<times> nat) option" where
  "fmt_loop A buf [] args s i = Some (s, i)"
| "fmt_loop A buf (c # f) args s i = do {
     s \<leftarrow> (if sdsavail s = 0 then do { r \<leftarrow> sdsMakeRoomFor A s 1; r } else Some s);
     if c = CHR ''%'' then
       (case f of
          [] \<Rightarrow> Some (s, i)
        | next # f \<Rightarrow> do {
            ((s, i), args) \<leftarrow> fmt_conversion A buf next args s i;
            fmt_loop A buf f args s i
          })
     else do { (s, i) \<leftarrow> fmt_store s i [c]; fmt_loop A buf f args s i }
   }"

definition sdscatfmt :: "allocator \<Rightarrow> bytes \<Rightarrow> sds \<Rightarrow> bytes \<Rightarrow> va_arg list \<Rightarrow> sds option" where
  "sdscatfmt A buf s fmt args = do {
     let initlen = sdslen s;
     r \<leftarrow> sdsMakeRoomFor A s (sz (initlen + length (c_str fmt) * 2));
     s \<leftarrow> r;
     (s, i) \<leftarrow> fmt_loop A buf (c_str fmt) args s initlen;
     b \<leftarrow> mem_write (sd_buf s) i [NUL];
     Some (s\<lparr>sd_buf := b\<rparr>)
   }"

text \<open>The text a format stands for.\<close>

definition conversion_text :: "byte \<Rightarrow> va_arg list \<Rightarrow> (bytes \<times> va_arg list) option" where
  "conversion_text next args =
     (if next = CHR ''s'' then (case args of Va_str str # args \<Rightarrow> Some (c_str str, args) | _ \<Rightarrow> None)
      else if next = CHR ''S'' then (case args of Va_sds t # args \<Rightarrow> Some (sds_bytes t, args) | _ \<Rightarrow> None)
      else if next = CHR ''i'' then (case args of Va_32 n # args \<Rightarrow> Some (decimal (sint n), args) | _ \<Rightarrow> None)
      else if next = CHR ''I'' then (case args of Va_64 n # args \<Rightarrow> Some (decimal (sint n), args) | _ \<Rightarrow> None)
      else if next = CHR ''u'' then (case args of Va_32 n # args \<Rightarrow> Some (digits (unat n), args) | _ \<Rightarrow> None)
      else if next = CHR ''U'' then (case args of Va_64 n # args \<Rightarrow> Some (digits (unat n), args) | _ \<Rightarrow> None)
      else Some ([next], args))"

fun fmt_text :: "bytes \<Rightarrow> va_arg list \<Rightarrow> bytes option" where
  "fmt_text [] args = Some []"
| "fmt_text (c # f) args =
     (if c = CHR ''%'' then
        (case f of
           [] \<Rightarrow> Some []
         | next # f \<Rightarrow> do { (t, args) \<leftarrow> conversion_text next args; u \<leftarrow> fmt_text f args; Some (t @ u) })
      else do { u \<leftarrow> fmt_text f args; Some (c # u) })"

lemma fmt_room_spec:
  assumes "sds_ends c s str" and "length str + l < 2 ^ 62" and "\<forall>k. al_ok A k"
  shows "\<exists>s'. fmt_room A s l = Some s' \<and> sds_ends c s' str \<and> length str + l \<le> sdsalloc s'"
proof (cases "sdsavail s < l")
  case True
  with sdsMakeRoomFor_ends [OF assms(1,2), of A] assms(3) show ?thesis by (auto simp: fmt_room_def)
next
  case False
  with sds_ends_avail [OF assms(1)] assms(1) show ?thesis by (auto simp: fmt_room_def sds_ends_def)
qed

lemma fmt_store_spec:
  assumes "sds_ends c s str" and "length str + length src \<le> sdsalloc s"
  shows "\<exists>s' c'. fmt_store s (length str) src = Some (s', length str + length src) \<and> sds_ends c' s' (str @ src)"
proof -
  let ?b = "sd_buf s" and ?n = "length str + length src"
  have b: "Suc (sdsalloc s) \<le> length ?b" "take (Suc (length str)) ?b = str @ [c]" "sdsalloc s < 2 ^ len_bits (sd_type s)"
    "sd_len s = length str" using assms(1) by (simp_all add: sds_ends_def)
  have tk: "take (length str) ?b = str" using sds_ends_read(1) [OF assms(1)] by (simp add: fault_simps)
  have w: "mem_write ?b (length str) src = Some (str @ src @ drop ?n ?b)"
    using b(1) assms(2) tk by (simp add: mem_write_def)
  have "take (Suc ?n) (str @ src @ drop ?n ?b) = (str @ src) @ [?b ! ?n]"
    using b(1) assms(2) by (simp add: take_Suc_conv_app_nth [of 0] hd_drop_conv_nth take_Suc)
  moreover have "?n mod 2 ^ len_bits (sd_type s) = ?n" using b(3) assms(2) by simp
  ultimately have "sds_ends (?b ! ?n) (sdsinclen (s\<lparr>sd_buf := str @ src @ drop ?n ?b\<rparr>) (length src)) (str @ src)"
    using b assms by (auto simp: sds_ends_def sdsinclen_def sdsalloc_def)
  then show ?thesis using w by (auto simp: fmt_store_def)
qed

lemma fmt_copy_spec:
  assumes "sds_ends c s str" and "length str + l < 2 ^ 62" and "\<forall>k. al_ok A k" and "l \<le> length src"
  shows "\<exists>s' c'. fmt_copy A s (length str) src l = Some (s', length str + l) \<and> sds_ends c' s' (str @ take l src)"
proof -
  obtain s1 where s1: "fmt_room A s l = Some s1" "sds_ends c s1 str" "length str + l \<le> sdsalloc s1"
    using fmt_room_spec [OF assms(1-3)] by blast
  have "length (take l src) = l" using assms(4) by simp
  with fmt_store_spec [OF s1(2), of "take l src"] s1(1,3) assms(4) show ?thesis
    by (auto simp: fmt_copy_def mem_read_def)
qed

lemma extended:
  fixes n :: "32 word"
  shows "unat (ucast n :: u64) = unat n" and "sint (scast n :: u64) = sint n"
proof -
  have "uint (ucast n :: u64) = uint n" by (rule uint_up_ucast) (simp add: is_up)
  then show "unat (ucast n :: u64) = unat n" by (simp only: unat_eq_nat_uint)
  show "sint (scast n :: u64) = sint n" by (rule sint_up_scast) (simp add: is_up)
qed

lemma digits_32: "length (digits (unat (n :: 32 word))) \<le> 20" "length (decimal (sint (n :: 32 word))) \<le> 20"
  using digits_u64 [of "ucast n"] length_decimal_u64 [of "scast n"] by (simp_all only: extended)

lemma number_copied:
  assumes "f = Some (t @ NUL # rest, length t)" and "length t \<le> 20" and "sds_ends c s str"
    and "length str + 20 < 2 ^ 62" and "\<forall>k. al_ok A k"
  shows "\<exists>s' c'. (do { (b, l) \<leftarrow> f; r \<leftarrow> fmt_copy A s (length str) b l; Some (r, args) }) =
      Some ((s', length str + length t), args) \<and> sds_ends c' s' (str @ t)"
  using fmt_copy_spec [OF assms(3) _ assms(5), of "length t" "t @ NUL # rest"] assms(1,2,4) by auto

lemma conversion_cases:
  assumes "conversion_text next args = Some (t, args')"
  obtains (str) x where "next = CHR ''s''" "args = Va_str x # args'" "t = c_str x"
  | (sds) x where "next = CHR ''S''" "args = Va_sds x # args'" "t = sds_bytes x"
  | (int) n where "next = CHR ''i''" "args = Va_32 n # args'" "t = decimal (sint n)"
  | (long) n where "next = CHR ''I''" "args = Va_64 n # args'" "t = decimal (sint n)"
  | (uint) n where "next = CHR ''u''" "args = Va_32 n # args'" "t = digits (unat n)"
  | (ulong) n where "next = CHR ''U''" "args = Va_64 n # args'" "t = digits (unat n)"
  | (other) "next \<notin> {CHR ''s'', CHR ''S'', CHR ''i'', CHR ''I'', CHR ''u'', CHR ''U''}" "args' = args" "t = [next]"
  using assms unfolding conversion_text_def by (auto split: if_splits list.splits va_arg.splits)

lemma fmt_conversion_spec:
  assumes "conversion_text next args = Some (t, args')" and s: "sds_ends c s str" and room: "length str < sdsalloc s"
    and len: "length str + length t + 20 < 2 ^ 62" and A: "\<forall>k. al_ok A k" and buf: "21 \<le> length buf"
    and held: "\<forall>x. Va_sds x \<in> set args \<longrightarrow> sds_rep x (sds_bytes x)"
  shows "\<exists>s' c'. fmt_conversion A buf next args s (length str) = Some ((s', length str + length t), args') \<and>
    sds_ends c' s' (str @ t)"
  using assms(1)
proof (cases rule: conversion_cases)
  case (str x)
  have x: "take (length (c_str x)) x = c_str x" "length (c_str x) \<le> length x"
    by (simp_all only: c_str_def takeWhile_eq_take [symmetric] length_takeWhile_le)
  have "length str + length (c_str x) < 2 ^ 62" using len str(3) by simp
  from fmt_copy_spec [OF s this A x(2)] show ?thesis by (auto simp: fmt_conversion_def str x(1))
next
  case (sds x)
  then have "sds_rep x t" using held by simp
  then have x: "sdslen x = length t" "length t \<le> length (sd_buf x)" "take (length t) (sd_buf x) = t"
    using sds_rep_read(1) [of x t] by (simp_all add: fault_simps)
  have "length str + length t < 2 ^ 62" using len by simp
  from fmt_copy_spec [OF s this A x(2)] x show ?thesis by (auto simp: fmt_conversion_def sds(1,2))
next
  case (int n)
  obtain rest where "sdsll2str buf (scast n) = Some (t @ NUL # rest, length t)"
    using sdsll2str_spec [OF buf, of "scast n"] int(3) extended(2) [of n] by auto
  with number_copied [OF this _ s _ A, of args'] len digits_32(2) [of n] int show ?thesis
    by (simp add: fmt_conversion_def)
next
  case (long n)
  obtain rest where "sdsll2str buf n = Some (t @ NUL # rest, length t)" using sdsll2str_spec [OF buf, of n] long(3) by auto
  with number_copied [OF this _ s _ A, of args'] len length_decimal_u64 [of n] long show ?thesis
    by (simp add: fmt_conversion_def)
next
  case (uint n)
  obtain rest where "sdsull2str buf (ucast n) = Some (t @ NUL # rest, length t)"
    using sdsull2str_spec [OF buf, of "ucast n"] uint(3) extended(1) [of n] by auto
  with number_copied [OF this _ s _ A, of args'] len digits_32(1) [of n] uint show ?thesis
    by (simp add: fmt_conversion_def)
next
  case (ulong n)
  obtain rest where "sdsull2str buf n = Some (t @ NUL # rest, length t)" using sdsull2str_spec [OF buf, of n] ulong(3) by auto
  with number_copied [OF this _ s _ A, of args'] len digits_u64 [of n] ulong show ?thesis
    by (simp add: fmt_conversion_def)
next
  case other
  with fmt_store_spec [OF s, of "[next]"] room show ?thesis by (fastforce simp: fmt_conversion_def)
qed

lemma conversion_rest: "conversion_text next args = Some (t, args') \<Longrightarrow> set args' \<subseteq> set args"
  by (cases rule: conversion_cases) auto

lemma fmt_loop_spec:
  "fmt_text f args = Some out \<Longrightarrow> sds_ends c s str \<Longrightarrow> length str + length out + 21 < 2 ^ 62 \<Longrightarrow> \<forall>k. al_ok A k \<Longrightarrow>
   21 \<le> length buf \<Longrightarrow> \<forall>x. Va_sds x \<in> set args \<longrightarrow> sds_rep x (sds_bytes x) \<Longrightarrow>
   \<exists>s' c'. fmt_loop A buf f args s (length str) = Some (s', length str + length out) \<and> sds_ends c' s' (str @ out)"
proof (induction f args arbitrary: out c s str rule: fmt_text.induct)
  case (2 b f args)
  note A = "2.prems"(4) and buf = "2.prems"(5) and held = "2.prems"(6)
  obtain s1 where s1: "fmt_room A s 1 = Some s1" "sds_ends c s1 str" "length str < sdsalloc s1"
    using fmt_room_spec [OF "2.prems"(2), of 1 A] "2.prems"(3) A by auto
  have room: "(if sdsavail s = 0 then do { r \<leftarrow> sdsMakeRoomFor A s 1; r } else Some s) = Some s1"
    using s1(1) by (cases "sdsavail s = 0") (simp_all add: fmt_room_def)
  note loop = fmt_loop.simps(2) [of A buf b f args s, unfolded room, unfolded Option.bind.bind_lunit]
  show ?case
  proof (cases "b = CHR ''%''")
    case False
    then obtain u where u: "fmt_text f args = Some u" "out = b # u" using "2.prems"(1) by (auto simp: fault_simps)
    obtain s2 c2 where s2: "fmt_store s1 (length str) [b] = Some (s2, length str + 1)" "sds_ends c2 s2 (str @ [b])"
      using fmt_store_spec [OF s1(2), of "[b]"] s1(3) by auto
    from "2.IH"(2) [OF False u(1) s2(2) _ A buf held] "2.prems"(3) u(2) s2(1) False show ?thesis by (simp add: loop del: fmt_loop.simps)
  next
    case True
    show ?thesis
    proof (cases f)
      case Nil
      with True "2.prems"(1) s1(2) show ?thesis unfolding loop by auto
    next
      case (Cons nxt g)
      with True "2.prems"(1) obtain t args' u where t: "conversion_text nxt args = Some (t, args')"
        "fmt_text g args' = Some u" "out = t @ u" by (auto simp: fault_simps)
      obtain s2 c2 where s2: "fmt_conversion A buf nxt args s1 (length str) = Some ((s2, length str + length t), args')"
        "sds_ends c2 s2 (str @ t)"
        using fmt_conversion_spec [OF t(1) s1(2,3) _ A buf held] "2.prems"(3) t(3) by auto
      have "\<forall>x. Va_sds x \<in> set args' \<longrightarrow> sds_rep x (sds_bytes x)" using held conversion_rest [OF t(1)] by blast
      from "2.IH"(1) [OF True Cons t(1) refl t(2) s2(2) _ A buf this] "2.prems"(3) t(3) s2(1) True Cons
      show ?thesis unfolding loop by (simp add: add.assoc del: fmt_loop.simps)
    qed
  qed
qed auto

lemma sds_terminate:
  assumes "sds_ends c s str"
  shows "\<exists>b. mem_write (sd_buf s) (length str) [NUL] = Some b \<and> sds_rep (s\<lparr>sd_buf := b\<rparr>) str"
proof -
  have "Suc (length str) \<le> length (sd_buf s)" "take (length str) (sd_buf s) = str"
    using assms sds_ends_read(1) [OF assms] by (auto simp: sds_ends_def fault_simps)
  with assms show ?thesis by (auto simp: mem_write_def sds_rep_def sds_ends_def sdsalloc_def)
qed

section \<open>Properties\<close>

text \<open>
  \<open>sdscatfmt\<close> appends exactly the text its format stands for: numbers of 32 and 64 bits in decimal,
  signed or not, C strings, strings of the library, and everything else as it is, through strings
  and arrays that grow while they have no NUL at their end.
\<close>

theorem sdscatfmt_formats:
  assumes "\<forall>k. al_ok A k" and "21 \<le> length buf" and "sds_rep s str" and "fmt_text (c_str fmt) args = Some out"
    and "\<forall>x. Va_sds x \<in> set args \<longrightarrow> sds_rep x (sds_bytes x)"
    and "2 * length str + 2 * length (c_str fmt) + length out + 21 < 2 ^ 62"
  shows "\<exists>s'. sdscatfmt A buf s fmt args = Some s' \<and> sds_rep s' (str @ out)"
proof -
  have "length str + length (c_str fmt) * 2 < SIZE_MOD" using assms(6) by simp
  then have sz: "sz (length str + length (c_str fmt) * 2) = length str + length (c_str fmt) * 2" by simp
  obtain s1 where s1: "sdsMakeRoomFor A s (length str + length (c_str fmt) * 2) = Some (Some s1)" "sds_rep s1 str"
    using sdsMakeRoomFor_spec [OF assms(3), of "length str + length (c_str fmt) * 2" A] assms(1,6) by auto
  obtain s2 c where s2: "fmt_loop A buf (c_str fmt) args s1 (length str) = Some (s2, length (str @ out))"
    "sds_ends c s2 (str @ out)"
    using fmt_loop_spec [OF assms(4) s1(2) [unfolded sds_rep_ends] _ assms(1,2,5)] assms(6) by auto
  obtain b where "mem_write (sd_buf s2) (length (str @ out)) [NUL] = Some b" "sds_rep (s2\<lparr>sd_buf := b\<rparr>) (str @ out)"
    using sds_terminate [OF s2(2)] by blast
  then show ?thesis using s1(1) s2(1) sds_rep_len [OF assms(3)] sz by (simp add: sdscatfmt_def)
qed

text \<open>The example of the tests in the source, which expect 60 bytes.\<close>

theorem sdscatfmt_formats_witness:
  "\<exists>s s'. sds_rep s ''--'' \<and>
     sdscatfmt std_alloc (replicate 21 NUL) s ''Hello %s World %I,%I--'' [Va_str ''Hi!'', Va_64 (2 ^ 63), Va_64 (2 ^ 63 - 1)] = Some s' \<and>
     sds_rep s' (''--'' @ ''Hello Hi! World -9223372036854775808,9223372036854775807--'')"
proof -
  let ?args = "[Va_str ''Hi!'', Va_64 (2 ^ 63), Va_64 (2 ^ 63 - 1)]" and ?fmt = "''Hello %s World %I,%I--''"
    and ?out = "''Hello Hi! World -9223372036854775808,9223372036854775807--''"
  obtain s where s: "sds_rep s ''--''" using sdsnewlen_bytes [of 2 "''--''" std_alloc] by auto
  have "fmt_text (c_str ?fmt) ?args = Some ?out"
    by (simp add: c_str_def conversion_text_def decimal_def digits.simps char_of_def bit_0)
  from sdscatfmt_formats [of std_alloc "replicate 21 NUL" s "''--''", OF _ _ s this] s show ?thesis
    by (auto simp: c_str_def)
qed

end
