(* ===== verification/SdsArgs.thy ===== *)
theory SdsArgs
  imports SdsFmt
begin

text \<open>
  \<open>sdssplitargs\<close> of \<open>core/vendor/sds.c\<close>: a line is split at white space into arguments, which may
  be quoted.  The line is a C string; a pointer into it is the part of the line it points to, the
  terminating NUL being where nothing is left.
\<close>

section \<open>Operations\<close>

definition is_hex_digit :: "byte \<Rightarrow> bool" where
  "is_hex_digit c \<longleftrightarrow>
     (48 \<le> byte_val c \<and> byte_val c \<le> 57) \<or> (97 \<le> byte_val c \<and> byte_val c \<le> 102) \<or>
     (65 \<le> byte_val c \<and> byte_val c \<le> 70)"

definition hex_digit_to_int :: "byte \<Rightarrow> nat" where
  "hex_digit_to_int c =
     (if 48 \<le> byte_val c \<and> byte_val c \<le> 57 then byte_val c - 48
      else if 97 \<le> byte_val c \<and> byte_val c \<le> 102 then byte_val c - 87
      else if 65 \<le> byte_val c \<and> byte_val c \<le> 70 then byte_val c - 55
      else 0)"

text \<open>\<open>isspace\<close> of the C locale.\<close>

definition c_isspace :: "byte \<Rightarrow> bool" where
  "c_isspace c \<longleftrightarrow> c = SP \<or> (9 \<le> byte_val c \<and> byte_val c \<le> 13)"

abbreviation APOSTROPHE :: byte where "APOSTROPHE \<equiv> CHR 0x27"

text \<open>
  \<open>*(p + n)\<close>.  The code looks at a byte only after it has found that the bytes before it are not
  the NUL, so that it stays inside the line.
\<close>

definition peek :: "bytes \<Rightarrow> nat \<Rightarrow> byte" where
  "peek p n = (if n < length p then p ! n else NUL)"

definition unescape :: "byte \<Rightarrow> byte" where
  "unescape c =
     (if c = CHR ''n'' then LF else if c = CHR ''r'' then CR else if c = CHR ''t'' then HT
      else if c = CHR ''b'' then BS else if c = CHR ''a'' then BEL else c)"

text \<open>
  The body of the loop over one token, by what it does with the byte at \<open>p\<close>: an error, the end of
  the token, a byte added after which \<open>p\<close> has moved by so many places, or a quote opened.  \<open>inq\<close> and
  \<open>insq\<close> say whether it is inside quotes.
\<close>

datatype token_action = Fails | Ends | Adds byte nat | Opens bool bool

definition token_step :: "bytes \<Rightarrow> bool \<Rightarrow> bool \<Rightarrow> token_action" where
  "token_step p inq insq =
     (if inq then
        if peek p 0 = BACKSLASH \<and> peek p 1 = CHR ''x'' \<and> is_hex_digit (peek p 2) \<and> is_hex_digit (peek p 3)
        then Adds (char_of (hex_digit_to_int (peek p 2) * 16 + hex_digit_to_int (peek p 3))) 4
        else if peek p 0 = BACKSLASH \<and> peek p 1 \<noteq> NUL then Adds (unescape (peek p 1)) 2
        else if peek p 0 = QUOTE then if peek p 1 \<noteq> NUL \<and> \<not> c_isspace (peek p 1) then Fails else Ends
        else if peek p 0 = NUL then Fails
        else Adds (peek p 0) 1
      else if insq then
        if peek p 0 = BACKSLASH \<and> peek p 1 = APOSTROPHE then Adds APOSTROPHE 2
        else if peek p 0 = APOSTROPHE then if peek p 1 \<noteq> NUL \<and> \<not> c_isspace (peek p 1) then Fails else Ends
        else if peek p 0 = NUL then Fails
        else Adds (peek p 0) 1
      else
        if peek p 0 \<in> {SP, LF, CR, HT, NUL} then Ends
        else if peek p 0 = QUOTE then Opens True insq
        else if peek p 0 = APOSTROPHE then Opens inq True
        else Adds (peek p 0) 1)"

lemma token_step_moves: "token_step p inq insq = Adds c n \<Longrightarrow> 0 < n \<and> p \<noteq> []"
  "token_step p inq insq = Opens a b \<Longrightarrow> p \<noteq> []"
  by (auto simp: token_step_def peek_def split: if_splits)

text \<open>
  The loop: \<open>current\<close> is what the token has so far.  Its last statement moves past the byte unless
  it is the NUL.
\<close>

datatype token_result = Unbalanced | Token "sds option" bytes

function token_loop :: "allocator \<Rightarrow> bytes \<Rightarrow> bool \<Rightarrow> bool \<Rightarrow> sds option \<Rightarrow> token_result option" where
  "token_loop A p inq insq current =
     (case token_step p inq insq of
        Fails \<Rightarrow> Some Unbalanced
      | Ends \<Rightarrow> Some (Token current (drop 1 p))
      | Adds c n \<Rightarrow> do {
          s \<leftarrow> current;
          current \<leftarrow> sdscatlen A s [c] 1;
          token_loop A (drop n p) inq insq current
        }
      | Opens inq insq \<Rightarrow> token_loop A (drop 1 p) inq insq current)"
  by pat_completeness auto
termination
  by (relation "measure (\<lambda>(A, p, inq, insq, current). length p)") (auto dest: token_step_moves)

declare token_loop.simps [simp del]

lemma token_loop_end: "token_loop A [] inq insq cur = Some (if inq \<or> insq then Unbalanced else Token cur [])"
  by (subst token_loop.simps) (simp add: token_step_def peek_def)

lemma token_loop_shorter:
  "token_loop A p inq insq cur = Some (Token t q) \<Longrightarrow> p \<noteq> [] \<Longrightarrow> length q < length p"
proof (induction A p inq insq cur rule: token_loop.induct)
  case (1 A p inq insq cur)
  show ?case
  proof (cases "token_step p inq insq")
    case (Adds c n)
    then obtain s r where s: "cur = Some s" "sdscatlen A s [c] 1 = Some r" "token_loop A (drop n p) inq insq r = Some (Token t q)"
      using "1.prems"(1) by (subst (asm) token_loop.simps) (auto simp: fault_simps)
    from token_step_moves(1) [OF Adds] "1.IH"(1) [OF Adds s] s(3) show ?thesis
      by (cases "drop n p = []") (auto simp: token_loop_end split: if_splits)
  next
    case (Opens a b)
    then have s: "token_loop A (drop 1 p) a b cur = Some (Token t q)"
      using "1.prems"(1) by (subst (asm) token_loop.simps) simp
    from token_step_moves(2) [OF Opens] "1.IH"(2) [OF Opens s] s show ?thesis
      by (cases "drop 1 p = []") (auto simp: token_loop_end split: if_splits)
  qed (use "1.prems" in \<open>auto simp: token_loop.simps [of A p]\<close>)
qed

text \<open>
  The outer loop, with the tokens so far; \<open>*argc\<close> is their number, and the array is null before the
  first.  An array that cannot be grown is written to all the same.  On unbalanced quotes everything
  is freed, \<open>*argc\<close> having been counted down past zero.
\<close>

function args_loop :: "allocator \<Rightarrow> bytes \<Rightarrow> sds option list \<Rightarrow> (sds option list option \<times> int) option" where
  "args_loop A p vector =
     (let p = dropWhile c_isspace p
      in if p = [] then
           if vector = [] \<and> \<not> al_ok A 8 then Some (None, 0) else Some (Some vector, int (length vector))
         else do {
           current \<leftarrow> sdsempty A;
           r \<leftarrow> token_loop A p False False current;
           (case r of
              Unbalanced \<Rightarrow> Some (None, - 1)
            | Token current p \<Rightarrow> do {
                guard (al_ok A ((length vector + 1) * 8));
                args_loop A p (vector @ [current])
              })
         })"
  by pat_completeness auto
termination
proof (relation "measure (\<lambda>(A, p, vector). length p)")
  fix A p vector q :: "_" and cur t r and u :: unit and p' :: bytes
  assume "q = dropWhile c_isspace p" "q \<noteq> []" "token_loop A q False False cur = Some r" "r = Token t p'"
  then have "length p' < length q" "length q \<le> length p" by (simp_all add: token_loop_shorter length_dropWhile_le)
  then show "((A, p', vector @ [t]), A, p, vector) \<in> measure (\<lambda>(A, p, vector). length p)" by simp
qed simp

declare args_loop.simps [simp del]

definition sdssplitargs :: "allocator \<Rightarrow> bytes \<Rightarrow> (sds option list option \<times> int) option" where
  "sdssplitargs A line = args_loop A (c_str line) []"

section \<open>Splitting what has been printed\<close>

lemma hex_char_digit:
  assumes "n < 16"
  shows "is_hex_digit (hex_char n)" and "hex_digit_to_int (hex_char n) = n" and "hex_char n \<noteq> NUL"
proof -
  have v: "byte_val (hex_char n) = (if n < 10 then 48 + n else 87 + n)" using assms by (simp add: hex_char_def)
  with assms show "is_hex_digit (hex_char n)" "hex_digit_to_int (hex_char n) = n"
    by (simp_all add: is_hex_digit_def hex_digit_to_int_def)
  have "byte_val (hex_char n) \<noteq> byte_val NUL" using v by simp
  then show "hex_char n \<noteq> NUL" by auto
qed

lemma nibble: "byte_val c div 16 < 16"
  using byte_val_less [of c] by (simp add: less_mult_imp_div_less)

lemma repr_of_step: "token_step (repr_of c @ rest) True False = Adds c (length (repr_of c))"
proof -
  have hex: "is_hex_digit (hex_char (byte_val c div 16))" "is_hex_digit (hex_char (byte_val c mod 16))"
    "hex_digit_to_int (hex_char (byte_val c div 16)) = byte_val c div 16"
    "hex_digit_to_int (hex_char (byte_val c mod 16)) = byte_val c mod 16"
    using hex_char_digit [OF nibble [of c]] hex_char_digit [of "byte_val c mod 16"] by simp_all
  have "c \<noteq> NUL" if "c_isprint c" using that by (auto simp: c_isprint_def)
  with hex show ?thesis by (simp add: repr_of_def token_step_def peek_def unescape_def)
qed

lemma repr_of_no_NUL: "NUL \<notin> set (repr_of c)"
proof -
  have "NUL \<noteq> hex_char (byte_val c div 16)" "NUL \<noteq> hex_char (byte_val c mod 16)"
    using hex_char_digit(3) [OF nibble [of c]] hex_char_digit(3) [of "byte_val c mod 16"] by (metis mod_less_divisor zero_less_numeral)+
  moreover have "NUL \<noteq> c" if "c_isprint c" using that by (auto simp: c_isprint_def)
  moreover have "NUL \<noteq> c" if "c = BACKSLASH \<or> c = QUOTE" using that by auto
  ultimately show ?thesis by (simp add: repr_of_def)
qed

text \<open>The quotes that end a token are followed by a blank or by the end of the line.\<close>

lemma token_repr:
  assumes "rest = [] \<or> c_isspace (hd rest)" and "\<forall>k. al_ok A k"
  shows "sds_rep s str \<Longrightarrow> length str + length p < 2 ^ 62 \<Longrightarrow>
    \<exists>s'. token_loop A (concat (map repr_of p) @ QUOTE # rest) True False (Some s) = Some (Token (Some s') rest) \<and>
      sds_rep s' (str @ p)"
proof (induction p arbitrary: s str)
  case Nil
  have "token_step (QUOTE # rest) True False = Ends"
    using assms(1) by (auto simp: token_step_def peek_def hd_conv_nth)
  with Nil(1) show ?case by (simp add: token_loop.simps [of A "QUOTE # rest"])
next
  case (Cons c p)
  obtain s1 where s1: "sdscatlen A s [c] 1 = Some (Some s1)" "sds_rep s1 (str @ [c])"
    using sdscatlen_spec [OF Cons.prems(1), of 1 "[c]" A] Cons.prems(2) assms(2) by auto
  obtain s' where "token_loop A (concat (map repr_of p) @ QUOTE # rest) True False (Some s1) = Some (Token (Some s') rest)"
    "sds_rep s' ((str @ [c]) @ p)" using Cons.IH [OF s1(2)] Cons.prems(2) by auto
  with s1(1) show ?case
    by (simp add: token_loop.simps [of A "repr_of c @ _"] repr_of_step)
qed

text \<open>A line of printed strings, each followed by a blank.\<close>

definition args_line :: "bytes list \<Rightarrow> bytes" where
  "args_line ps = concat (map (\<lambda>p. repr_bytes p @ [SP]) ps)"

lemma args_loop_blank: "args_loop A (SP # line) vector = args_loop A line vector"
  by (simp add: args_loop.simps [of A "SP # line"] args_loop.simps [of A line] c_isspace_def)

lemma args_loop_line:
  assumes "\<forall>k. al_ok A k"
  shows "\<forall>p\<in>set ps. length p < 2 ^ 62 \<Longrightarrow>
    \<exists>ts. args_loop A (args_line ps) vector = Some (Some (vector @ map Some ts), int (length vector + length ps)) \<and>
      list_all2 sds_rep ts ps"
proof (induction ps arbitrary: vector)
  case Nil
  then show ?case using assms by (auto simp: args_line_def args_loop.simps [of A "[]"])
next
  case (Cons p ps)
  let ?rest = "SP # args_line ps" and ?body = "concat (map repr_of p) @ QUOTE # SP # args_line ps"
  have line: "args_line (p # ps) = QUOTE # ?body" by (simp add: args_line_def repr_bytes_def)
  obtain e where e: "sdsempty A = Some (Some e)" "sds_rep e []"
    using sdsnewlen_bytes [of 0 "[]" A] assms by (auto simp: sdsempty_def)
  have "c_isspace (hd ?rest)" by (simp add: c_isspace_def)
  then obtain t where t: "token_loop A ?body True False (Some e) = Some (Token (Some t) ?rest)" "sds_rep t p"
    using token_repr [of ?rest A e "[]" p] assms e(2) Cons.prems by auto
  have "token_step (QUOTE # ?body) False False = Opens True False" by (simp add: token_step_def peek_def)
  with t(1) have "token_loop A (QUOTE # ?body) False False (Some e) = Some (Token (Some t) ?rest)"
    by (simp add: token_loop.simps [of A "QUOTE # _"])
  then have "args_loop A (args_line (p # ps)) vector = args_loop A (args_line ps) (vector @ [Some t])"
    using e(1) assms by (simp add: args_loop.simps [of A "QUOTE # _"] line c_isspace_def args_loop_blank)
  moreover obtain ts where "args_loop A (args_line ps) (vector @ [Some t]) =
      Some (Some ((vector @ [Some t]) @ map Some ts), int (length (vector @ [Some t]) + length ps))" "list_all2 sds_rep ts ps"
    using Cons.IH [of "vector @ [Some t]"] Cons.prems by auto
  ultimately show ?case using t(2) by (intro exI [of _ "t # ts"]) simp
qed

section \<open>Properties\<close>

text \<open>Printing strings one after the other, with a blank after each.\<close>

fun print_args :: "allocator \<Rightarrow> sds \<Rightarrow> bytes list \<Rightarrow> sds option" where
  "print_args A s [] = Some s"
| "print_args A s (p # ps) = do {
     r \<leftarrow> sdscatrepr A s p (length p);
     s \<leftarrow> r;
     r \<leftarrow> sdscatlen A s [SP] 1;
     s \<leftarrow> r;
     print_args A s ps
   }"

lemma print_args_spec:
  assumes "\<forall>k. al_ok A k"
  shows "sds_rep s str \<Longrightarrow> length str + (\<Sum>p\<leftarrow>ps. 4 * length p + 3) < 2 ^ 62 \<Longrightarrow>
    \<exists>s'. print_args A s ps = Some s' \<and> sds_rep s' (str @ args_line ps)"
proof (induction ps arbitrary: s str)
  case (Cons p ps)
  have len: "length (repr_bytes p) \<le> 4 * length p + 2" using length_reprs [of p] by (simp add: repr_bytes_def)
  obtain s1 where s1: "sdscatrepr A s p (length p) = Some (Some s1)" "sds_rep s1 (str @ repr_bytes p)"
    using sdscatrepr_spec [OF Cons.prems(1) _ assms, of "length p" p] Cons.prems(2) by auto
  obtain s2 where s2: "sdscatlen A s1 [SP] 1 = Some (Some s2)" "sds_rep s2 ((str @ repr_bytes p) @ [SP])"
    using sdscatlen_spec [OF s1(2), of 1 "[SP]" A] assms len Cons.prems(2) by auto
  from Cons.IH [OF s2(2)] Cons.prems(2) len s1(1) s2(1) show ?case by (auto simp: args_line_def)
qed (simp add: args_line_def)

text \<open>
  C39. Strings that are printed with \<open>sdscatrepr\<close> and a blank after each are what \<open>sdssplitargs\<close> gives
  back: as many, in order, and byte for byte, whatever bytes they have, quotes, blanks and NUL
  included.
\<close>

theorem printed_args_split:
  assumes "\<forall>k. al_ok A k" and "sds_rep s []" and "(\<Sum>p\<leftarrow>ps. 4 * length p + 3) < 2 ^ 62"
  shows "\<exists>s' ts. print_args A s ps = Some s' \<and> sdssplitargs A (sd_buf s') = Some (Some (map Some ts), int (length ps)) \<and> list_all2 sds_rep ts ps"
proof -
  obtain s' where s': "print_args A s ps = Some s'" and line: "sds_rep s' (args_line ps)"
    using print_args_spec [OF assms(1,2)] assms(3) by auto
  have "NUL \<notin> set (args_line ps)" using repr_of_no_NUL by (auto simp: args_line_def repr_bytes_def)
  then have "c_str (sd_buf s') = args_line ps" using sds_rep_c_str [OF line] by (simp add: c_str_no_NUL)
  moreover have "length p < 2 ^ 62" if "p \<in> set ps" for p
    using member_le_sum_list [of "4 * length p + 3" "map (\<lambda>p. 4 * length p + 3) ps"] that assms(3) by auto
  ultimately show ?thesis using args_loop_line [OF assms(1), of ps "[]"] s' by (simp add: sdssplitargs_def)
qed

theorem printed_args_split_witness:
  "\<exists>s s' ts. print_args std_alloc s [''a b'', [], [NUL, QUOTE, BACKSLASH, CHR 0xFF, LF]] = Some s' \<and>
     sdssplitargs std_alloc (sd_buf s') = Some (Some (map Some ts), 3) \<and>
     list_all2 sds_rep ts [''a b'', [], [NUL, QUOTE, BACKSLASH, CHR 0xFF, LF]]"
proof -
  let ?ps = "[''a b'', [], [NUL, QUOTE, BACKSLASH, CHR 0xFF, LF]]"
  obtain s where s: "sds_rep s []" using sdsnewlen_bytes [of 0 "[]" std_alloc] by auto
  have "(\<Sum>p\<leftarrow>?ps. 4 * length p + 3) < 2 ^ 62" "int (length ?ps) = 3" by simp_all
  then have "\<exists>s' ts. print_args std_alloc s ?ps = Some s' \<and> sdssplitargs std_alloc (sd_buf s') =
      Some (Some (map Some ts), 3) \<and> list_all2 sds_rep ts ?ps"
    using printed_args_split [OF _ s, of std_alloc ?ps] by (simp del: print_args.simps list_all2_Cons2)
  then show ?thesis by blast
qed

end
