(* ===== verification/Queue.thy ===== *)
theory Queue
  imports Dll
begin

text \<open>
  The singly linked queue of \<open>core/containers/queue.c\<close>, on a heap of nodes and of data blocks,
  and the interface of a queue, which the doubly linked list provides as well.
\<close>

section \<open>Data\<close>

text \<open>
  A node points to a block of its own.  A block that has been allocated but not written holds
  \<^const>\<open>None\<close>.
\<close>

record queue_node =
  nd_data :: addr
  nd_next :: ptr

record 'a queue_heap =
  q_nodes :: "addr \<rightharpoonup> queue_node"
  q_blocks :: "addr \<rightharpoonup> 'a option"
  q_brk :: addr

record queue =
  q_stride :: int
  q_head :: ptr
  q_root :: ptr

definition upd_node :: "'a queue_heap \<Rightarrow> ptr \<Rightarrow> (queue_node \<Rightarrow> queue_node) \<Rightarrow> 'a queue_heap option" where
  "upd_node h p f = do {
     a \<leftarrow> p;
     n \<leftarrow> q_nodes h a;
     Some (h\<lparr>q_nodes := (q_nodes h)(a \<mapsto> f n)\<rparr>)
   }"

definition free_block :: "'a queue_heap \<Rightarrow> ptr \<Rightarrow> 'a queue_heap option" where
  "free_block h p =
     (case p of None \<Rightarrow> Some h
      | Some b \<Rightarrow> do { x \<leftarrow> q_blocks h b; Some (h\<lparr>q_blocks := (q_blocks h)(b := None)\<rparr>) })"

section \<open>Operations\<close>

definition queue_create :: "int \<Rightarrow> queue" where
  "queue_create stride = \<lparr>q_stride = stride, q_head = None, q_root = None\<rparr>"

definition enqueue :: "'a queue_heap \<Rightarrow> queue \<Rightarrow> 'a \<Rightarrow> ('a queue_heap \<times> queue) option" where
  "enqueue h q item = do {
     let new_node = q_brk h;
     let block = Suc (q_brk h);
     let h = h\<lparr>q_nodes := (q_nodes h)(new_node \<mapsto> \<lparr>nd_data = block, nd_next = None\<rparr>),
       q_blocks := (q_blocks h)(block \<mapsto> None), q_brk := Suc block\<rparr>;
     (h, q) \<leftarrow> (if q_head q = None
       then Some (h, q\<lparr>q_root := Some new_node, q_head := Some new_node\<rparr>)
       else do {
         h \<leftarrow> upd_node h (q_head q) (\<lambda>n. n\<lparr>nd_next := Some new_node\<rparr>);
         Some (h, q\<lparr>q_head := Some new_node\<rparr>)
       });
     h \<leftarrow> upd_node h (Some new_node) (\<lambda>n. n\<lparr>nd_next := None\<rparr>);
     n \<leftarrow> deref (q_nodes h) (q_head q);
     b \<leftarrow> q_blocks h (nd_data n);
     Some (h\<lparr>q_blocks := (q_blocks h)(nd_data n \<mapsto> Some item)\<rparr>, q)
   }"

text \<open>The block passes to the caller; the null pointer when the queue is empty.\<close>

definition dequeue :: "'a queue_heap \<Rightarrow> queue \<Rightarrow> ('a queue_heap \<times> queue \<times> ptr) option" where
  "dequeue h q =
     (if q_head q = None then Some (h, q, None)
      else do {
        a \<leftarrow> q_root q;
        n \<leftarrow> q_nodes h a;
        let q = q\<lparr>q_root := nd_next n\<rparr>;
        let q = (if q_root q = None then q\<lparr>q_head := None\<rparr> else q);
        Some (h\<lparr>q_nodes := (q_nodes h)(a := None)\<rparr>, q, Some (nd_data n))
      })"

partial_function (option) queue_clear :: "'a queue_heap \<Rightarrow> queue \<Rightarrow> ('a queue_heap \<times> queue) option" where
  "queue_clear h q =
     (if q_root q = None then Some (h, q)
      else do {
        r \<leftarrow> dequeue h q;
        h \<leftarrow> free_block (fst r) (snd (snd r));
        queue_clear h (fst (snd r))
      })"

definition queue_destroy :: "'a queue_heap \<Rightarrow> queue \<Rightarrow> 'a queue_heap option" where
  "queue_destroy h q = map_option fst (queue_clear h q)"

section \<open>The queue on the heap\<close>

fun qpath :: "(addr \<rightharpoonup> queue_node) \<Rightarrow> ptr \<Rightarrow> (addr \<times> addr) list \<Rightarrow> ptr \<Rightarrow> bool" where
  "qpath c p [] e \<longleftrightarrow> p = e"
| "qpath c p ((a, b) # xs) e \<longleftrightarrow> p = Some a \<and> (\<exists>nx. c a = Some \<lparr>nd_data = b, nd_next = nx\<rparr> \<and> qpath c nx xs e)"

lemma qpath_append: "qpath c p (xs @ ys) e \<longleftrightarrow> (\<exists>q. qpath c p xs q \<and> qpath c q ys e)"
  by (induction c p xs e rule: qpath.induct) auto

lemma qpath_frame [simp]: "a \<notin> fst ` set xs \<Longrightarrow> qpath (c(a := v)) p xs e = qpath c p xs e"
  by (induction c p xs e rule: qpath.induct) auto

lemma qpath_dom: "qpath c p xs e \<Longrightarrow> a \<in> fst ` set xs \<Longrightarrow> c a \<noteq> None"
  by (induction c p xs e rule: qpath.induct) auto

text \<open>The nodes and blocks of a queue, in order, and the values the blocks hold.\<close>

definition queue_rep :: "'a queue_heap \<Rightarrow> queue \<Rightarrow> (addr \<times> addr) list \<Rightarrow> 'a list \<Rightarrow> bool" where
  "queue_rep h q xs l \<longleftrightarrow>
     qpath (q_nodes h) (q_root q) xs None \<and> dom (q_nodes h) = fst ` set xs \<and>
     q_head q = (if xs = [] then None else Some (fst (last xs))) \<and>
     distinct (map fst xs) \<and> distinct (map snd xs) \<and>
     map (\<lambda>n. q_blocks h (snd n)) xs = map (\<lambda>x. Some (Some x)) l \<and>
     (\<forall>a\<ge>q_brk h. q_nodes h a = None \<and> q_blocks h a = None)"

lemma queue_rep_fresh:
  assumes "queue_rep h q xs l" and "q_brk h \<le> a"
  shows "a \<notin> fst ` set xs" and "a \<notin> snd ` set xs"
proof -
  show "a \<notin> fst ` set xs" using assms qpath_dom [of "q_nodes h" "q_root q" xs None a] by (auto simp: queue_rep_def)
  show "a \<notin> snd ` set xs"
  proof
    assume "a \<in> snd ` set xs"
    then have "q_blocks h a \<in> set (map (\<lambda>n. q_blocks h (snd n)) xs)" by auto
    also have "map (\<lambda>n. q_blocks h (snd n)) xs = map (\<lambda>x. Some (Some x)) l" using assms(1) by (simp add: queue_rep_def)
    finally show False using assms by (auto simp: queue_rep_def)
  qed
qed

lemma enqueue_spec:
  assumes rep: "queue_rep h q xs l"
  shows "\<exists>h' q'. enqueue h q x = Some (h', q') \<and> queue_rep h' q' (xs @ [(q_brk h, Suc (q_brk h))]) (l @ [x]) \<and>
    (\<forall>b. b \<noteq> Suc (q_brk h) \<longrightarrow> q_blocks h' b = q_blocks h b)"
proof -
  let ?a = "q_brk h" and ?b = "Suc (q_brk h)"
  note fr = queue_rep_fresh [OF rep order_refl] queue_rep_fresh [OF rep le_SucI [OF order_refl]]
  have blocks: "map (\<lambda>n. ((q_blocks h)(?b \<mapsto> Some x)) (snd n)) xs = map (\<lambda>n. q_blocks h (snd n)) xs"
    using fr(4) by (intro map_cong) (auto simp: image_iff)
  show ?thesis
  proof (cases xs rule: rev_cases)
    case Nil
    with rep show ?thesis by (auto simp: enqueue_def upd_node_def queue_rep_def Let_def)
  next
    case (snoc ys y)
    obtain a b where y: "y = (a, b)" by (cases y)
    have "qpath (q_nodes h) (q_root q) ys (Some a)" "q_nodes h a = Some \<lparr>nd_data = b, nd_next = None\<rparr>"
      using rep by (auto simp: queue_rep_def snoc y qpath_append)
    moreover have "?a \<noteq> a" "?a \<notin> fst ` set ys" "a \<notin> fst ` set ys" using fr rep by (auto simp: snoc y queue_rep_def)
    ultimately show ?thesis
      using rep blocks fr by (auto simp: enqueue_def upd_node_def queue_rep_def Let_def snoc y qpath_append)
  qed
qed

lemma dequeue_spec:
  assumes rep: "queue_rep h q ((a, b) # xs) (x # l)"
  shows "\<exists>h' q'. dequeue h q = Some (h', q', Some b) \<and> queue_rep h' q' xs l \<and> q_blocks h' = q_blocks h \<and>
    q_blocks h b = Some (Some x)"
proof -
  have r: "q_root q = Some a" "q_head q \<noteq> None" "a \<notin> fst ` set xs" "q_blocks h b = Some (Some x)"
    using rep by (auto simp: queue_rep_def)
  obtain nx where nx: "q_nodes h a = Some \<lparr>nd_data = b, nd_next = nx\<rparr>" "qpath (q_nodes h) nx xs None"
    using rep by (auto simp: queue_rep_def)
  have "nx = None \<longleftrightarrow> xs = []" using nx(2) by (cases xs) auto
  with rep r nx show ?thesis by (auto simp: dequeue_def queue_rep_def Let_def)
qed

lemma dequeue_empty: "queue_rep h q [] l \<Longrightarrow> dequeue h q = Some (h, q, None) \<and> l = []"
  by (simp add: dequeue_def queue_rep_def)

lemma queue_clear_spec:
  "queue_rep h q xs l \<Longrightarrow> \<exists>h' q'. queue_clear h q = Some (h', q') \<and> queue_rep h' q' [] [] \<and>
    q_nodes h' = Map.empty \<and> (\<forall>b. q_blocks h' b = (if b \<in> snd ` set xs then None else q_blocks h b))"
proof (induction xs arbitrary: h q l)
  case Nil
  then show ?case by (subst queue_clear.simps) (auto simp: queue_rep_def)
next
  case (Cons y xs)
  obtain a b where y: "y = (a, b)" by (cases y)
  obtain x l' where l: "l = x # l'" using Cons.prems by (cases l) (auto simp: queue_rep_def)
  obtain h1 q1 where d: "dequeue h q = Some (h1, q1, Some b)" "queue_rep h1 q1 xs l'" "q_blocks h1 = q_blocks h"
    "q_blocks h b = Some (Some x)" using dequeue_spec [of h q a b xs x l'] Cons.prems by (auto simp: y l)
  let ?h = "h1\<lparr>q_blocks := (q_blocks h1)(b := None)\<rparr>"
  have f: "free_block h1 (Some b) = Some ?h" using d(3,4) by (simp add: free_block_def)
  have "b \<notin> snd ` set xs" using Cons.prems by (auto simp: queue_rep_def y)
  then have "map (\<lambda>n. ((q_blocks h1)(b := None)) (snd n)) xs = map (\<lambda>n. q_blocks h1 (snd n)) xs"
    by (intro map_cong) (auto simp: image_iff)
  then have "queue_rep ?h q1 xs l'" using d(2) by (simp add: queue_rep_def del: map_eq_conv)
  from Cons.IH [OF this] obtain h' q' where c: "queue_clear ?h q1 = Some (h', q')" "queue_rep h' q' [] []"
    "q_nodes h' = Map.empty" "\<forall>b'. q_blocks h' b' = (if b' \<in> snd ` set xs then None else q_blocks ?h b')" by blast
  have "q_root q = Some a" using Cons.prems by (auto simp: queue_rep_def y)
  then have "queue_clear h q = queue_clear ?h q1" by (subst queue_clear.simps) (simp add: d(1) f)
  with c d(3) show ?case by (auto simp: y)
qed

section \<open>The interface of a queue\<close>

datatype 'a fifo_op = Enq 'a | Deq

fun fifo_spec :: "'a list \<Rightarrow> 'a fifo_op list \<Rightarrow> 'a list \<times> 'a option list" where
  "fifo_spec l [] = (l, [])"
| "fifo_spec l (Enq x # ops) = fifo_spec (l @ [x]) ops"
| "fifo_spec l (Deq # ops) =
     (let (l', outs) = fifo_spec (tl l) ops in (l', (if l = [] then None else Some (hd l)) # outs))"

fun run_fifo ::
  "('s \<Rightarrow> 'a \<Rightarrow> 's option) \<Rightarrow> ('s \<Rightarrow> ('s \<times> 'a option) option) \<Rightarrow> 's \<Rightarrow> 'a fifo_op list \<Rightarrow> ('s \<times> 'a option list) option" where
  "run_fifo enq deq s [] = Some (s, [])"
| "run_fifo enq deq s (Enq x # ops) = do { s \<leftarrow> enq s x; run_fifo enq deq s ops }"
| "run_fifo enq deq s (Deq # ops) = do { (s, r) \<leftarrow> deq s; (s, rs) \<leftarrow> run_fifo enq deq s ops; Some (s, r # rs) }"

text \<open>The client's view: \<open>room\<close> says which lengths may still grow.\<close>

locale fifo =
  fixes rep :: "'s \<Rightarrow> 'a list \<Rightarrow> bool" and room :: "nat \<Rightarrow> bool"
    and enq :: "'s \<Rightarrow> 'a \<Rightarrow> 's option" and deq :: "'s \<Rightarrow> ('s \<times> 'a option) option"
  assumes enq_law: "rep s l \<Longrightarrow> room (length l) \<Longrightarrow> \<exists>s'. enq s x = Some s' \<and> rep s' (l @ [x])"
    and deq_law: "rep s l \<Longrightarrow> \<exists>s'. deq s = Some (s', if l = [] then None else Some (hd l)) \<and> rep s' (tl l)"
begin

lemma fifo_run:
  assumes "rep s l" and "\<forall>n < length l + length ops. room n"
  shows "\<exists>s'. run_fifo enq deq s ops = Some (s', snd (fifo_spec l ops)) \<and> rep s' (fst (fifo_spec l ops))"
  using assms
proof (induction ops arbitrary: s l)
  case (Cons opn ops)
  show ?case
  proof (cases opn)
    case (Enq x)
    with Cons.prems obtain s1 where "enq s x = Some s1" "rep s1 (l @ [x])" using enq_law [of s l x] by auto
    with Cons.IH [of s1 "l @ [x]"] Cons.prems(2) Enq show ?thesis by simp
  next
    case Deq
    from Cons.prems(1) obtain s1 where s1: "deq s = Some (s1, if l = [] then None else Some (hd l))" "rep s1 (tl l)"
      using deq_law by blast
    have "\<forall>n < length (tl l) + length ops. room n" using Cons.prems(2) by auto
    from Cons.IH [OF s1(2) this] s1(1) Deq show ?thesis by (auto simp: Let_def split: prod.splits)
  qed
qed simp

text \<open>What goes in comes out in the same order.\<close>

lemma drain_spec: "length l \<le> n \<Longrightarrow> fifo_spec l (replicate n Deq) = ([], map Some l @ replicate (n - length l) None)"
proof (induction n arbitrary: l)
  case (Suc n)
  show ?case using Suc.IH [of "tl l"] Suc.prems by (cases l) auto
qed simp

lemma fill_spec: "fifo_spec l (map Enq xs @ ops) = fifo_spec (l @ xs) ops"
  by (induction xs arbitrary: l) simp_all

end

text \<open>A double-ended queue gives a queue: push at the back, pop at the head.\<close>

sublocale deque \<subseteq> fifo rep "\<lambda>n. Suc n < limit" pb ph
  by unfold_locales (simp_all add: pb_law ph_law)

text \<open>The queue of the code, with the value read from the block that is handed out.\<close>

type_synonym 'a queue_state = "'a queue_heap \<times> queue"

definition queue_holds :: "'a queue_state \<Rightarrow> 'a list \<Rightarrow> bool" where
  "queue_holds s l \<longleftrightarrow> (\<exists>xs. queue_rep (fst s) (snd s) xs l)"

definition queue_deq :: "'a queue_state \<Rightarrow> ('a queue_state \<times> 'a option) option" where
  "queue_deq s = do {
     (h, q, r) \<leftarrow> dequeue (fst s) (snd s);
     (case r of None \<Rightarrow> Some ((h, q), None)
      | Some b \<Rightarrow> do { content \<leftarrow> q_blocks h b; x \<leftarrow> content; Some ((h, q), Some x) })
   }"

interpretation cq: fifo queue_holds "\<lambda>_. True" "\<lambda>s. enqueue (fst s) (snd s)" queue_deq
proof
  fix s :: "'a queue_state" and l :: "'a list" and x
  assume "queue_holds s l"
  then obtain xs where rep: "queue_rep (fst s) (snd s) xs l" by (auto simp: queue_holds_def)
  show "\<exists>s'. enqueue (fst s) (snd s) x = Some s' \<and> queue_holds s' (l @ [x])"
    using enqueue_spec [OF rep, of x] by (fastforce simp: queue_holds_def)
  show "\<exists>s'. queue_deq s = Some (s', if l = [] then None else Some (hd l)) \<and> queue_holds s' (tl l)"
  proof (cases xs)
    case Nil
    with rep dequeue_empty show ?thesis by (fastforce simp: queue_deq_def queue_holds_def)
  next
    case (Cons y ys)
    obtain a b where y: "y = (a, b)" by (cases y)
    obtain x l' where l: "l = x # l'" using rep Cons by (cases l) (auto simp: queue_rep_def)
    from dequeue_spec [of "fst s" "snd s" a b ys x l'] rep show ?thesis
      by (auto simp: queue_deq_def queue_holds_def Cons y l)
  qed
qed

section \<open>Properties\<close>

definition empty_queue_heap :: "'a queue_heap" where
  "empty_queue_heap = \<lparr>q_nodes = Map.empty, q_blocks = Map.empty, q_brk = 0\<rparr>"

lemma queue_create_holds: "queue_holds (empty_queue_heap, queue_create stride) []"
  by (auto simp: queue_holds_def queue_rep_def empty_queue_heap_def queue_create_def intro!: exI [of _ "[]"])

text \<open>
  The queue is first in, first out: any sequence of \<open>enqueue\<close> and \<open>dequeue\<close> on a new queue
  runs without a null or dangling access, hands out at every \<open>dequeue\<close> the element a plain list
  would (the null pointer when it is empty), and leaves a queue of the expected elements; and
  what is put into it comes out again in the same order.
\<close>

theorem queue_run_refines:
  "(\<exists>s'. run_fifo (\<lambda>s. enqueue (fst s) (snd s)) queue_deq (empty_queue_heap, queue_create stride) ops =
     Some (s', snd (fifo_spec [] ops)) \<and> queue_holds s' (fst (fifo_spec [] ops))) \<and>
   (\<exists>s'. run_fifo (\<lambda>s. enqueue (fst s) (snd s)) queue_deq (empty_queue_heap, queue_create stride)
     (map Enq xs @ replicate (length xs) Deq) = Some (s', map Some xs))"
proof -
  have "snd (fifo_spec [] (map Enq xs @ replicate (length xs) Deq)) = map Some xs"
    using cq.drain_spec [of xs "length xs"] by (simp add: cq.fill_spec)
  then show ?thesis
    using cq.fifo_run [OF queue_create_holds, of ops stride]
      cq.fifo_run [OF queue_create_holds, of "map Enq xs @ replicate (length xs) Deq" stride] by auto
qed

text \<open>
  \<open>queue_destroy\<close> ends and frees every node and every block still in the queue, each once,
  and no other block: those handed out by \<open>dequeue\<close> stay with their owners.
\<close>

theorem queue_destroy_frees:
  assumes "queue_rep h q xs l"
  shows "\<exists>h'. queue_destroy h q = Some h' \<and> q_nodes h' = Map.empty \<and>
    (\<forall>b. q_blocks h' b = (if b \<in> snd ` set xs then None else q_blocks h b))"
  using queue_clear_spec [OF assms] by (auto simp: queue_destroy_def)

theorem queue_destroy_frees_witness:
  "\<exists>h q h'. enqueue empty_queue_heap (queue_create 8) (7 :: nat) = Some (h, q) \<and> queue_destroy h q = Some h' \<and>
     q_nodes h' = Map.empty \<and> q_blocks h' 1 = None"
proof -
  have "queue_rep (empty_queue_heap :: nat queue_heap) (queue_create 8) [] []"
    by (simp add: queue_rep_def empty_queue_heap_def queue_create_def)
  from enqueue_spec [OF this, of 7] obtain h q where
    e: "enqueue empty_queue_heap (queue_create 8) (7 :: nat) = Some (h, q)" "queue_rep h q [(0, 1)] [7]"
    by (auto simp: empty_queue_heap_def)
  from queue_destroy_frees [OF e(2)] e(1) show ?thesis by auto
qed

end
