(* ===== verification/Bitarray.thy ===== *)
theory Bitarray
  imports Prelude
begin

unbundle bit_operations_syntax

text \<open>
  The bit array of \<open>core/util/bitwise.c\<close>: bits packed into the \<open>char\<close>s of one block, whose
  bounds are checked by nobody.  The interface a client of a set of marks relies on is a locale.
\<close>

type_synonym u8 = "8 word"

record bitarray =
  ba_size :: nat
  ba_array :: "u8 list"

text \<open>The size of the array in bytes; the sum is a \<open>size_t\<close>.\<close>

definition array_bytes :: "nat \<Rightarrow> nat" where
  "array_bytes n = (n + 7) mod SIZE_MOD div 8"

text \<open>\<open>junk\<close> is the content of the block \<open>malloc\<close> returns; it is not cleared.\<close>

definition bitarray_create :: "u8 list \<Rightarrow> nat \<Rightarrow> bitarray" where
  "bitarray_create junk n = \<lparr>ba_size = n, ba_array = take (array_bytes n) junk\<rparr>"

definition upd_byte :: "bitarray \<Rightarrow> nat \<Rightarrow> (u8 \<Rightarrow> u8) \<Rightarrow> bitarray option" where
  "upd_byte b k f = do {
     guard (k < length (ba_array b));
     Some (b\<lparr>ba_array := (ba_array b)[k := f (ba_array b ! k)]\<rparr>)
   }"

definition bitwise_set :: "bitarray \<Rightarrow> nat \<Rightarrow> bitarray option" where
  "bitwise_set b index = upd_byte b (index div 8) (\<lambda>c. c OR push_bit (index mod 8) 1)"

definition bitwise_clear :: "bitarray \<Rightarrow> nat \<Rightarrow> bitarray option" where
  "bitwise_clear b index = upd_byte b (index div 8) (\<lambda>c. c AND NOT (push_bit (index mod 8) 1))"

definition bitwise_toggle :: "bitarray \<Rightarrow> nat \<Rightarrow> bitarray option" where
  "bitwise_toggle b index = upd_byte b (index div 8) (\<lambda>c. c XOR push_bit (index mod 8) 1)"

definition bitwise_get :: "bitarray \<Rightarrow> nat \<Rightarrow> bool option" where
  "bitwise_get b index = do {
     guard (index div 8 < length (ba_array b));
     Some (drop_bit (index mod 8) (ba_array b ! (index div 8)) AND 1 = 1)
   }"

section \<open>What the operations do to the bits\<close>

lemma get_bit: "index div 8 < length (ba_array b) \<Longrightarrow>
    bitwise_get b index = Some (bit (ba_array b ! (index div 8)) (index mod 8))"
  by (simp add: bitwise_get_def and_one_eq odd_iff_mod_2_eq_one [symmetric] bit_iff_odd_drop_bit)

lemma upd_byte_get:
  assumes "upd_byte b (i div 8) f = Some b'" and "\<And>c n. n < 8 \<Longrightarrow> bit (f c) n = (if n = i mod 8 then g (bit c n) else bit c n)"
    and "j div 8 < length (ba_array b)"
  shows "bitwise_get b' j = (if j = i then map_option g (bitwise_get b j) else bitwise_get b j)"
proof -
  have b': "b' = b\<lparr>ba_array := (ba_array b)[i div 8 := f (ba_array b ! (i div 8))]\<rparr>" "i div 8 < length (ba_array b)"
    using assms(1) by (auto simp: upd_byte_def fault_simps)
  have same: "j = i \<longleftrightarrow> j div 8 = i div 8 \<and> j mod 8 = i mod 8" by (metis div_mult_mod_eq)
  have j: "j div 8 < length (ba_array b')" "j mod 8 < 8" using assms(3) b' by simp_all
  show ?thesis
  proof (cases "j div 8 = i div 8")
    case True
    have "bitwise_get b' j = Some (bit (f (ba_array b ! (i div 8))) (j mod 8))"
      using get_bit [OF j(1)] b' True by simp
    also have "\<dots> = Some (if j mod 8 = i mod 8 then g (bit (ba_array b ! (i div 8)) (j mod 8))
        else bit (ba_array b ! (i div 8)) (j mod 8))" by (simp only: assms(2) [OF j(2)])
    finally show ?thesis using get_bit [OF assms(3)] True same by simp
  next
    case False
    then have "ba_array b' ! (j div 8) = ba_array b ! (j div 8)" by (simp add: b'(1))
    with get_bit [OF j(1)] get_bit [OF assms(3)] False show ?thesis by auto
  qed
qed

lemma upd_byte_total: "k < length (ba_array b) \<Longrightarrow> \<exists>b'. upd_byte b k f = Some b' \<and> ba_size b' = ba_size b \<and>
    length (ba_array b') = length (ba_array b)"
  by (simp add: upd_byte_def)

lemma bit_masks:
  fixes c :: u8
  assumes "n < 8" and "i < 8"
  shows "bit (c OR push_bit i 1) n = (if n = i then True else bit c n)"
    and "bit (c AND NOT (push_bit i 1)) n = (if n = i then False else bit c n)"
    and "bit (c XOR push_bit i 1) n = (if n = i then \<not> bit c n else bit c n)"
  using assms by (auto simp: bit_or_iff bit_and_iff bit_not_iff bit_xor_iff bit_exp_iff)

text \<open>A bit after each update, in terms of the bit before.\<close>

lemma set_get: "bitwise_set b i = Some b' \<Longrightarrow> j div 8 < length (ba_array b) \<Longrightarrow>
    bitwise_get b' j = (if j = i then map_option (\<lambda>_. True) (bitwise_get b j) else bitwise_get b j)"
  unfolding bitwise_set_def by (rule upd_byte_get, assumption) (rule bit_masks; simp)

lemma clear_get: "bitwise_clear b i = Some b' \<Longrightarrow> j div 8 < length (ba_array b) \<Longrightarrow>
    bitwise_get b' j = (if j = i then map_option (\<lambda>_. False) (bitwise_get b j) else bitwise_get b j)"
  unfolding bitwise_clear_def by (rule upd_byte_get, assumption) (rule bit_masks; simp)

lemma toggle_get: "bitwise_toggle b i = Some b' \<Longrightarrow> j div 8 < length (ba_array b) \<Longrightarrow>
    bitwise_get b' j = (if j = i then map_option Not (bitwise_get b j) else bitwise_get b j)"
  unfolding bitwise_toggle_def by (rule upd_byte_get, assumption) (rule bit_masks; simp)

section \<open>The interface of a set of marks\<close>

locale mark_set =
  fixes cap :: "'b \<Rightarrow> nat" and get :: "'b \<Rightarrow> nat \<Rightarrow> bool option" and mark clear :: "'b \<Rightarrow> nat \<Rightarrow> 'b option"
  assumes get_law: "i < cap b \<Longrightarrow> get b i \<noteq> None"
    and mark_law: "i < cap b \<Longrightarrow> \<exists>b'. mark b i = Some b' \<and> cap b' = cap b \<and>
      (\<forall>j < cap b. get b' j = (if j = i then Some True else get b j))"
    and clear_law: "i < cap b \<Longrightarrow> \<exists>b'. clear b i = Some b' \<and> cap b' = cap b \<and>
      (\<forall>j < cap b. get b' j = (if j = i then Some False else get b j))"
begin

definition unmarked :: "'b \<Rightarrow> nat set" where
  "unmarked b = {i. i < cap b \<and> get b i = Some False}"

lemma unmarked_mark:
  assumes "i < cap b"
  shows "\<exists>b'. mark b i = Some b' \<and> cap b' = cap b \<and> unmarked b' = unmarked b - {i}"
  using mark_law [OF assms] by (fastforce simp: unmarked_def split: if_splits)

lemma unmarked_clear:
  assumes "i < cap b"
  shows "\<exists>b'. clear b i = Some b' \<and> cap b' = cap b \<and> unmarked b' = insert i (unmarked b)"
  using clear_law [OF assms] assms by (fastforce simp: unmarked_def split: if_splits)

lemma get_unmarked: "i < cap b \<Longrightarrow> get b i = Some (i \<notin> unmarked b)"
  using get_law [of i b] by (auto simp: unmarked_def)

end

definition bit_cap :: "bitarray \<Rightarrow> nat" where
  "bit_cap b = 8 * length (ba_array b)"

interpretation bits: mark_set bit_cap bitwise_get bitwise_set bitwise_clear
proof
  fix b :: bitarray and i
  assume i: "i < bit_cap b"
  then have k: "i div 8 < length (ba_array b)" by (auto simp: bit_cap_def)
  show "bitwise_get b i \<noteq> None" by (simp add: get_bit [OF k])
  have dv: "j div 8 < length (ba_array b)" if "j < bit_cap b" for j using that by (auto simp: bit_cap_def)
  obtain b1 where b1: "bitwise_set b i = Some b1" "ba_size b1 = ba_size b" "length (ba_array b1) = length (ba_array b)"
    using upd_byte_total [OF k] by (auto simp: bitwise_set_def)
  have "bitwise_get b1 j = (if j = i then Some True else bitwise_get b j)" if "j < bit_cap b" for j
    using set_get [OF b1(1) dv [OF that]] get_bit [OF k] by simp
  with b1 show "\<exists>b'. bitwise_set b i = Some b' \<and> bit_cap b' = bit_cap b \<and>
      (\<forall>j < bit_cap b. bitwise_get b' j = (if j = i then Some True else bitwise_get b j))" by (simp add: bit_cap_def)
  obtain b2 where b2: "bitwise_clear b i = Some b2" "length (ba_array b2) = length (ba_array b)"
    using upd_byte_total [OF k] by (auto simp: bitwise_clear_def)
  have "bitwise_get b2 j = (if j = i then Some False else bitwise_get b j)" if "j < bit_cap b" for j
    using clear_get [OF b2(1) dv [OF that]] get_bit [OF k] by simp
  with b2 show "\<exists>b'. bitwise_clear b i = Some b' \<and> bit_cap b' = bit_cap b \<and>
      (\<forall>j < bit_cap b. bitwise_get b' j = (if j = i then Some False else bitwise_get b j))" by (simp add: bit_cap_def)
qed

section \<open>Properties\<close>

text \<open>
  Each operation changes exactly the bit it is given: after setting, clearing or toggling
  bit \<open>i\<close>, every other bit reads as before; and toggling twice restores the array.
\<close>

theorem bitwise_exact:
  assumes "i < 8 * length (ba_array b)" and "j < 8 * length (ba_array b)" and "bitwise_get b j = Some v"
  shows "\<exists>b1 b2 b3. bitwise_set b i = Some b1 \<and> bitwise_get b1 j = Some (j = i \<or> v) \<and>
    bitwise_clear b i = Some b2 \<and> bitwise_get b2 j = Some (j \<noteq> i \<and> v) \<and>
    bitwise_toggle b i = Some b3 \<and> bitwise_get b3 j = Some (v \<noteq> (j = i)) \<and> bitwise_toggle b3 i = Some b"
proof -
  have d: "i div 8 < length (ba_array b)" "j div 8 < length (ba_array b)" using assms by auto
  obtain b1 where b1: "bitwise_set b i = Some b1" using upd_byte_total [OF d(1)] by (auto simp: bitwise_set_def)
  obtain b2 where b2: "bitwise_clear b i = Some b2" using upd_byte_total [OF d(1)] by (auto simp: bitwise_clear_def)
  obtain b3 where b3: "bitwise_toggle b i = Some b3" using upd_byte_total [OF d(1)] by (auto simp: bitwise_toggle_def)
  have "bitwise_get b1 j = Some (j = i \<or> v)" "bitwise_get b2 j = Some (j \<noteq> i \<and> v)" "bitwise_get b3 j = Some (v \<noteq> (j = i))"
    using set_get [OF b1 d(2)] clear_get [OF b2 d(2)] toggle_get [OF b3 d(2)] assms(3) by auto
  moreover have "bitwise_toggle b3 i = Some b"
    using b3 d(1) by (auto simp: bitwise_toggle_def upd_byte_def fault_simps xor.assoc)
  ultimately show ?thesis using b1 b2 b3 by blast
qed

theorem bitwise_exact_witness:
  "\<exists>b1. bitwise_set \<lparr>ba_size = 16, ba_array = [0, 1]\<rparr> 3 = Some b1 \<and> bitwise_get b1 8 = Some True"
  using bitwise_exact [of 3 "\<lparr>ba_size = 16, ba_array = [0, 1]\<rparr>" 8 True] by (auto simp: bitwise_get_def)

end
