(* ===== verification/Allocators.thy ===== *)
theory Allocators
  imports Bitarray Dll
begin

text \<open>
  The allocators of \<open>core/memory\<close>: the pool of equal blocks (\<open>pool_allocator.c\<close>), the bump
  allocator (\<open>bump_allocator.c\<close>) and the general one (\<open>GPA.c\<close>).  Addresses are naturals below
  \<open>2 ^ 64\<close>; sums and products of \<open>size_t\<close> and pointers wrap around.
\<close>

abbreviation wrap :: "nat \<Rightarrow> nat" where "wrap n \<equiv> n mod SIZE_MOD"

section \<open>The pool allocator\<close>

text \<open>\<open>pa_mem\<close> is the content of the block at \<open>pa_data\<close>.\<close>

record pool_allocator =
  pa_stride :: nat
  pa_availability :: bitarray
  pa_data :: nat
  pa_mem :: bytes

text \<open>What \<open>malloc\<close> provides: the uninitialised bits, the address and content of the data.\<close>

definition pool_allocator_create :: "u8 list \<Rightarrow> nat \<Rightarrow> bytes \<Rightarrow> nat \<Rightarrow> nat \<Rightarrow> pool_allocator" where
  "pool_allocator_create bits addr mem stride n =
     \<lparr>pa_stride = stride, pa_availability = bitarray_create bits n, pa_data = addr,
      pa_mem = take (wrap (n * stride)) mem\<rparr>"

text \<open>The loop of \<open>pool_allocator_alloc\<close> from index \<open>i\<close>.\<close>

function pool_scan :: "pool_allocator \<Rightarrow> nat \<Rightarrow> (pool_allocator \<times> nat option) option" where
  "pool_scan p i =
     (if i < ba_size (pa_availability p) then do {
        used \<leftarrow> bitwise_get (pa_availability p) i;
        if used then pool_scan p (i + 1)
        else do {
          b \<leftarrow> bitwise_set (pa_availability p) i;
          Some (p\<lparr>pa_availability := b\<rparr>, Some (wrap (pa_data p + wrap (pa_stride p * i))))
        }
      }
      else Some (p, None))"
  by pat_completeness auto
termination by (relation "measure (\<lambda>(p, i). ba_size (pa_availability p) - i)") auto

declare pool_scan.simps [simp del]

definition pool_allocator_alloc :: "pool_allocator \<Rightarrow> (pool_allocator \<times> nat option) option" where
  "pool_allocator_alloc p = pool_scan p 0"

text \<open>A block out of bounds is reported and ignored; a stride of zero divides by zero.\<close>

definition pool_allocator_free :: "pool_allocator \<Rightarrow> nat \<Rightarrow> pool_allocator option" where
  "pool_allocator_free p block =
     (if block < pa_data p \<or>
         block > wrap (pa_data p + wrap (pa_stride p * wrap (ba_size (pa_availability p) + (SIZE_MOD - 1))))
      then Some p
      else do {
        mem \<leftarrow> cmem_zmem (pa_mem p) (block - pa_data p) (pa_stride p);
        guard (pa_stride p \<noteq> 0);
        b \<leftarrow> bitwise_clear (pa_availability p) ((block - pa_data p) div pa_stride p);
        Some (p\<lparr>pa_mem := mem, pa_availability := b\<rparr>)
      })"

text \<open>The slots that are free, and a pool that is in order.\<close>

definition pool_ok :: "pool_allocator \<Rightarrow> bool" where
  "pool_ok p \<longleftrightarrow> ba_size (pa_availability p) \<le> bit_cap (pa_availability p) \<and>
     length (pa_mem p) = ba_size (pa_availability p) * pa_stride p \<and>
     pa_data p + ba_size (pa_availability p) * pa_stride p < SIZE_MOD \<and> ba_size (pa_availability p) < SIZE_MOD"

definition free_slots :: "pool_allocator \<Rightarrow> nat set" where
  "free_slots p = {i. i < ba_size (pa_availability p) \<and> i \<in> bits.unmarked (pa_availability p)}"

definition slot :: "pool_allocator \<Rightarrow> nat \<Rightarrow> nat" where
  "slot p i = pa_data p + pa_stride p * i"

lemma slot_wrap:
  assumes "pool_ok p" and "i < ba_size (pa_availability p)"
  shows "wrap (pa_data p + wrap (pa_stride p * i)) = slot p i"
proof -
  have "pa_stride p * i \<le> ba_size (pa_availability p) * pa_stride p" using assms(2) by (simp add: mult.commute)
  moreover have "pa_data p + ba_size (pa_availability p) * pa_stride p < SIZE_MOD" using assms(1) by (simp add: pool_ok_def)
  ultimately have "pa_data p + pa_stride p * i < SIZE_MOD" "pa_stride p * i < SIZE_MOD" by linarith+
  then show ?thesis by (simp add: slot_def)
qed

lemma bitwise_set_size: "bitwise_set b i = Some b' \<Longrightarrow> ba_size b' = ba_size b"
  by (auto simp: bitwise_set_def upd_byte_def fault_simps)

lemma bitwise_clear_size: "bitwise_clear b i = Some b' \<Longrightarrow> ba_size b' = ba_size b"
  by (auto simp: bitwise_clear_def upd_byte_def fault_simps)

text \<open>The search takes the first free slot at or after the index.\<close>

lemma pool_scan_spec:
  assumes "pool_ok p"
  shows "(if \<exists>k\<ge>i. k \<in> free_slots p
    then (\<exists>p'. pool_scan p i = Some (p', Some (slot p (LEAST k. i \<le> k \<and> k \<in> free_slots p))) \<and>
      pool_ok p' \<and> free_slots p' = free_slots p - {LEAST k. i \<le> k \<and> k \<in> free_slots p} \<and>
      pa_data p' = pa_data p \<and> pa_stride p' = pa_stride p \<and> pa_mem p' = pa_mem p \<and>
      ba_size (pa_availability p') = ba_size (pa_availability p))
    else pool_scan p i = Some (p, None))"
proof (induction "ba_size (pa_availability p) - i" arbitrary: i)
  case 0
  then have "\<not> (\<exists>k\<ge>i. k \<in> free_slots p)" by (auto simp: free_slots_def)
  moreover have "pool_scan p i = Some (p, None)" using 0 by (subst pool_scan.simps) simp
  ultimately show ?case by simp
next
  case (Suc n)
  let ?b = "pa_availability p"
  have i: "i < ba_size ?b" using Suc.hyps(2) by simp
  then have cap: "i < bit_cap ?b" using assms by (simp add: pool_ok_def)
  note get = bits.get_unmarked [OF cap]
  have free: "i \<in> free_slots p \<longleftrightarrow> i \<in> bits.unmarked ?b" using i by (simp add: free_slots_def)
  show ?case
  proof (cases "i \<in> free_slots p")
    case True
    obtain b where b: "bitwise_set ?b i = Some b" "bit_cap b = bit_cap ?b" "bits.unmarked b = bits.unmarked ?b - {i}"
      using bits.unmarked_mark [OF cap] by blast
    have "(LEAST k. i \<le> k \<and> k \<in> free_slots p) = i" using True by (intro Least_equality) auto
    moreover have "pool_scan p i = Some (p\<lparr>pa_availability := b\<rparr>, Some (slot p i))"
      using True i get free b(1) slot_wrap [OF assms i] by (subst pool_scan.simps) simp
    moreover have "pool_ok (p\<lparr>pa_availability := b\<rparr>)" "free_slots (p\<lparr>pa_availability := b\<rparr>) = free_slots p - {i}"
      using assms b bitwise_set_size [OF b(1)] by (auto simp: pool_ok_def free_slots_def)
    ultimately show ?thesis using True bitwise_set_size [OF b(1)] by auto
  next
    case False
    have "pool_scan p i = pool_scan p (Suc i)" using False i get free by (subst pool_scan.simps) simp
    moreover have "(i \<le> k \<and> k \<in> free_slots p) = (Suc i \<le> k \<and> k \<in> free_slots p)" for k
      using False by (cases "k = i") auto
    moreover have "n = ba_size ?b - Suc i" using Suc.hyps(2) by simp
    note Suc.hyps(1) [OF this]
    ultimately show ?thesis by simp
  qed
qed

lemma pool_free_spec:
  assumes ok: "pool_ok p" and i: "i < ba_size (pa_availability p)" and k: "k < pa_stride p"
    and within: "slot p i + k \<le> slot p (ba_size (pa_availability p) - 1)"
  shows "\<exists>p'. pool_allocator_free p (slot p i + k) = Some p' \<and> pool_ok p' \<and> free_slots p' = insert i (free_slots p) \<and>
    pa_data p' = pa_data p \<and> pa_stride p' = pa_stride p \<and> ba_size (pa_availability p') = ba_size (pa_availability p) \<and>
    pa_mem p' = take (pa_stride p * i + k) (pa_mem p) @ replicate (pa_stride p) NUL @
      drop (pa_stride p * i + k + pa_stride p) (pa_mem p)"
proof -
  let ?b = "pa_availability p" and ?s = "pa_stride p"
  have n: "0 < ba_size ?b" and w1: "wrap (ba_size ?b + (SIZE_MOD - 1)) = ba_size ?b - 1"
    using i ok by (auto simp: pool_ok_def mod_if)
  have last: "wrap (pa_data p + wrap (?s * (ba_size ?b - 1))) = slot p (ba_size ?b - 1)"
    using n by (intro slot_wrap [OF ok]) simp
  have cap: "i < bit_cap ?b" using i ok by (simp add: pool_ok_def)
  obtain b where b: "bitwise_clear ?b i = Some b" "bit_cap b = bit_cap ?b" "bits.unmarked b = insert i (bits.unmarked ?b)"
    using bits.unmarked_clear [OF cap] by blast
  have off: "slot p i + k - pa_data p = ?s * i + k" by (simp add: slot_def)
  have idx: "(?s * i + k) div ?s = i" using k by simp
  have "?s * i + k \<le> ?s * (ba_size ?b - 1)" using within by (simp add: slot_def)
  also have "?s * (ba_size ?b - 1) + ?s = ba_size ?b * ?s" using n by (cases "ba_size ?b") (simp_all add: algebra_simps)
  finally have room: "?s * i + k + ?s \<le> length (pa_mem p)" using ok by (simp add: pool_ok_def)
  let ?m = "take (?s * i + k) (pa_mem p) @ replicate ?s NUL @ drop (?s * i + k + ?s) (pa_mem p)"
  have "pool_allocator_free p (slot p i + k) = Some (p\<lparr>pa_mem := ?m, pa_availability := b\<rparr>)"
    unfolding pool_allocator_free_def w1 last off idx
    using within room b(1) k by (simp add: slot_def mem_write_def)
  moreover have "length ?m = length (pa_mem p)" using room by simp
  ultimately show ?thesis
    using ok b bitwise_clear_size [OF b(1)] i by (auto simp: pool_ok_def free_slots_def)
qed

section \<open>The bump allocator\<close>

record bump_allocator =
  bp_size :: nat
  bp_cursor :: nat
  bp_data :: nat

definition bump_allocator_create :: "nat \<Rightarrow> nat \<Rightarrow> bump_allocator" where
  "bump_allocator_create addr n = \<lparr>bp_size = n, bp_cursor = addr, bp_data = addr\<rparr>"

definition bump_allocator_alloc :: "bump_allocator \<Rightarrow> nat \<Rightarrow> bump_allocator \<times> nat option" where
  "bump_allocator_alloc b n =
     (if wrap (bp_cursor b + n) > wrap (bp_data b + bp_size b) then (b, None)
      else (b\<lparr>bp_cursor := wrap (bp_cursor b + n)\<rparr>, Some (bp_cursor b)))"

text \<open>The memory is zeroed as well.\<close>

definition bump_alloctor_reset :: "bump_allocator \<Rightarrow> bump_allocator \<times> bytes" where
  "bump_alloctor_reset b = (b\<lparr>bp_cursor := bp_data b\<rparr>, replicate (bp_size b) NUL)"

fun bump_run :: "bump_allocator \<Rightarrow> nat list \<Rightarrow> bump_allocator \<times> nat option list" where
  "bump_run b [] = (b, [])"
| "bump_run b (n # ns) =
     (let (b, r) = bump_allocator_alloc b n; (b, rs) = bump_run b ns in (b, r # rs))"

text \<open>What it should do: hand out consecutive ranges while they fit.\<close>

fun bump_spec :: "nat \<Rightarrow> nat \<Rightarrow> nat list \<Rightarrow> nat option list" where
  "bump_spec cur stop [] = []"
| "bump_spec cur stop (n # ns) =
     (if cur + n \<le> stop then Some cur # bump_spec (cur + n) stop ns else None # bump_spec cur stop ns)"

definition bump_ok :: "bump_allocator \<Rightarrow> bool" where
  "bump_ok b \<longleftrightarrow> bp_data b \<le> bp_cursor b \<and> bp_cursor b \<le> bp_data b + bp_size b \<and> bp_data b + bp_size b < SIZE_MOD"

lemma bump_run_spec:
  "bump_ok b \<Longrightarrow> \<forall>n\<in>set ns. bp_data b + bp_size b + n < SIZE_MOD \<Longrightarrow>
   snd (bump_run b ns) = bump_spec (bp_cursor b) (bp_data b + bp_size b) ns"
proof (induction ns arbitrary: b)
  case (Cons n ns)
  have "wrap (bp_cursor b + n) = bp_cursor b + n" "wrap (bp_data b + bp_size b) = bp_data b + bp_size b"
    using Cons.prems by (auto simp: bump_ok_def)
  with Cons.prems Cons.IH [of b] Cons.IH [of "b\<lparr>bp_cursor := bp_cursor b + n\<rparr>"] show ?case
    by (auto simp: bump_allocator_alloc_def bump_ok_def split_def Let_def)
qed simp

text \<open>The ranges handed out lie in the block, in order, and do not overlap.\<close>

lemma bump_spec_disjoint:
  "bump_spec cur stop ns ! i = Some a \<Longrightarrow> i < length ns \<Longrightarrow>
   cur \<le> a \<and> a + ns ! i \<le> stop \<and> (\<forall>j < length ns. \<forall>c. i < j \<longrightarrow> bump_spec cur stop ns ! j = Some c \<longrightarrow> a + ns ! i \<le> c)"
proof (induction ns arbitrary: cur i a)
  case (Cons n ns)
  have later: "cur' \<le> c" if "bump_spec cur' stop ns ! j = Some c" "j < length ns" for cur' j c
    using Cons.IH [OF that] by simp
  show ?case
  proof (cases i)
    case 0
    with Cons.prems have a: "a = cur" "cur + n \<le> stop" by (auto split: if_splits)
    have "a + n \<le> c" if "j < length (n # ns)" "0 < j" "bump_spec cur stop (n # ns) ! j = Some c" for j c
      using that a later [of "cur + n" "j - 1" c] by (cases j) auto
    with a 0 show ?thesis by auto
  next
    case (Suc k)
    let ?cur = "if cur + n \<le> stop then cur + n else cur"
    have k: "bump_spec ?cur stop ns ! k = Some a" "k < length ns" using Cons.prems Suc by (auto split: if_splits)
    note IH = Cons.IH [OF k]
    have "a + ns ! k \<le> c" if "j < length (n # ns)" "i < j" "bump_spec cur stop (n # ns) ! j = Some c" for j c
    proof -
      have "j \<noteq> 0" using that(2) by simp
      then obtain l where j: "j = Suc l" by (cases j) auto
      have "bump_spec ?cur stop ns ! l = Some c" using that(3) j by (auto split: if_splits)
      with IH that j Suc show ?thesis by auto
    qed
    moreover have "cur \<le> ?cur" by simp
    ultimately show ?thesis using IH Suc by (auto split: if_splits)
  qed
qed simp

section \<open>The general allocator\<close>

text \<open>
  The free list is the doubly linked list, its elements a size and an offset.  \<open>gpa_data\<close> is the
  address of the memory, and \<open>gpa_headers\<close> its content seen as an array of headers, one
  \<open>size_t\<close> of 8 bytes each, as the code addresses it.
\<close>

record gpa =
  gpa_free_list :: dll
  gpa_size :: nat
  gpa_data :: nat
  gpa_headers :: "u64 list"

type_synonym gpa_heap = "(nat \<times> nat) dll_heap"

text \<open>
  \<open>malloc\<close> provides the address and the content; the block has room for the 16 bytes of the
  structure and \<open>n\<close> more, added modulo \<open>2 ^ 64\<close>.
\<close>

definition GPA_create :: "gpa_heap \<Rightarrow> nat \<Rightarrow> u64 list \<Rightarrow> nat \<Rightarrow> (gpa_heap \<times> gpa) option" where
  "GPA_create h addr mem n = do {
     (h, dl, a) \<leftarrow> doubly_linked_list_push_back h (doubly_linked_list_create 16) (n, 0);
     Some (h, \<lparr>gpa_free_list = dl, gpa_size = n, gpa_data = addr,
       gpa_headers = take ((wrap (16 + n) - 16) div 8) mem\<rparr>)
   }"

definition GPA_destroy :: "gpa_heap \<Rightarrow> gpa \<Rightarrow> gpa_heap option" where
  "GPA_destroy h g = doubly_linked_list_destroy h (d_head (gpa_free_list g))"

text \<open>
  The loop of \<open>GPA_alloc\<close>; it never moves to the next node, and \<^const>\<open>None\<close> is also that it
  never ends.  Both additions to the data pointer count in headers of 8 bytes.  The free list is
  only read; the result is the allocator with the header written, and the pointer returned.
\<close>

partial_function (option) GPA_alloc_loop ::
  "gpa_heap \<Rightarrow> ptr \<Rightarrow> gpa \<Rightarrow> nat \<Rightarrow> nat \<Rightarrow> (gpa \<times> nat option) option" where
  "GPA_alloc_loop h curr_dll_node g n adjusted_size =
     (if curr_dll_node = None then Some (g, None)
      else do {
        node \<leftarrow> deref (cells h) curr_dll_node;
        if fst (n_data node) \<ge> adjusted_size
        then do {
          let offset = snd (n_data node);
          guard (offset < length (gpa_headers g));
          let new_alloc_header = wrap (gpa_data g + 8 * offset);
          Some (g\<lparr>gpa_headers := (gpa_headers g)[offset := of_nat n]\<rparr>, Some (wrap (new_alloc_header + 8 * 8)))
        }
        else GPA_alloc_loop h curr_dll_node g n adjusted_size
      })"

definition GPA_alloc :: "gpa_heap \<Rightarrow> gpa \<Rightarrow> nat \<Rightarrow> (gpa \<times> nat option) option" where
  "GPA_alloc h g n = GPA_alloc_loop h (d_head (gpa_free_list g)) g n (wrap (n + 8))"

text \<open>\<open>GPA_free\<close> looks for the header and does nothing with it.\<close>

definition GPA_free :: "gpa \<Rightarrow> nat \<Rightarrow> gpa \<times> bool" where
  "GPA_free g p = (g, False)"

text \<open>A node that is too small is looked at for ever.\<close>

lemma GPA_alloc_loop_fits:
  assumes "GPA_alloc_loop h p g n adj = Some r"
  shows "\<forall>node. deref (cells h) p = Some node \<longrightarrow> adj \<le> fst (n_data node)"
  using assms
  by (rule GPA_alloc_loop.raw_induct
      [where P = "\<lambda>h p g n adj r. \<forall>node. deref (cells h) p = Some node \<longrightarrow> adj \<le> fst (n_data node)", rotated])
    (auto simp: fault_simps Let_def split: if_splits)

lemma GPA_alloc_loop_stuck:
  assumes "deref (cells h) p = Some node" and "fst (n_data node) < adj"
  shows "GPA_alloc_loop h p g n adj = None"
  using GPA_alloc_loop_fits [of h p g n adj] assms
  by (cases "GPA_alloc_loop h p g n adj") auto

text \<open>An allocator whose free list is the node it was created with.\<close>

definition gpa_fresh :: "gpa_heap \<Rightarrow> gpa \<Rightarrow> nat \<Rightarrow> bool" where
  "gpa_fresh h g n \<longleftrightarrow> gpa_headers g \<noteq> [] \<and> d_head (gpa_free_list g) \<noteq> None \<and>
     deref (cells h) (d_head (gpa_free_list g)) = Some \<lparr>n_prev = None, n_next = None, n_data = (n, 0)\<rparr>"

lemma GPA_create_spec:
  assumes "8 \<le> n" and "n + 16 < SIZE_MOD" and "n div 8 \<le> length mem"
  shows "\<exists>h g. GPA_create empty_heap addr mem n = Some (h, g) \<and> gpa_fresh h g n \<and> gpa_data g = addr \<and>
    gpa_headers g = take (n div 8) mem"
proof -
  have "take (n div 8) mem \<noteq> []" using assms by (cases mem) (auto simp: div_eq_0_iff)
  with assms(2) show ?thesis
    by (simp add: gpa_fresh_def GPA_create_def doubly_linked_list_push_back_def doubly_linked_list_create_def
        doubly_linked_list_node_create_def empty_heap_def upd_cell_def)
qed

lemma GPA_alloc_fresh:
  assumes "gpa_fresh h g n"
  shows "GPA_alloc h g k =
    (if wrap (k + 8) \<le> n
     then Some (g\<lparr>gpa_headers := (gpa_headers g)[0 := of_nat k]\<rparr>, Some (wrap (wrap (gpa_data g) + 64)))
     else None)"
proof (cases "wrap (k + 8) \<le> n")
  case True
  with assms show ?thesis unfolding GPA_alloc_def
    by (subst GPA_alloc_loop.simps) (auto simp: gpa_fresh_def Let_def)
next
  case False
  with assms GPA_alloc_loop_stuck [of h "d_head (gpa_free_list g)" _ "wrap (k + 8)" g k] show ?thesis
    by (simp add: GPA_alloc_def gpa_fresh_def)
qed

text \<open>A sequence of allocations and releases, with the pointer or the truth value each returns.\<close>

datatype gpa_op = Galloc nat | Gfree nat

fun gpa_run :: "gpa_heap \<Rightarrow> gpa \<Rightarrow> gpa_op list \<Rightarrow> (gpa \<times> (nat option + bool) list) option" where
  "gpa_run h g [] = Some (g, [])"
| "gpa_run h g (Galloc k # ops) =
     do { (g, r) \<leftarrow> GPA_alloc h g k; (g, rs) \<leftarrow> gpa_run h g ops; Some (g, Inl r # rs) }"
| "gpa_run h g (Gfree p # ops) =
     (let (g, r) = GPA_free g p in do { (g, rs) \<leftarrow> gpa_run h g ops; Some (g, Inr r # rs) })"

text \<open>The sizes asked for, and the size the last request left in the header.\<close>

fun requests :: "gpa_op list \<Rightarrow> nat list" where
  "requests [] = []"
| "requests (Galloc k # ops) = k # requests ops"
| "requests (Gfree p # ops) = requests ops"

definition last_header :: "u64 \<Rightarrow> nat list \<Rightarrow> u64" where
  "last_header w ks = (if ks = [] then w else of_nat (last ks))"

lemma gpa_run_fresh:
  assumes "gpa_fresh h g n" and "wrap (wrap (gpa_data g) + 64) = a"
  shows "gpa_run h g ops =
    (if \<forall>k\<in>set (requests ops). wrap (k + 8) \<le> n
     then Some (g\<lparr>gpa_headers := (gpa_headers g)[0 := last_header (gpa_headers g ! 0) (requests ops)]\<rparr>,
       map (\<lambda>opn. case opn of Galloc k \<Rightarrow> Inl (Some a) | Gfree p \<Rightarrow> Inr False) ops)
     else None)"
  using assms
proof (induction ops arbitrary: g)
  case Nil
  then show ?case by (simp add: last_header_def)
next
  case (Cons opn ops)
  show ?case
  proof (cases opn)
    case (Galloc k)
    let ?g = "g\<lparr>gpa_headers := (gpa_headers g)[0 := of_nat k]\<rparr>"
    have "gpa_fresh h ?g n" "wrap (wrap (gpa_data ?g) + 64) = a" "gpa_headers g \<noteq> []"
      using Cons.prems by (simp_all add: gpa_fresh_def)
    with Cons.IH [OF this(1,2)] Galloc show ?thesis
      by (simp add: GPA_alloc_fresh [OF Cons.prems(1)] Cons.prems(2) last_header_def)
  next
    case (Gfree p)
    with Cons show ?thesis by (auto simp: GPA_free_def)
  qed
qed

section \<open>Properties\<close>

text \<open>
  The pool allocator on the set of its free slots: an allocation takes the lowest free
  slot, or answers with the null pointer exactly when there is none; freeing the start of a
  slot makes that slot free, zeroes it and touches no other.
\<close>

theorem pool_allocator_refines:
  assumes "pool_ok p"
  shows "(if free_slots p = {} then pool_allocator_alloc p = Some (p, None)
     else (\<exists>p'. pool_allocator_alloc p = Some (p', Some (slot p (Min (free_slots p)))) \<and> pool_ok p' \<and>
       free_slots p' = free_slots p - {Min (free_slots p)})) \<and>
   (\<forall>i < ba_size (pa_availability p). 0 < pa_stride p \<longrightarrow>
     (\<exists>p'. pool_allocator_free p (slot p i) = Some p' \<and> pool_ok p' \<and> free_slots p' = insert i (free_slots p) \<and>
       pa_mem p' = take (pa_stride p * i) (pa_mem p) @ replicate (pa_stride p) NUL @ drop (pa_stride p * (i + 1)) (pa_mem p)))"
proof (rule conjI)
  have fin: "finite (free_slots p)" by (simp add: free_slots_def)
  show "if free_slots p = {} then pool_allocator_alloc p = Some (p, None)
     else (\<exists>p'. pool_allocator_alloc p = Some (p', Some (slot p (Min (free_slots p)))) \<and> pool_ok p' \<and>
       free_slots p' = free_slots p - {Min (free_slots p)})"
  proof (cases "free_slots p = {}")
    case True
    with pool_scan_spec [OF assms, of 0] show ?thesis by (simp add: pool_allocator_alloc_def)
  next
    case False
    with fin have "(LEAST k. k \<in> free_slots p) = Min (free_slots p)"
      by (intro Least_equality) auto
    with pool_scan_spec [OF assms, of 0] False show ?thesis
      by (auto simp: pool_allocator_alloc_def split: if_splits)
  qed
  show "\<forall>i < ba_size (pa_availability p). 0 < pa_stride p \<longrightarrow>
     (\<exists>p'. pool_allocator_free p (slot p i) = Some p' \<and> pool_ok p' \<and> free_slots p' = insert i (free_slots p) \<and>
       pa_mem p' = take (pa_stride p * i) (pa_mem p) @ replicate (pa_stride p) NUL @ drop (pa_stride p * (i + 1)) (pa_mem p))"
  proof (intro allI impI)
    fix i
    assume i: "i < ba_size (pa_availability p)" and s: "0 < pa_stride p"
    have "i \<le> ba_size (pa_availability p) - 1" using i by linarith
    then have "slot p i + 0 \<le> slot p (ba_size (pa_availability p) - 1)"
      unfolding slot_def add_0_right by (intro add_left_mono mult_le_mono2)
    from pool_free_spec [OF assms i s this] show "\<exists>p'. pool_allocator_free p (slot p i) = Some p' \<and> pool_ok p' \<and>
        free_slots p' = insert i (free_slots p) \<and>
        pa_mem p' = take (pa_stride p * i) (pa_mem p) @ replicate (pa_stride p) NUL @ drop (pa_stride p * (i + 1)) (pa_mem p)"
      by (auto simp: add.commute)
  qed
qed

abbreviation example_pool :: pool_allocator where
  "example_pool \<equiv> pool_allocator_create [0x41] 1000 ''abcdefgh'' 4 2"

theorem pool_allocator_refines_witness:
  "\<exists>p'. pool_allocator_alloc example_pool = Some (p', Some 1004) \<and> free_slots p' = {}"
proof -
  have "bitwise_get (pa_availability example_pool) 0 = Some True" "bitwise_get (pa_availability example_pool) 1 = Some False"
    by (simp_all add: pool_allocator_create_def bitarray_create_def bitwise_get_def array_bytes_def)
  then have "free_slots example_pool = {1}"
    by (auto simp: free_slots_def bits.unmarked_def bit_cap_def pool_allocator_create_def bitarray_create_def
        array_bytes_def less_2_cases_iff)
  moreover have "pool_ok example_pool"
    by (simp add: pool_ok_def pool_allocator_create_def bitarray_create_def array_bytes_def bit_cap_def)
  moreover have "slot example_pool 1 = 1004" by (simp add: slot_def pool_allocator_create_def)
  ultimately show ?thesis using pool_allocator_refines [of example_pool] by auto
qed

text \<open>
  Two faults of the pool: the marks of a new pool are whatever the memory held, so with
  memory full of ones it answers with the null pointer at once; and freeing an address inside a
  slot, which the bounds check accepts, zeroes the beginning of the next slot.
\<close>

theorem pool_allocator_faults:
  assumes "0 < n" and "n < 2 ^ 32" and "length mem = n * stride" and "addr + n * stride < SIZE_MOD"
    and "pool_ok p" and "i + 1 < ba_size (pa_availability p)" and "0 < k" and "k < pa_stride p"
  shows "pool_allocator_alloc (pool_allocator_create (replicate (array_bytes n) (- 1)) addr mem stride n) =
      Some (pool_allocator_create (replicate (array_bytes n) (- 1)) addr mem stride n, None) \<and>
    (\<exists>p'. pool_allocator_free p (slot p i + k) = Some p' \<and>
      take k (drop (pa_stride p * (i + 1)) (pa_mem p')) = replicate k NUL)"
proof (rule conjI)
  let ?p = "pool_allocator_create (replicate (array_bytes n) (- 1)) addr mem stride n"
  have bytes: "n \<le> 8 * array_bytes n" "n < SIZE_MOD" using assms(2) by (simp_all add: array_bytes_def)
  have ba: "pa_availability ?p = \<lparr>ba_size = n, ba_array = replicate (array_bytes n) (- 1)\<rparr>"
    by (simp add: pool_allocator_create_def bitarray_create_def)
  have "length (pa_mem ?p) = n * stride"
    using assms(3,4) by (simp add: pool_allocator_create_def)
  then have ok: "pool_ok ?p"
    using assms(4) bytes by (simp add: pool_ok_def ba bit_cap_def) (simp add: pool_allocator_create_def)
  have "bitwise_get (pa_availability ?p) j = Some True" if "j < n" for j
  proof -
    have "j div 8 < array_bytes n" "j mod 8 < 8" using that bytes(1) by auto
    then show ?thesis by (simp add: ba get_bit)
  qed
  then have "free_slots ?p = {}" by (auto simp: free_slots_def bits.unmarked_def ba)
  with pool_scan_spec [OF ok, of 0] show "pool_allocator_alloc ?p = Some (?p, None)"
    by (simp add: pool_allocator_alloc_def)
  have i: "i < ba_size (pa_availability p)" using assms(6) by simp
  have "pa_stride p * (i + 1) \<le> pa_stride p * (ba_size (pa_availability p) - 1)"
    using assms(6) by (intro mult_le_mono2) simp
  then have "slot p i + k \<le> slot p (ba_size (pa_availability p) - 1)" using assms(8) by (simp add: slot_def)
  from pool_free_spec [OF assms(5) i assms(8) this] obtain p' where
    p': "pool_allocator_free p (slot p i + k) = Some p'"
    "pa_mem p' = take (pa_stride p * i + k) (pa_mem p) @ replicate (pa_stride p) NUL @ drop (pa_stride p * i + k + pa_stride p) (pa_mem p)"
    by blast
  have "pa_stride p * (i + 1) \<le> length (pa_mem p)"
    using assms(5) mult_le_mono2 [of "i + 1" "ba_size (pa_availability p)" "pa_stride p"] i
    by (simp add: pool_ok_def mult.commute)
  then have "length (take (pa_stride p * i + k) (pa_mem p)) = pa_stride p * i + k" using assms(8) by simp
  then have "drop (pa_stride p * (i + 1)) (pa_mem p') =
      replicate k NUL @ drop (pa_stride p * i + k + pa_stride p) (pa_mem p)"
    using assms(7,8) by (simp add: p'(2) algebra_simps)
  with p'(1) show "\<exists>p'. pool_allocator_free p (slot p i + k) = Some p' \<and>
      take k (drop (pa_stride p * (i + 1)) (pa_mem p')) = replicate k NUL" by simp
qed

theorem pool_allocator_faults_witness:
  "\<exists>p'. pool_allocator_free (pool_allocator_create [3] 1000 ''abcdefgh'' 4 2) 1001 = Some p' \<and>
     take 1 (drop 4 (pa_mem p')) = [NUL]"
proof -
  let ?p = "pool_allocator_create [3] 1000 ''abcdefgh'' 4 2"
  have "pool_ok ?p" "0 + 1 < ba_size (pa_availability ?p)" "1 < pa_stride ?p" "slot ?p 0 + 1 = 1001" "pa_stride ?p = 4"
    by (simp_all add: pool_ok_def pool_allocator_create_def bitarray_create_def array_bytes_def bit_cap_def slot_def)
  with pool_allocator_faults [of 1 "''abc''" 3 50 ?p 0 1] show ?thesis by simp
qed

text \<open>
  The bump allocator hands out the ranges the specification does as long as the requests
  cannot make an address wrap around: in order, inside its block, and disjoint, and the null
  pointer exactly when a request does not fit.
\<close>

theorem bump_allocator_refines:
  assumes "addr + n < SIZE_MOD" and "\<forall>k\<in>set ns. addr + n + k < SIZE_MOD"
  shows "snd (bump_run (bump_allocator_create addr n) ns) = bump_spec addr (addr + n) ns \<and>
    (\<forall>i j a c. i < j \<longrightarrow> j < length ns \<longrightarrow>
       snd (bump_run (bump_allocator_create addr n) ns) ! i = Some a \<longrightarrow>
       snd (bump_run (bump_allocator_create addr n) ns) ! j = Some c \<longrightarrow>
       addr \<le> a \<and> a + ns ! i \<le> c \<and> c + ns ! j \<le> addr + n)"
proof -
  have run: "snd (bump_run (bump_allocator_create addr n) ns) = bump_spec addr (addr + n) ns"
    using bump_run_spec [of "bump_allocator_create addr n" ns] assms by (simp add: bump_allocator_create_def bump_ok_def)
  show ?thesis unfolding run
    using bump_spec_disjoint [of addr "addr + n" ns] by (auto dest: less_trans)
qed

theorem bump_allocator_refines_witness:
  "snd (bump_run (bump_allocator_create 1000 16) [8, 10, 8, 1]) = [Some 1000, None, Some 1008, None]"
  using bump_allocator_refines [of 1000 16 "[8, 10, 8, 1]"] by simp

text \<open>
  Without that assumption a request can pass the bounds check by wrapping around: the
  cursor moves back to the start of the block, and the next request is given memory that
  another caller already owns.
\<close>

theorem bump_allocator_wraps:
  assumes "addr + n < SIZE_MOD" and "0 < k" and "k \<le> n" and "0 < addr"
  shows "snd (bump_run (bump_allocator_create addr n) [k, SIZE_MOD - k, k]) = [Some addr, Some (addr + k), Some addr]"
proof -
  have "addr + k + (SIZE_MOD - k) = addr + SIZE_MOD" using assms by simp
  then have "wrap (addr + k + (SIZE_MOD - k)) = addr" using assms(1) by simp
  then show ?thesis using assms by (simp add: bump_allocator_create_def bump_allocator_alloc_def Let_def)
qed

theorem bump_allocator_wraps_witness:
  "snd (bump_run (bump_allocator_create 1000 16) [8, SIZE_MOD - 8, 8]) = [Some 1000, Some 1008, Some 1000]"
  using bump_allocator_wraps [of 1000 16 8] by simp

text \<open>
  C40. The general allocator, which its source calls unfinished, on any sequence of requests and
  releases.  A request fits when its size plus 8, modulo \<open>2 ^ 64\<close>, is at most the size \<open>n\<close> of the
  memory.  If every request fits, all of them get the same address, 64 bytes into the memory (so
  that they overlap, and one of more than \<open>n - 64\<close> bytes runs past the end), each overwrites the one
  header there is, every release answers false, and nothing else of the allocator ever changes.
  If one does not fit, that call never returns, whatever has been released before.
\<close>

theorem GPA_never_advances:
  assumes "8 \<le> n" and "n + 16 < SIZE_MOD" and "n div 8 \<le> length mem" and "addr + 64 < SIZE_MOD"
  shows "\<exists>h g. GPA_create empty_heap addr mem n = Some (h, g) \<and> gpa_headers g = take (n div 8) mem \<and>
    gpa_run h g ops =
      (if \<forall>k\<in>set (requests ops). (k + 8) mod 2 ^ 64 \<le> n
       then Some (g\<lparr>gpa_headers := (gpa_headers g)[0 := last_header (gpa_headers g ! 0) (requests ops)]\<rparr>,
         map (\<lambda>opn. case opn of Galloc k \<Rightarrow> Inl (Some (addr + 64)) | Gfree p \<Rightarrow> Inr False) ops)
       else None)"
proof -
  obtain h g where c: "GPA_create empty_heap addr mem n = Some (h, g)" "gpa_fresh h g n" "gpa_data g = addr"
    "gpa_headers g = take (n div 8) mem" using GPA_create_spec [OF assms(1-3)] by blast
  have "wrap (wrap (gpa_data g) + 64) = addr + 64" using c(3) assms(4) by simp
  with gpa_run_fresh [OF c(2), of "addr + 64" ops] c(1,4) show ?thesis by (intro exI [of _ h] exI [of _ g]) simp
qed

text \<open>On 100 bytes: two requests that overlap, one of \<open>2 ^ 64 - 1\<close> bytes that wraps, and one that hangs.\<close>

theorem GPA_never_advances_witness:
  "\<exists>h g. GPA_create empty_heap 1000 (replicate 12 7) 100 = Some (h, g) \<and>
     (\<exists>g'. gpa_run h g [Galloc 90, Gfree 1064, Galloc 30, Galloc (2 ^ 64 - 1)] =
       Some (g', [Inl (Some 1064), Inr False, Inl (Some 1064), Inl (Some 1064)])) \<and>
     gpa_run h g [Galloc 90, Gfree 1064, Galloc 93] = None"
proof -
  have "(12 :: nat) \<le> length (replicate 12 (7 :: u64))" by (simp only: length_replicate)
  then have m: "8 \<le> (100 :: nat)" "(100 :: nat) + 16 < SIZE_MOD" "100 div 8 \<le> length (replicate 12 (7 :: u64))"
    "(1000 :: nat) + 64 < SIZE_MOD" by simp_all
  obtain h g where c: "GPA_create empty_heap 1000 (replicate 12 7) 100 = Some (h, g)"
    using GPA_create_spec [OF m(1-3)] by blast
  from GPA_never_advances [OF m, of "[Galloc 90, Gfree 1064, Galloc 30, Galloc (2 ^ 64 - 1)]"]
    GPA_never_advances [OF m, of "[Galloc 90, Gfree 1064, Galloc 93]"] c
  show ?thesis by auto
qed

end
