(* ===== verification/Spec2Isabelle.thy ===== *)
theory Spec2Isabelle
  imports Descriptors Delivery Startup SdsArgs Queue Allocators
begin

text \<open>
  Cerverus, a web server in C (\<open>src/webserver\<close>, with its \<open>main\<close> in \<open>src/project\<close>): a
  verification development.

  \<^bold>\<open>The program.\<close>  \<open>main\<close> lists the public directory, makes a router with the table of public
  files and a trie of routes, registers the route \<open>/test\<close>, and enters a loop over the completion
  queue of \<open>io_uring\<close>.  Eight accepts are in flight; a connection is received into a growing
  string until the parser finds a whole request; the router starts protothreads, which open a
  file through a cache, send a header, move the file through a pipe with splices, and close the
  connection.  Every operation is a submission and a completion handler; a protothread is a
  function with a label that is entered again when its operation completes.

  \<^bold>\<open>Theories and the code they model.\<close>  Paths are below \<open>src/webserver/src\<close>.

  \<^item> \<open>Prelude\<close>: bytes, reads and writes of memory with bounds, C strings, \<open>memchr\<close> and its like,
    word arithmetic, and the collections of rewrite rules (\<open>fault_simps\<close>, \<open>cell_simps\<close>) the
    components share.
  \<^item> \<open>Sv\<close>: \<open>core/containers/sv.c\<close> and the comparison macros of \<open>defines.h\<close>.
  \<^item> \<open>Doubles\<close>: the division of doubles that sizes a hash table (IEEE 754, to nearest, ties to
    even).
  \<^item> \<open>Hashmap\<close>, \<open>Dll\<close>, \<open>LruCache\<close>, \<open>Darray\<close>, \<open>Queue\<close>: \<open>core/containers/\<close>.  Lists, queues and
    arrays live on explicit heaps of nodes, so that aliasing and freed memory are visible.
  \<^item> \<open>Bitarray\<close>, \<open>Allocators\<close>: \<open>core/util/bitwise.c\<close> and the pool, bump and general allocators of
    \<open>core/memory/\<close>.
  \<^item> \<open>Sds\<close>, \<open>SdsNum\<close>, \<open>SdsText\<close>, \<open>SdsFmt\<close>, \<open>SdsArgs\<close>: the dynamic strings of
    \<open>core/vendor/sds.c\<close>: representation and growth, number conversion, splitting, joining and
    comparing, formatting, and quoted arguments.
  \<^item> \<open>FileList\<close>: the walk of the public directory, \<open>core/util/util.c\<close>.
  \<^item> \<open>Http\<close>, \<open>Lines\<close>, \<open>Request\<close>, \<open>Response\<close>: \<open>network/network_types.inl\<close>,
    \<open>network/network_util.c\<close> and \<open>network/http/\<close>; \<open>Lines\<close> is the theory of CRLF lines the
    parser's proofs use.
  \<^item> \<open>RouteTrie\<close>, \<open>Router\<close>: \<open>network/routing/\<close>.
  \<^item> \<open>AsyncIo\<close>: the submissions and completions that move data, \<open>network/IO/async_io.c\<close>.
  \<^item> \<open>FileServer\<close>: the protothreads, those of \<open>async_io.c\<close>, of \<open>router.c\<close> and of \<open>main.c\<close>.
  \<^item> \<open>EventLoop\<close>: the state of the server, all completion handlers, their dispatch and the loop.
  \<^item> \<open>Program\<close>: \<open>main\<close> when the ring can be set up.  \<open>Logger\<close>: \<open>core/util/logger.c\<close>.  \<open>Startup\<close>:
    all of \<open>main\<close> and \<open>async_io_setup\<close>, with the results of the system calls of \<open>async_io.c\<close> and of
    \<open>network/server.c\<close> and with what is printed.
  \<^item> \<open>Ring\<close>: the server on a submission ring of 64 entries, with the write through the null entry
    of a full one; \<open>EventLoop\<close> submits as if an entry were always free.
  \<^item> \<open>Serving\<close>, \<open>Exchange\<close>, \<open>Forgotten\<close>, \<open>Isolation\<close>, \<open>Content\<close>, \<open>Liveness\<close>,
    \<open>Delivery\<close>, \<open>Descriptors\<close>: the properties of the running server: faults and files, whole
    exchanges, connections nobody closes, whose data goes where, which file an answer carries, that
    it ends, what its client receives, and which descriptors stay open.

  \<^bold>\<open>How code becomes definitions.\<close>  A function that can touch memory it must not, divide by
  zero, or read a variable that is gone returns an option, and \<^const>\<open>None\<close> is that fault; a result
  the code itself reports (a null pointer, \<open>false\<close>, \<open>-1\<close>) is an ordinary value.  State is passed
  explicitly.  Integers that can wrap around keep their width: \<open>size_t\<close> and \<open>uint64_t\<close> as words
  of 64 bits or naturals below \<open>SIZE_MOD\<close> with the remainder written out, \<open>unsigned int\<close> as
  words of 32.  A view into a buffer is an offset and a length.  The allocator is a parameter
  (\<open>al_ok\<close>: it succeeds); the content of uninitialised memory is a parameter too.

  The kernel is the environment: a completion (\<open>cqe\<close>) carries its result and what the kernel
  wrote; \<open>reachable\<close> takes any completion of any operation in flight that the given relation
  allows.  \<open>kernel_ok\<close> only says that a receive writes as many bytes as its result says and no
  more than it was offered, and that allocation succeeds.

  \<^bold>\<open>Interfaces.\<close>  \<open>hashmap_run\<close>, the recency list of the cache, the deque and the queue are
  specified by locales or plain functions on lists and maps, and the definitions that model the
  code are shown to implement them: \<open>mark_set\<close> (bit array, used by the pool allocator), \<open>fifo\<close> and
  \<open>deque\<close> (the queue and the linked list; a deque gives a queue), \<open>server_invariant\<close> (what a
  protothread, an operation and the cache must satisfy so that every step keeps it), interpreted
  six times: for the paths that are opened, for the absence of faults, for a descriptor nobody
  uses, for the relation between a protothread and its operation, for the files of the answers,
  and for the transfers; \<open>guarded_run\<close> (an invariant kept by the steps a kernel allows),
  interpreted on the descriptors of the process, and its extensions \<open>countdown\<close> (steps that lower a
  rank) and \<open>conservation\<close> (what has gone out and what is left), interpreted on the completions of
  one answer.

  \<^bold>\<open>What is shown.\<close>  Of the server: exactly which completions make it fault
  (the end of the header of the test page, and a submission that finds the ring full), the whole
  exchange for a file that is cached and for one that is not, the files that can be opened, the
  discipline of the protothreads and the isolation of the clients, that an answer carries the file
  it was started for, delivers it (whole up to 64 KiB, beyond that its first 64 KiB over and
  over), and ends after a bounded number of completions if its pipe is drained in time; when its
  submission ring may be taken for unbounded and when it overflows; that the pipes of its
  transfers are never closed; and when the program starts, and what goes wrong with failed starts
  and accepts, refused requests and files that cannot be opened. Of the parser: it accepts exactly
  the printed requests, with the number of their bytes as its result, reads in bounds, and does
  not depend on how the bytes arrive up to its limit. Of the transfer loops: exact delivery of
  buffers and of files up to 64 KiB, what a longer file gets, and when a transfer never ends. Of
  the router and the trie: dispatch, soundness and completeness. Of the containers and allocators:
  refinement of lists, maps and sets, and the histories after which they fail. Of the strings:
  what each operation leaves, through every type of header and growth, and that quoted arguments
  that have been printed are read back.

  \<^bold>\<open>Bounds and loops.\<close>  There is no fuel: loops over memory end by measures;
  those over linked nodes are partial functions, and the theorems state that they return. A run of
  the server is a list of completions or a path of steps of any length. The bound of an answer is
  three times its file's size modulo 2^32, plus its header's length, plus six: each splice moves
  at least a byte into the pipe or out of it, each send takes at least a byte.

  \<^bold>\<open>Not modelled.\<close>  The ring of \<open>liburing\<close>, of which the model only uses that a submission is
  in flight until it completes and that the submission queue gives out its 64 entries, again as the
  kernel has read them (\<open>Ring\<close>).  The timer and the profiler, which nothing uses; copies and
  allocation in \<open>cmem.c\<close>, whose effect is used directly; \<open>request_destroy\<close> and the destroy
  functions that only free; the formatting of log messages, and the text \<open>vsnprintf\<close> makes
  beyond the two conversions \<open>sdscatrepr\<close> uses; the tests inside \<open>sds.c\<close>.  Memory that is only leaked
  is not tracked.
\<close>

end
